(* ===== verification/Prelude.thy ===== *)
theory Prelude
  imports Main "HOL-Library.Word" "HOL-Library.Char_ord" "HOL-Library.List_Lexorder"
    "HOL-Library.Sublist"
begin

text \<open>
  Shared vocabulary of the development. A Go \<open>[]byte\<close> and a Go \<open>string\<close> are both a list of
  \<^typ>\<open>char\<close>: a \<^typ>\<open>char\<close> is one of 256 byte values, so length and order are Go's (byte
  count, bytewise lexicographic order). A \<open>uint64\<close> is a \<open>64 word\<close>, a \<open>uint32\<close> a
  \<open>32 word\<close>. A Go function that returns \<open>(T, error)\<close> returns a sum whose \<^const>\<open>Inl\<close>
  side is the error.
\<close>

type_synonym bytes = string
type_synonym uint64 = "64 word"
type_synonym uint32 = "32 word"

named_theorems go_string "equations of the modelled string primitives"

abbreviation bval :: "char \<Rightarrow> nat" where
  "bval c \<equiv> of_char c"

abbreviation NL :: char where
  "NL \<equiv> CHR 0x0A"

subsection \<open>Results\<close>

definition is_ok :: "'e + 'a \<Rightarrow> bool" where
  "is_ok r = (case r of Inl _ \<Rightarrow> False | Inr _ \<Rightarrow> True)"

lemma is_ok_simps [simp]:
  "\<not> is_ok (Inl e)" "is_ok (Inr x)"
  by (simp_all add: is_ok_def)

lemma is_ok_iff: "is_ok r \<longleftrightarrow> (\<exists>x. r = Inr x)"
  by (cases r) simp_all

subsection \<open>Prefixes, suffixes, cutting\<close>

text \<open>\<open>strings.HasPrefix\<close>, \<open>strings.HasSuffix\<close>, \<open>strings.TrimPrefix\<close>,
  \<open>strings.TrimSuffix\<close>, \<open>strings.Cut\<close> and \<open>strings.Contains\<close> on byte strings.\<close>

text \<open>Go's \<open>if err != nil { return err }\<close> on a result type.\<close>

definition sum_bind :: "'e + 'a \<Rightarrow> ('a \<Rightarrow> 'e + 'b) \<Rightarrow> 'e + 'b" where
  "sum_bind m k = (case m of Inl e \<Rightarrow> Inl e | Inr x \<Rightarrow> k x)"

lemma sum_bind_Inr [simp]: "sum_bind m k = Inr y \<longleftrightarrow> (\<exists>x. m = Inr x \<and> k x = Inr y)"
  by (cases m) (simp_all add: sum_bind_def)

lemma sum_bind_simps [simp]: "sum_bind (Inl e) k = Inl e" "sum_bind (Inr x) k = k x"
  by (simp_all add: sum_bind_def)

definition has_prefix :: "bytes \<Rightarrow> bytes \<Rightarrow> bool" where
  "has_prefix s p = (take (length p) s = p)"

definition has_suffix :: "bytes \<Rightarrow> bytes \<Rightarrow> bool" where
  "has_suffix s p = (length p \<le> length s \<and> drop (length s - length p) s = p)"

definition trim_prefix :: "bytes \<Rightarrow> bytes \<Rightarrow> bytes" where
  "trim_prefix s p = (if has_prefix s p then drop (length p) s else s)"

definition trim_suffix :: "bytes \<Rightarrow> bytes \<Rightarrow> bytes" where
  "trim_suffix s p = (if has_suffix s p then take (length s - length p) s else s)"

lemma has_prefix_append [simp, go_string]: "has_prefix (p @ s) p"
  by (simp add: has_prefix_def)

lemma has_prefix_iff: "has_prefix s p \<longleftrightarrow> (\<exists>t. s = p @ t)"
  unfolding has_prefix_def by (metis append_eq_conv_conj append_take_drop_id)

lemma has_suffix_append [simp, go_string]: "has_suffix (s @ p) p"
  by (simp add: has_suffix_def)

lemma has_suffix_iff: "has_suffix s p \<longleftrightarrow> (\<exists>t. s = t @ p)"
proof
  assume "has_suffix s p"
  then have "s = take (length s - length p) s @ p"
    unfolding has_suffix_def by (metis append_take_drop_id)
  then show "\<exists>t. s = t @ p" ..
qed auto

lemma trim_prefix_append [simp, go_string]: "trim_prefix (p @ s) p = s"
  by (simp add: trim_prefix_def)

lemma trim_suffix_append [simp, go_string]: "trim_suffix (s @ p) p = s"
  by (simp add: trim_suffix_def)

text \<open>\<open>strings.Cut\<close> at a single byte: the text before its first occurrence and the text after.\<close>

fun cut_at :: "char \<Rightarrow> bytes \<Rightarrow> (bytes \<times> bytes) option" where
  "cut_at d [] = None"
| "cut_at d (c # cs) = (if c = d then Some ([], cs)
     else map_option (\<lambda>(a, b). (c # a, b)) (cut_at d cs))"

lemma cut_at_append [simp, go_string]:
  "d \<notin> set a \<Longrightarrow> cut_at d (a @ d # b) = Some (a, b)"
  by (induction a) auto

lemma cut_at_Some: "cut_at d s = Some (a, b) \<Longrightarrow> s = a @ d # b \<and> d \<notin> set a"
  by (induction s arbitrary: a) (auto split: if_splits)

lemma cut_at_None: "cut_at d s = None \<longleftrightarrow> d \<notin> set s"
  by (induction s) auto

fun contains_sub :: "bytes \<Rightarrow> bytes \<Rightarrow> bool" where
  "contains_sub [] p = (p = [])"
| "contains_sub (c # cs) p = (has_prefix (c # cs) p \<or> contains_sub cs p)"

lemma contains_sub_iff: "contains_sub s p \<longleftrightarrow> (\<exists>a b. s = a @ p @ b)"
proof (induction s)
  case (Cons c cs)
  show ?case
  proof
    assume "contains_sub (c # cs) p"
    then consider "has_prefix (c # cs) p" | "contains_sub cs p" by auto
    then show "\<exists>a b. c # cs = a @ p @ b"
    proof cases
      case 1
      then show ?thesis by (metis append_Nil has_prefix_iff)
    next
      case 2
      with Cons.IH obtain a b where "cs = a @ p @ b" by blast
      then have "c # cs = (c # a) @ p @ b" by simp
      then show ?thesis by blast
    qed
  next
    assume "\<exists>a b. c # cs = a @ p @ b"
    then obtain a b where ab: "c # cs = a @ p @ b" by blast
    show "contains_sub (c # cs) p"
    proof (cases a)
      case Nil
      with ab have "has_prefix (c # cs) p" by (simp add: has_prefix_iff)
      then show ?thesis by simp
    next
      case (Cons x a')
      with ab have "cs = a' @ p @ b" by simp
      with Cons.IH show ?thesis by auto
    qed
  qed
qed auto

subsection \<open>Decimal numbers\<close>

text \<open>\<open>strconv.FormatUint(n, 10)\<close> and \<open>strconv.Itoa\<close>, and \<open>strconv.ParseUint(s, 10, 64)\<close>.\<close>

definition digit_char :: "nat \<Rightarrow> char" where
  "digit_char d = char_of (48 + d)"

fun format_nat :: "nat \<Rightarrow> bytes" where
  "format_nat n = (if n < 10 then [digit_char n]
     else format_nat (n div 10) @ [digit_char (n mod 10)])"

declare format_nat.simps [simp del]

definition format_int :: "int \<Rightarrow> bytes" where
  "format_int i = (if i < 0 then CHR ''-'' # format_nat (nat (- i)) else format_nat (nat i))"

definition FormatUint :: "uint64 \<Rightarrow> bytes" where
  "FormatUint n = format_nat (unat n)"

definition is_digit :: "char \<Rightarrow> bool" where
  "is_digit c = (48 \<le> bval c \<and> bval c \<le> 57)"

definition digits_val :: "bytes \<Rightarrow> nat" where
  "digits_val s = foldl (\<lambda>a c. 10 * a + (bval c - 48)) 0 s"

definition ParseUint :: "bytes \<Rightarrow> uint64 option" where
  "ParseUint s = (if s \<noteq> [] \<and> list_all is_digit s \<and> digits_val s < 2 ^ 64
     then Some (of_nat (digits_val s)) else None)"

lemma bval_digit_char [simp]: "d < 10 \<Longrightarrow> bval (digit_char d) = 48 + d"
  by (simp add: digit_char_def)

lemma is_digit_digit_char [simp]: "d < 10 \<Longrightarrow> is_digit (digit_char d)"
  by (simp add: is_digit_def)

lemma format_nat_digits: "list_all is_digit (format_nat n)"
proof (induction n rule: format_nat.induct)
  case (1 n)
  then show ?case by (subst format_nat.simps) auto
qed

lemma format_nat_nonempty [simp]: "format_nat n \<noteq> []"
  by (subst format_nat.simps) simp

lemma digits_val_snoc: "digits_val (s @ [c]) = 10 * digits_val s + (bval c - 48)"
  by (simp add: digits_val_def)

lemma digits_val_format_nat [simp]: "digits_val (format_nat n) = n"
proof (induction n rule: format_nat.induct)
  case (1 n)
  show ?case
  proof (cases "n < 10")
    case True
    then show ?thesis
      by (subst format_nat.simps) (simp add: digits_val_def)
  next
    case False
    then have "digits_val (format_nat n) = 10 * (n div 10) + n mod 10"
      using "1.IH" by (subst format_nat.simps) (simp add: digits_val_snoc)
    then show ?thesis by simp
  qed
qed

lemma format_nat_inj: "format_nat m = format_nat n \<Longrightarrow> m = n"
  by (metis digits_val_format_nat)

lemma ParseUint_FormatUint [simp]: "ParseUint (FormatUint n) = Some n"
proof -
  have "unat n < 2 ^ 64" using unsigned_less [of n] by simp
  then show ?thesis
    by (simp add: ParseUint_def FormatUint_def format_nat_digits)
qed

lemma FormatUint_inj: "FormatUint m = FormatUint n \<Longrightarrow> m = n"
  by (metis ParseUint_FormatUint option.inject)

lemma set_format_nat: "c \<in> set (format_nat n) \<Longrightarrow> is_digit c"
  using format_nat_digits [of n] by (simp add: list_all_iff)

subsection \<open>Lowercase hex\<close>

text \<open>\<open>encoding/hex.EncodeToString\<close>: two lowercase hex digits per byte.\<close>

definition hex_digit :: "nat \<Rightarrow> char" where
  "hex_digit d = (if d < 10 then char_of (48 + d) else char_of (87 + d))"

definition hex_encode :: "bytes \<Rightarrow> bytes" where
  "hex_encode s = concat (map (\<lambda>c. [hex_digit (bval c div 16), hex_digit (bval c mod 16)]) s)"

lemma bval_hex_digit: "d < 16 \<Longrightarrow> bval (hex_digit d) = (if d < 10 then 48 + d else 87 + d)"
  by (simp add: hex_digit_def)

lemma hex_digit_inj:
  assumes "a < 16" "b < 16" "hex_digit a = hex_digit b"
  shows "a = b"
proof -
  have "bval (hex_digit a) = bval (hex_digit b)" by (simp only: assms(3))
  then have "(if a < 10 then 48 + a else 87 + a) = (if b < 10 then 48 + b else 87 + b)"
    by (simp only: bval_hex_digit [OF assms(1)] bval_hex_digit [OF assms(2)])
  with assms(1,2) show ?thesis by presburger
qed

lemma bval_less [simp]: "bval c < 256"
proof -
  have "bval c = bval (char_of (bval c))" by simp
  also have "\<dots> = bval c mod 256" by (rule of_char_of)
  finally show ?thesis by simp
qed

lemma hex_encode_Nil [simp]: "hex_encode [] = []"
  by (simp add: hex_encode_def)

lemma hex_encode_Cons [simp]: "hex_encode (c # s) =
    hex_digit (bval c div 16) # hex_digit (bval c mod 16) # hex_encode s"
  by (simp add: hex_encode_def)

lemma length_hex_encode [simp]: "length (hex_encode s) = 2 * length s"
  by (induction s) simp_all

lemma hex_encode_inj: "hex_encode s = hex_encode t \<Longrightarrow> s = t"
proof (induction s arbitrary: t)
  case Nil
  then show ?case by (cases t) simp_all
next
  case (Cons c s)
  then obtain d t' where t: "t = d # t'" by (cases t) simp_all
  have lt: "bval e div 16 < 16" for e :: char
    using bval_less [of e] by linarith
  from Cons.prems t have "bval c div 16 = bval d div 16" "bval c mod 16 = bval d mod 16"
    using lt by (auto intro: hex_digit_inj)
  then have "bval c = bval d" by (metis div_mult_mod_eq)
  then have "c = d" by simp
  moreover from Cons.prems t have "s = t'" by (intro Cons.IH) simp
  ultimately show ?case using t by simp
qed

end
