(* ===== verification/Go_Utf8.thy ===== *)
theory Go_Utf8
  imports Prelude
begin

text \<open>
  Go's \<open>unicode/utf8\<close> as the sources use it: \<open>DecodeRune\<close>, \<open>EncodeRune\<close>, \<open>Valid\<close> and the
  decoding that a \<open>for _, r := range s\<close> loop does. A rune is a \<^typ>\<open>nat\<close>. The main result is that
  the valid byte strings are exactly the encodings of lists of Unicode scalar values
  (\<open>utf8_valid_iff\<close>), so facts about valid strings are proved by induction on their runes.
\<close>

definition RuneError :: nat where
  "RuneError = 0xFFFD"

definition scalar :: "nat \<Rightarrow> bool" where
  "scalar r = (r < 0xD800 \<or> 0xDFFF < r \<and> r \<le> 0x10FFFF)"

text \<open>The length class of a lead byte, and the range its second byte must fall in.\<close>

definition seq_len :: "nat \<Rightarrow> nat" where
  "seq_len b = (if b < 0x80 then 1 else if 0xC2 \<le> b \<and> b \<le> 0xDF then 2
     else if 0xE0 \<le> b \<and> b \<le> 0xEF then 3 else if 0xF0 \<le> b \<and> b \<le> 0xF4 then 4 else 0)"

definition second_ok :: "nat \<Rightarrow> nat \<Rightarrow> bool" where
  "second_ok b0 b1 =
     ((if b0 = 0xE0 then 0xA0 else if b0 = 0xF0 then 0x90 else 0x80) \<le> b1 \<and>
      b1 \<le> (if b0 = 0xED then 0x9F else if b0 = 0xF4 then 0x8F else 0xBF))"

definition cont_ok :: "nat \<Rightarrow> bool" where
  "cont_ok b = (0x80 \<le> b \<and> b \<le> 0xBF)"

definition DecodeRune :: "bytes \<Rightarrow> nat \<times> nat" where
  "DecodeRune s = (case s of [] \<Rightarrow> (RuneError, 0)
   | c0 # s1 \<Rightarrow> (let b0 = bval c0 in
      if seq_len b0 = 1 then (b0, 1)
      else if seq_len b0 = 0 then (RuneError, 1)
      else (case s1 of [] \<Rightarrow> (RuneError, 1)
       | c1 # s2 \<Rightarrow> (let b1 = bval c1 in
          if seq_len b0 = 2 then
            (if second_ok b0 b1 then ((b0 mod 32) * 64 + b1 mod 64, 2) else (RuneError, 1))
          else (case s2 of [] \<Rightarrow> (RuneError, 1)
           | c2 # s3 \<Rightarrow> (let b2 = bval c2 in
              if seq_len b0 = 3 then
                (if second_ok b0 b1 \<and> cont_ok b2
                 then ((b0 mod 16) * 4096 + (b1 mod 64) * 64 + b2 mod 64, 3) else (RuneError, 1))
              else (case s3 of [] \<Rightarrow> (RuneError, 1)
               | c3 # s4 \<Rightarrow> (let b3 = bval c3 in
                  if second_ok b0 b1 \<and> cont_ok b2 \<and> cont_ok b3
                  then ((b0 mod 8) * 262144 + (b1 mod 64) * 4096 + (b2 mod 64) * 64 + b3 mod 64, 4)
                  else (RuneError, 1)))))))))"

definition EncodeRune :: "nat \<Rightarrow> bytes" where
  "EncodeRune r0 = (let r = (if scalar r0 then r0 else RuneError) in
     if r < 0x80 then [char_of r]
     else if r < 0x800 then [char_of (0xC0 + r div 64), char_of (0x80 + r mod 64)]
     else if r < 0x10000 then [char_of (0xE0 + r div 4096), char_of (0x80 + r div 64 mod 64),
       char_of (0x80 + r mod 64)]
     else [char_of (0xF0 + r div 262144), char_of (0x80 + r div 4096 mod 64),
       char_of (0x80 + r div 64 mod 64), char_of (0x80 + r mod 64)])"

text \<open>An invalid encoding is \<open>RuneError\<close> of width 1; a genuine U+FFFD has width 3.\<close>

lemma DecodeRune_width:
  assumes "s \<noteq> []"
  shows "0 < snd (DecodeRune s)" "snd (DecodeRune s) \<le> length s"
  using assms
  by (auto simp: DecodeRune_def Let_def split: list.splits)

function utf8_valid :: "bytes \<Rightarrow> bool" where
  "utf8_valid s = (if s = [] then True
     else if DecodeRune s = (RuneError, 1) then False
     else utf8_valid (drop (snd (DecodeRune s)) s))"
  by pat_completeness auto
termination
  by (relation "measure length") (auto simp: DecodeRune_width)

function runes :: "bytes \<Rightarrow> nat list" where
  "runes s = (if s = [] then []
     else fst (DecodeRune s) # runes (drop (snd (DecodeRune s)) s))"
  by pat_completeness auto
termination
  by (relation "measure length") (auto simp: DecodeRune_width)

declare utf8_valid.simps [simp del] runes.simps [simp del]

definition encode_runes :: "nat list \<Rightarrow> bytes" where
  "encode_runes rs = concat (map EncodeRune rs)"

lemma encode_runes_simps [simp]:
  "encode_runes [] = []" "encode_runes (r # rs) = EncodeRune r @ encode_runes rs"
  "encode_runes (rs @ qs) = encode_runes rs @ encode_runes qs"
  by (simp_all add: encode_runes_def)

subsection \<open>Decoding what was encoded\<close>

text \<open>The base-64 digits of a rune.\<close>

lemma base64_digits:
  fixes r :: nat
  obtains a b c d where "r div 262144 = a" "r div 4096 mod 64 = b" "r div 64 mod 64 = c"
    "r mod 64 = d" "r div 4096 = a * 64 + b" "r div 64 = (a * 64 + b) * 64 + c"
    "r = ((a * 64 + b) * 64 + c) * 64 + d" "b < 64" "c < 64" "d < 64"
proof -
  have q: "r div 4096 = r div 64 div 64" "r div 262144 = r div 4096 div 64"
    by (simp_all flip: div_mult2_eq)
  have "r div 4096 = r div 262144 * 64 + r div 4096 mod 64"
    unfolding q(2) by simp
  moreover have "r div 64 = r div 4096 * 64 + r div 64 mod 64"
    unfolding q(1) by simp
  moreover have "r = r div 64 * 64 + r mod 64" by simp
  ultimately show thesis
    by (intro that [of "r div 262144" "r div 4096 mod 64" "r div 64 mod 64" "r mod 64"])
      (simp_all only:, simp_all)
qed

lemma digit64: "z < 64 \<Longrightarrow> (q * 64 + z) div 64 = (q::nat)" "z < 64 \<Longrightarrow> (q * 64 + z) mod 64 = z"
  by simp_all

lemma mod_add_small: "(k::nat) mod m = 0 \<Longrightarrow> x < m \<Longrightarrow> (k + x) mod m = x"
  by (metis mod_add_left_eq add_0 mod_less)

lemma EncodeRune_ascii: "r < 0x80 \<Longrightarrow> EncodeRune r = [char_of r]"
  by (simp add: EncodeRune_def scalar_def)

lemma DecodeRune_ascii [simp]: "bval c < 0x80 \<Longrightarrow> DecodeRune (c # s) = (bval c, 1)"
  by (simp add: DecodeRune_def seq_len_def Let_def)

lemma DecodeRune_Encode2:
  assumes "0x80 \<le> r" "r < 0x800"
  shows "DecodeRune (EncodeRune r @ s) = (r, 2)"
proof -
  have d: "r div 64 < 32" "2 \<le> r div 64" using assms by auto
  have "(0xC0 + r div 64) mod 32 = r div 64" "(0x80 + r mod 64) mod 64 = r mod 64"
    using d by (simp_all add: mod_add_small)
  then show ?thesis
    using assms d
    by (simp add: EncodeRune_def scalar_def DecodeRune_def seq_len_def second_ok_def Let_def)
qed

lemma DecodeRune_Encode3:
  assumes "0x800 \<le> r" "r < 0x10000" "scalar r"
  shows "DecodeRune (EncodeRune r @ s) = (r, 3)"
proof (rule base64_digits [of r])
  fix a b c d
  assume dig: "r div 262144 = a" "r div 4096 mod 64 = b" "r div 64 mod 64 = c"
    "r mod 64 = d" "r div 4096 = a * 64 + b" "r div 64 = (a * 64 + b) * 64 + c"
    and r: "r = ((a * 64 + b) * 64 + c) * 64 + d" and lt: "b < 64" "c < 64" "d < 64"
  have a: "a = 0" using assms(2) r by simp
  have b16: "b < 16" using assms(2) r a by simp
  have e: "EncodeRune r = [char_of (0xE0 + b), char_of (0x80 + c), char_of (0x80 + d)]"
    using assms dig a by (simp add: EncodeRune_def)
  have bv: "bval (char_of (0xE0 + b)) = 0xE0 + b" "bval (char_of (0x80 + c)) = 0x80 + c"
    "bval (char_of (0x80 + d)) = 0x80 + d"
    using b16 lt by simp_all
  have lo: "b = 0 \<Longrightarrow> 32 \<le> c" using assms(1) r a lt by simp
  have hi: "b = 13 \<Longrightarrow> c \<le> 31" using assms(3) r a lt by (simp add: scalar_def)
  have sc: "second_ok (0xE0 + b) (0x80 + c)" "cont_ok (0x80 + d)"
    using lo hi lt b16 by (simp_all add: second_ok_def cont_ok_def)
  have l: "seq_len (0xE0 + b) = 3" using b16 by (simp add: seq_len_def)
  have m: "(0xE0 + b) mod 16 = b" "(0x80 + c) mod 64 = c" "(0x80 + d) mod 64 = d"
    using b16 lt by (simp_all add: mod_add_small)
  have v: "b * 4096 + c * 64 + d = r" using r a by simp
  show ?thesis
    unfolding e DecodeRune_def Let_def by (simp only: list.case append_Cons bv l sc m v) simp
qed

lemma DecodeRune_Encode4:
  assumes "0x10000 \<le> r" "scalar r"
  shows "DecodeRune (EncodeRune r @ s) = (r, 4)"
proof (rule base64_digits [of r])
  fix a b c d
  assume dig: "r div 262144 = a" "r div 4096 mod 64 = b" "r div 64 mod 64 = c"
    "r mod 64 = d" "r div 4096 = a * 64 + b" "r div 64 = (a * 64 + b) * 64 + c"
    and r: "r = ((a * 64 + b) * 64 + c) * 64 + d" and lt: "b < 64" "c < 64" "d < 64"
  have top: "r < 0x110000" using assms by (simp add: scalar_def)
  then have a: "a < 5" using r by simp
  have e: "EncodeRune r =
      [char_of (0xF0 + a), char_of (0x80 + b), char_of (0x80 + c), char_of (0x80 + d)]"
    using assms dig by (simp add: EncodeRune_def)
  have bv: "bval (char_of (0xF0 + a)) = 0xF0 + a" "bval (char_of (0x80 + b)) = 0x80 + b"
    "bval (char_of (0x80 + c)) = 0x80 + c" "bval (char_of (0x80 + d)) = 0x80 + d"
    using a lt by simp_all
  have lo: "a = 0 \<Longrightarrow> 16 \<le> b" using assms(1) r lt by simp
  have hi: "a = 4 \<Longrightarrow> b \<le> 15" using top r by simp
  have sc: "second_ok (0xF0 + a) (0x80 + b)" "cont_ok (0x80 + c)" "cont_ok (0x80 + d)"
    using lo hi lt by (simp_all add: second_ok_def cont_ok_def)
  have l: "seq_len (0xF0 + a) = 4" using a by (simp add: seq_len_def)
  have m: "(0xF0 + a) mod 8 = a" "(0x80 + b) mod 64 = b" "(0x80 + c) mod 64 = c"
    "(0x80 + d) mod 64 = d"
    using a lt by (simp_all add: mod_add_small)
  have v: "a * 262144 + b * 4096 + c * 64 + d = r" using r by simp
  show ?thesis
    unfolding e DecodeRune_def Let_def by (simp only: list.case append_Cons bv l sc m v) simp
qed

lemma length_EncodeRune: "scalar r \<Longrightarrow> length (EncodeRune r) =
    (if r < 0x80 then 1 else if r < 0x800 then 2 else if r < 0x10000 then 3 else 4)"
  by (simp add: EncodeRune_def)

lemma DecodeRune_EncodeRune [simp]:
  assumes "scalar r"
  shows "DecodeRune (EncodeRune r @ s) = (r, length (EncodeRune r))"
proof -
  consider "r < 0x80" | "0x80 \<le> r" "r < 0x800" | "0x800 \<le> r" "r < 0x10000" | "0x10000 \<le> r"
    by linarith
  then show ?thesis
    using assms
    by cases (simp_all add: DecodeRune_Encode2 DecodeRune_Encode3 DecodeRune_Encode4
        length_EncodeRune EncodeRune_ascii)
qed

lemma EncodeRune_nonempty [simp]: "EncodeRune r \<noteq> []"
  by (simp add: EncodeRune_def Let_def)

subsection \<open>Encoding what was decoded\<close>

lemma byte_offset:
  assumes "k \<le> bval c"
  obtains x where "c = char_of (k + x)" "bval c = k + x"
proof (rule that [of "bval c - k"])
  show "bval c = k + (bval c - k)" using assms by simp
  then show "c = char_of (k + (bval c - k))" by (metis char_of_char)
qed

lemma EncodeRune_Decode2:
  assumes "seq_len (bval c0) = 2" "second_ok (bval c0) (bval c1)"
  shows "EncodeRune ((bval c0 mod 32) * 64 + bval c1 mod 64) = [c0, c1]
    \<and> scalar ((bval c0 mod 32) * 64 + bval c1 mod 64)"
proof -
  have r0: "0xC2 \<le> bval c0" "bval c0 \<le> 0xDF"
    using assms(1) by (auto simp: seq_len_def split: if_splits)
  have r1: "0x80 \<le> bval c1" "bval c1 \<le> 0xBF"
    using assms(2) r0 by (auto simp: second_ok_def split: if_splits)
  obtain x where x: "c0 = char_of (0xC0 + x)" "bval c0 = 0xC0 + x"
    using r0 by (elim byte_offset [of "0xC0", rotated]) simp_all
  obtain y where y: "c1 = char_of (0x80 + y)" "bval c1 = 0x80 + y"
    using r1 by (elim byte_offset [of "0x80", rotated]) simp_all
  have lt: "2 \<le> x" "x < 32" "y < 64" using x y r0 r1 by simp_all
  have m: "bval c0 mod 32 = x" "bval c1 mod 64 = y"
    unfolding x(2) y(2) using lt by (simp_all add: mod_add_small)
  have "(x * 64 + y) div 64 = x" "(x * 64 + y) mod 64 = y" using lt by simp_all
  then show ?thesis
    unfolding m using lt by (simp add: EncodeRune_def scalar_def x(1) y(1))
qed

lemma EncodeRune_Decode3:
  assumes "seq_len (bval c0) = 3" "second_ok (bval c0) (bval c1)" "cont_ok (bval c2)"
  defines "r \<equiv> (bval c0 mod 16) * 4096 + (bval c1 mod 64) * 64 + bval c2 mod 64"
  shows "EncodeRune r = [c0, c1, c2] \<and> scalar r"
proof -
  have r0: "0xE0 \<le> bval c0" "bval c0 \<le> 0xEF"
    using assms(1) by (auto simp: seq_len_def split: if_splits)
  have r1: "0x80 \<le> bval c1" "bval c1 \<le> 0xBF"
    using assms(2) r0 by (auto simp: second_ok_def split: if_splits)
  have r2: "0x80 \<le> bval c2" "bval c2 \<le> 0xBF"
    using assms(3) by (auto simp: cont_ok_def)
  obtain x where x: "c0 = char_of (0xE0 + x)" "bval c0 = 0xE0 + x"
    using r0 by (elim byte_offset [of "0xE0", rotated]) simp_all
  obtain y where y: "c1 = char_of (0x80 + y)" "bval c1 = 0x80 + y"
    using r1 by (elim byte_offset [of "0x80", rotated]) simp_all
  obtain z where z: "c2 = char_of (0x80 + z)" "bval c2 = 0x80 + z"
    using r2 by (elim byte_offset [of "0x80", rotated]) simp_all
  have lt: "x < 16" "y < 64" "z < 64" using x y z r0 r1 r2 by simp_all
  have m: "bval c0 mod 16 = x" "bval c1 mod 64 = y" "bval c2 mod 64 = z"
    unfolding x(2) y(2) z(2) using lt by (simp_all add: mod_add_small)
  have r: "r = (x * 64 + y) * 64 + z" by (simp add: r_def m)
  have lo: "x = 0 \<Longrightarrow> 32 \<le> y" and hi: "x = 13 \<Longrightarrow> y \<le> 31"
    using assms(2) by (auto simp: second_ok_def x(2) y(2))
  have "r div 64 = x * 64 + y" "r mod 64 = z" unfolding r by (rule digit64 [OF lt(3)])+
  moreover have "(x * 64 + y) div 64 = x" "(x * 64 + y) mod 64 = y"
    by (rule digit64 [OF lt(2)])+
  moreover have "r div 4096 = r div 64 div 64" by (simp flip: div_mult2_eq)
  ultimately have d: "r div 4096 = x" "r div 64 mod 64 = y" "r mod 64 = z" by simp_all
  have "0x800 \<le> r" using lo r by (cases "x = 0") auto
  moreover have "r < 0x10000" using lt r by simp
  moreover have "scalar r"
  proof -
    consider "x < 13" | "x = 13" | "13 < x" by linarith
    then show ?thesis using hi lt r by cases (auto simp: scalar_def)
  qed
  ultimately show ?thesis
    using d by (simp add: EncodeRune_def x(1) y(1) z(1))
qed

lemma EncodeRune_Decode4:
  assumes "seq_len (bval c0) = 4" "second_ok (bval c0) (bval c1)" "cont_ok (bval c2)"
    "cont_ok (bval c3)"
  defines "r \<equiv> (bval c0 mod 8) * 262144 + (bval c1 mod 64) * 4096 + (bval c2 mod 64) * 64
    + bval c3 mod 64"
  shows "EncodeRune r = [c0, c1, c2, c3] \<and> scalar r"
proof -
  have r0: "0xF0 \<le> bval c0" "bval c0 \<le> 0xF4"
    using assms(1) by (auto simp: seq_len_def split: if_splits)
  have r1: "0x80 \<le> bval c1" "bval c1 \<le> 0xBF"
    using assms(2) r0 by (auto simp: second_ok_def split: if_splits)
  have r2: "0x80 \<le> bval c2" "bval c2 \<le> 0xBF" "0x80 \<le> bval c3" "bval c3 \<le> 0xBF"
    using assms(3,4) by (auto simp: cont_ok_def)
  obtain w where w: "c0 = char_of (0xF0 + w)" "bval c0 = 0xF0 + w"
    using r0 by (elim byte_offset [of "0xF0", rotated]) simp_all
  obtain x where x: "c1 = char_of (0x80 + x)" "bval c1 = 0x80 + x"
    using r1 by (elim byte_offset [of "0x80", rotated]) simp_all
  obtain y where y: "c2 = char_of (0x80 + y)" "bval c2 = 0x80 + y"
    using r2(1) by (elim byte_offset [of "0x80", rotated]) simp_all
  obtain z where z: "c3 = char_of (0x80 + z)" "bval c3 = 0x80 + z"
    using r2(3) by (elim byte_offset [of "0x80", rotated]) simp_all
  have lt: "w < 5" "x < 64" "y < 64" "z < 64" using w x y z r0 r1 r2 by simp_all
  have m: "bval c0 mod 8 = w" "bval c1 mod 64 = x" "bval c2 mod 64 = y" "bval c3 mod 64 = z"
    unfolding w(2) x(2) y(2) z(2) using lt by (simp_all add: mod_add_small)
  have r: "r = ((w * 64 + x) * 64 + y) * 64 + z" by (simp add: r_def m)
  have lo: "w = 0 \<Longrightarrow> 16 \<le> x" and hi: "w = 4 \<Longrightarrow> x \<le> 15"
    using assms(2) by (auto simp: second_ok_def w(2) x(2))
  have "r div 64 = (w * 64 + x) * 64 + y" "r mod 64 = z" unfolding r by (rule digit64 [OF lt(4)])+
  moreover have "((w * 64 + x) * 64 + y) div 64 = w * 64 + x"
    "((w * 64 + x) * 64 + y) mod 64 = y" by (rule digit64 [OF lt(3)])+
  moreover have "(w * 64 + x) div 64 = w" "(w * 64 + x) mod 64 = x"
    by (rule digit64 [OF lt(2)])+
  moreover have "r div 4096 = r div 64 div 64" "r div 262144 = r div 64 div 64 div 64"
    by (simp_all flip: div_mult2_eq)
  ultimately have d: "r div 262144 = w" "r div 4096 mod 64 = x" "r div 64 mod 64 = y"
    "r mod 64 = z" by simp_all
  have "0x10000 \<le> r" using lo r by (cases "w = 0") auto
  moreover have "r \<le> 0x10FFFF" using hi lt r by (cases "w = 4") auto
  ultimately show ?thesis
    using d by (simp add: EncodeRune_def scalar_def w(1) x(1) y(1) z(1))
qed

lemma seq_len_range: "seq_len b \<in> {0, 1, 2, 3, 4}"
  by (simp add: seq_len_def)

lemma EncodeRune_DecodeRune:
  assumes "s \<noteq> []" "DecodeRune s = (r, n)" "(r, n) \<noteq> (RuneError, 1)"
  shows "scalar r \<and> take n s = EncodeRune r"
proof -
  obtain c0 s1 where s: "s = c0 # s1" using assms(1) by (cases s) auto
  consider "seq_len (bval c0) = 0" | "seq_len (bval c0) = 1" | "seq_len (bval c0) = 2"
    | "seq_len (bval c0) = 3" | "seq_len (bval c0) = 4"
    using seq_len_range [of "bval c0"] by auto
  then show ?thesis
  proof cases
    case 1
    with assms s show ?thesis by (simp add: DecodeRune_def Let_def)
  next
    case 2
    then have b: "bval c0 < 0x80" by (auto simp: seq_len_def split: if_splits)
    then have "r = bval c0" "n = 1" using assms(2) s by simp_all
    with b s show ?thesis by (simp add: EncodeRune_ascii scalar_def)
  next
    case 3
    with assms s show ?thesis
      using EncodeRune_Decode2 [OF 3]
      by (auto simp: DecodeRune_def Let_def split: list.splits if_splits)
  next
    case 4
    with assms s show ?thesis
      using EncodeRune_Decode3 [OF 4]
      by (auto simp: DecodeRune_def Let_def split: list.splits if_splits)
  next
    case 5
    with assms s show ?thesis
      using EncodeRune_Decode4 [OF 5]
      by (auto simp: DecodeRune_def Let_def split: list.splits if_splits)
  qed
qed

subsection \<open>Valid strings are lists of scalar values\<close>

lemma utf8_valid_Nil [simp]: "utf8_valid []" and runes_Nil [simp]: "runes [] = []"
  by (simp_all add: utf8_valid.simps runes.simps)

lemma EncodeRune_not_error: "scalar r \<Longrightarrow> (r, length (EncodeRune r)) \<noteq> (RuneError, Suc 0)"
  by (auto simp: RuneError_def length_EncodeRune scalar_def)

lemma utf8_valid_EncodeRune [simp]:
  assumes "scalar r"
  shows "utf8_valid (EncodeRune r @ s) = utf8_valid s"
  by (subst utf8_valid.simps) (use assms EncodeRune_not_error [OF assms] in auto)

lemma runes_EncodeRune [simp]: "scalar r \<Longrightarrow> runes (EncodeRune r @ s) = r # runes s"
  by (subst runes.simps) simp

lemma utf8_valid_encode: "list_all scalar rs \<Longrightarrow> utf8_valid (encode_runes rs @ s) = utf8_valid s"
  by (induction rs) simp_all

lemma runes_encode: "list_all scalar rs \<Longrightarrow> runes (encode_runes rs @ s) = rs @ runes s"
  by (induction rs) simp_all

lemma utf8_valid_runes:
  "utf8_valid s \<Longrightarrow> list_all scalar (runes s) \<and> encode_runes (runes s) = s"
proof (induction s rule: utf8_valid.induct)
  case (1 s)
  show ?case
  proof (cases "s = []")
    case False
    obtain r n where d: "DecodeRune s = (r, n)" by force
    with "1.prems" False have ne: "(r, n) \<noteq> (RuneError, 1)" and v: "utf8_valid (drop n s)"
      by (auto simp: utf8_valid.simps [of s] split: if_splits)
    have "list_all scalar (runes (drop n s)) \<and> encode_runes (runes (drop n s)) = drop n s"
      using "1.IH" [OF False] d ne v by simp
    moreover have "scalar r" "take n s = EncodeRune r"
      using EncodeRune_DecodeRune [OF False d ne] by simp_all
    moreover have "runes s = r # runes (drop n s)"
      using False d by (simp add: runes.simps [of s])
    ultimately show ?thesis by (metis append_take_drop_id encode_runes_simps(2) list.pred_inject(2))
  qed simp
qed

lemma utf8_valid_iff: "utf8_valid s \<longleftrightarrow> (\<exists>rs. list_all scalar rs \<and> s = encode_runes rs)"
  by (metis append_Nil2 utf8_valid_Nil utf8_valid_encode utf8_valid_runes)

lemma utf8_valid_append: "utf8_valid s \<Longrightarrow> utf8_valid (s @ t) = utf8_valid t"
  by (metis utf8_valid_encode utf8_valid_iff)

lemma runes_append: "utf8_valid s \<Longrightarrow> runes (s @ t) = runes s @ runes t"
  by (metis runes_encode utf8_valid_runes)

lemma utf8_valid_ascii: "list_all (\<lambda>c. bval c < 0x80) s \<Longrightarrow> utf8_valid s"
proof (induction s)
  case (Cons c s)
  then have "DecodeRune (c # s) = (bval c, 1)" "utf8_valid s" by simp_all
  moreover have "bval c \<noteq> RuneError" unfolding RuneError_def using bval_less [of c] by linarith
  ultimately show ?case by (simp add: utf8_valid.simps [of "c # s"])
qed simp

text \<open>Every byte of a multi-byte sequence is at least 0x80.\<close>

lemma EncodeRune_high:
  assumes "scalar r" "0x80 \<le> r" "c \<in> set (EncodeRune r)"
  shows "0x80 \<le> bval c"
proof (rule base64_digits [of r])
  fix a b c' d
  assume dig: "r div 262144 = a" "r div 4096 mod 64 = b" "r div 64 mod 64 = c'"
    "r mod 64 = d" "r div 4096 = a * 64 + b" "r div 64 = (a * 64 + b) * 64 + c'"
    and r: "r = ((a * 64 + b) * 64 + c') * 64 + d" and lt: "b < 64" "c' < 64" "d < 64"
  have top: "r < 0x110000" using assms by (auto simp: scalar_def)
  have "a < 5" using top r by simp
  moreover have "r < 0x800 \<Longrightarrow> a * 64 + b = 0 \<and> c' < 32" using r lt by simp
  moreover have "r < 0x10000 \<Longrightarrow> a = 0 \<and> b < 16" using r lt by simp
  ultimately show ?thesis
    using assms lt
    by (auto simp: EncodeRune_def dig split: if_splits)
qed

end
