(* ===== verification/Go_Json.thy ===== *)
theory Go_Json
  imports Go_Utf8
begin

text \<open>
  The part of Go's \<open>encoding/json\<close> the sources rely on: the lexical grammar (white space, string,
  number and keyword literals, with string literals unquoted to bytes) and \<open>json.Decoder\<close> in its
  token mode, \<open>Token\<close> and \<open>More\<close> with \<open>UseNumber\<close>, as the state machine the library implements:
  a buffer, a token state and a stack of the enclosing containers' states.
\<close>

datatype json_err = JsonEOF | JsonSyntax

subsection \<open>Lexical grammar\<close>

definition is_ws :: "char \<Rightarrow> bool" where
  "is_ws c = (c = CHR '' '' \<or> c = CHR 0x09 \<or> c = CHR 0x0A \<or> c = CHR 0x0D)"

abbreviation skip_ws :: "bytes \<Rightarrow> bytes" where
  "skip_ws \<equiv> dropWhile is_ws"

definition hex_val :: "char \<Rightarrow> nat option" where
  "hex_val c = (if 48 \<le> bval c \<and> bval c \<le> 57 then Some (bval c - 48)
     else if 97 \<le> bval c \<and> bval c \<le> 102 then Some (bval c - 97 + 10)
     else if 65 \<le> bval c \<and> bval c \<le> 70 then Some (bval c - 65 + 10) else None)"

text \<open>Four hex digits, most significant first.\<close>

definition hex4 :: "bytes \<Rightarrow> nat option" where
  "hex4 s = (case s of a # b # c # d # _ \<Rightarrow>
     (case (hex_val a, hex_val b, hex_val c, hex_val d) of
        (Some w, Some x, Some y, Some z) \<Rightarrow> Some (((w * 16 + x) * 16 + y) * 16 + z)
      | _ \<Rightarrow> None)
   | _ \<Rightarrow> None)"

definition surrogate :: "nat \<Rightarrow> bool" where
  "surrogate r = (0xD800 \<le> r \<and> r \<le> 0xDFFF)"

text \<open>\<open>utf16.DecodeRune\<close>: the scalar a surrogate pair stands for, or U+FFFD.\<close>

definition utf16_decode :: "nat \<Rightarrow> nat \<Rightarrow> nat" where
  "utf16_decode hi lo = (if 0xD800 \<le> hi \<and> hi < 0xDC00 \<and> 0xDC00 \<le> lo \<and> lo < 0xE000
     then (hi - 0xD800) * 1024 + (lo - 0xDC00) + 0x10000 else RuneError)"

text \<open>What a \<open>\u\<close> escape whose four digits begin \<open>s\<close> denotes, and how many bytes of \<open>s\<close> it takes
  (ten for a surrogate pair).\<close>

definition unquote_u :: "bytes \<Rightarrow> (nat \<times> nat) option" where
  "unquote_u s = (case hex4 s of None \<Rightarrow> None
   | Some r \<Rightarrow>
      if surrogate r then
        (let p = drop 4 s in
         if take 2 p = [CHR 0x5C, CHR ''u''] then
           (case hex4 (drop 2 p) of
              Some r1 \<Rightarrow> if utf16_decode r r1 \<noteq> RuneError then Some (utf16_decode r r1, 10)
                else Some (RuneError, 4)
            | None \<Rightarrow> Some (RuneError, 4))
         else Some (RuneError, 4))
      else Some (r, 4))"

definition simple_escape :: "char \<Rightarrow> char option" where
  "simple_escape c =
    (if c = CHR 0x22 then Some (CHR 0x22) else if c = CHR 0x5C then Some (CHR 0x5C)
     else if c = CHR ''/'' then Some (CHR ''/'') else if c = CHR ''b'' then Some (CHR 0x08)
     else if c = CHR ''f'' then Some (CHR 0x0C) else if c = CHR ''n'' then Some (CHR 0x0A)
     else if c = CHR ''r'' then Some (CHR 0x0D) else if c = CHR ''t'' then Some (CHR 0x09)
     else None)"

text \<open>
  The body of a string literal, after its opening quote: the bytes it denotes and the rest of the
  input after its closing quote. A control byte, an unknown escape and the end of the input are
  errors.
\<close>

function lex_string :: "bytes \<Rightarrow> (bytes \<times> bytes) option" where
  "lex_string s = (case s of [] \<Rightarrow> None
   | c # t \<Rightarrow>
      if c = CHR 0x22 then Some ([], t)
      else if c = CHR 0x5C then
        (case t of [] \<Rightarrow> None
         | e # u \<Rightarrow>
            if e = CHR ''u'' then
              (case unquote_u u of None \<Rightarrow> None
               | Some (r, n) \<Rightarrow>
                  map_option (\<lambda>(b, rest). (EncodeRune r @ b, rest)) (lex_string (drop n u)))
            else (case simple_escape e of None \<Rightarrow> None
               | Some x \<Rightarrow> map_option (\<lambda>(b, rest). (x # b, rest)) (lex_string u)))
      else if bval c < 0x20 then None
      else map_option (\<lambda>(b, rest). (EncodeRune (fst (DecodeRune s)) @ b, rest))
             (lex_string (drop (snd (DecodeRune s)) s)))"
  by pat_completeness auto
termination
proof (relation "measure length", goal_cases)
  case (4 s c t)
  then show ?case using DecodeRune_width(1) [of s] by simp
qed auto

declare lex_string.simps [simp del]

text \<open>A number literal: the longest prefix of the JSON number grammar.\<close>

definition lex_exp :: "bytes \<Rightarrow> bytes \<Rightarrow> (bytes \<times> bytes) option" where
  "lex_exp acc s = (case s of [] \<Rightarrow> Some (acc, [])
   | c # t \<Rightarrow>
      if c = CHR ''e'' \<or> c = CHR ''E'' then
        (let (sg, u) = (case t of x # t' \<Rightarrow>
              if x = CHR ''+'' \<or> x = CHR ''-'' then ([x], t') else ([], t) | [] \<Rightarrow> ([], []));
             ds = takeWhile is_digit u
         in if ds = [] then None else Some (acc @ c # sg @ ds, dropWhile is_digit u))
      else Some (acc, s))"

definition lex_frac :: "bytes \<Rightarrow> bytes \<Rightarrow> (bytes \<times> bytes) option" where
  "lex_frac acc s = (case s of [] \<Rightarrow> Some (acc, [])
   | c # t \<Rightarrow>
      if c = CHR ''.'' then
        (if takeWhile is_digit t = [] then None
         else lex_exp (acc @ c # takeWhile is_digit t) (dropWhile is_digit t))
      else lex_exp acc s)"

definition lex_number :: "bytes \<Rightarrow> (bytes \<times> bytes) option" where
  "lex_number s =
    (let (sg, t) = (case s of c # t' \<Rightarrow> if c = CHR ''-'' then ([c], t') else ([], s) | [] \<Rightarrow> ([], []))
     in case t of [] \<Rightarrow> None
      | c # u \<Rightarrow>
         if c = CHR ''0'' then lex_frac (sg @ [c]) u
         else if is_digit c then lex_frac (sg @ takeWhile is_digit t) (dropWhile is_digit t)
         else None)"

subsection \<open>Tokens and the decoder\<close>

datatype token = TDelim char | TString bytes | TNumber bytes | TBool bool | TNull

definition lex_keyword :: "bytes \<Rightarrow> token \<Rightarrow> bytes \<Rightarrow> (token \<times> bytes) option" where
  "lex_keyword k t s = (if has_prefix s k then Some (t, drop (length k) s) else None)"

text \<open>A literal value at the head of the (white-space free) buffer.\<close>

definition lex_literal :: "bytes \<Rightarrow> (token \<times> bytes) option" where
  "lex_literal s = (case s of [] \<Rightarrow> None
   | c # t \<Rightarrow>
      if c = CHR 0x22 then map_option (\<lambda>(b, r). (TString b, r)) (lex_string t)
      else if c = CHR ''t'' then lex_keyword ''true'' (TBool True) s
      else if c = CHR ''f'' then lex_keyword ''false'' (TBool False) s
      else if c = CHR ''n'' then lex_keyword ''null'' TNull s
      else map_option (\<lambda>(b, r). (TNumber b, r)) (lex_number s))"

datatype tok_state = TokTop | TokArrayStart | TokArrayValue | TokArrayComma
  | TokObjectStart | TokObjectKey | TokObjectColon | TokObjectValue | TokObjectComma

record decoder =
  d_buf :: bytes
  d_state :: tok_state
  d_stack :: "tok_state list"

definition NewDecoder :: "bytes \<Rightarrow> decoder" where
  "NewDecoder s = \<lparr>d_buf = s, d_state = TokTop, d_stack = []\<rparr>"

fun value_allowed :: "tok_state \<Rightarrow> bool" where
  "value_allowed TokTop = True"
| "value_allowed TokArrayStart = True"
| "value_allowed TokArrayValue = True"
| "value_allowed TokObjectValue = True"
| "value_allowed _ = False"

fun value_end :: "tok_state \<Rightarrow> tok_state" where
  "value_end TokArrayStart = TokArrayComma"
| "value_end TokArrayValue = TokArrayComma"
| "value_end TokObjectValue = TokObjectComma"
| "value_end st = st"

text \<open>\<open>Decoder.More\<close>: the next significant byte exists and closes nothing.\<close>

definition dec_More :: "decoder \<Rightarrow> bool" where
  "dec_More d = (case skip_ws (d_buf d) of [] \<Rightarrow> False
     | c # _ \<Rightarrow> c \<noteq> CHR 0x5D \<and> c \<noteq> CHR 0x7D)"

definition dec_open :: "char \<Rightarrow> tok_state \<Rightarrow> bytes \<Rightarrow> decoder \<Rightarrow> json_err + token \<times> decoder" where
  "dec_open c st t d = (if value_allowed (d_state d)
     then Inr (TDelim c, \<lparr>d_buf = t, d_state = st, d_stack = d_state d # d_stack d\<rparr>)
     else Inl JsonSyntax)"

definition dec_close :: "char \<Rightarrow> tok_state \<Rightarrow> tok_state \<Rightarrow> bytes \<Rightarrow> decoder \<Rightarrow> json_err + token \<times> decoder" where
  "dec_close c s1 s2 t d = (if d_state d = s1 \<or> d_state d = s2
     then (case d_stack d of [] \<Rightarrow> Inl JsonSyntax
       | p # ps \<Rightarrow> Inr (TDelim c, \<lparr>d_buf = t, d_state = value_end p, d_stack = ps\<rparr>))
     else Inl JsonSyntax)"

text \<open>\<open>Decoder.Token\<close>: a colon or comma that the state expects is consumed on the way to a token.\<close>

function dec_Token :: "decoder \<Rightarrow> json_err + token \<times> decoder" where
  "dec_Token d = (case skip_ws (d_buf d) of [] \<Rightarrow> Inl JsonEOF
   | c # t \<Rightarrow>
      if c = CHR 0x5B then dec_open c TokArrayStart t d
      else if c = CHR 0x5D then dec_close c TokArrayStart TokArrayComma t d
      else if c = CHR 0x7B then dec_open c TokObjectStart t d
      else if c = CHR 0x7D then dec_close c TokObjectStart TokObjectComma t d
      else if c = CHR '':'' then
        (if d_state d = TokObjectColon
         then dec_Token (d\<lparr>d_buf := t, d_state := TokObjectValue\<rparr>) else Inl JsonSyntax)
      else if c = CHR '','' then
        (if d_state d = TokArrayComma
         then dec_Token (d\<lparr>d_buf := t, d_state := TokArrayValue\<rparr>)
         else if d_state d = TokObjectComma
         then dec_Token (d\<lparr>d_buf := t, d_state := TokObjectKey\<rparr>) else Inl JsonSyntax)
      else if c = CHR 0x22 \<and> (d_state d = TokObjectStart \<or> d_state d = TokObjectKey) then
        (case lex_string t of None \<Rightarrow> Inl JsonSyntax
         | Some (k, u) \<Rightarrow> Inr (TString k, d\<lparr>d_buf := u, d_state := TokObjectColon\<rparr>))
      else if value_allowed (d_state d) then
        (case lex_literal (c # t) of None \<Rightarrow> Inl JsonSyntax
         | Some (tok, u) \<Rightarrow> Inr (tok, d\<lparr>d_buf := u, d_state := value_end (d_state d)\<rparr>))
      else Inl JsonSyntax)"
  by pat_completeness auto
termination
proof (relation "measure (\<lambda>d. length (d_buf d))", goal_cases)
  case (2 d c t)
  then have "length (c # t) \<le> length (d_buf d)"
    using length_dropWhile_le [of is_ws "d_buf d"] by simp
  then show ?case by simp
next
  case (3 d c t)
  then have "length (c # t) \<le> length (d_buf d)"
    using length_dropWhile_le [of is_ws "d_buf d"] by simp
  then show ?case by simp
next
  case (4 d c t)
  then have "length (c # t) \<le> length (d_buf d)"
    using length_dropWhile_le [of is_ws "d_buf d"] by simp
  then show ?case by simp
qed auto

declare dec_Token.simps [simp del]

end
