(* ===== verification/Canonical_Json.thy ===== *)
theory Canonical_Json
  imports Go_Json
begin

text \<open>
  \<open>internal/canonicaljson/canonical_json.go\<close>: the canonical form every signed or hashed JSON text
  of the system is put into. \<open>CanonicalizeV1\<close> checks the input (UTF-8, paired surrogate
  escapes), reads one JSON document through the token decoder with duplicate keys, NUL strings and
  non-canonical numbers refused, and prints it back with sorted keys and no white space.

  A parsed document is a \<open>json\<close> value; an object is the list of its members in source order (a
  Go map, whose keys the parser keeps distinct). The parser takes fuel, one unit per nesting step or
  loop round; \<open>parse_enough_fuel\<close> shows that twice the input's length plus one, which
  \<open>CanonicalizeV1\<close> gives it, always suffices, so the error \<open>OutOfFuel\<close> is never returned.

  Main results: the output is accepted again and is its own canonical form; it denotes the same
  document as the input up to the order of members; two accepted inputs have the same canonical
  bytes exactly when they denote the same document up to that order.
\<close>

datatype json = JNull | JBool bool | JNum bytes | JStr bytes
  | JArr "json list" | JObj "(bytes \<times> json) list"

datatype canon_err = NotUtf8 | InvalidEscape | UnpairedHigh | UnpairedLow
  | DecodeFailed json_err | KeyNotString | DuplicateKey bytes | ClosedBy token
  | UnexpectedDelim char | NulCodePoint | NonCanonicalNumber bytes | ExtraToken token
  | OutOfFuel

subsection \<open>Numbers\<close>

definition isJSONDigit :: "char \<Rightarrow> bool" where
  "isJSONDigit b = (48 \<le> bval b \<and> bval b \<le> 57)"

text \<open>The part of a number after its sign: integer digits, then an optional fraction.\<close>

definition number_body :: "bool \<Rightarrow> bytes \<Rightarrow> bool" where
  "number_body negative t = (case t of [] \<Rightarrow> False
    | c # u \<Rightarrow>
       if c = CHR ''0'' \<and> u \<noteq> [] \<and> isJSONDigit (hd u) then False
       else if c \<noteq> CHR ''0'' \<and> \<not> (49 \<le> bval c \<and> bval c \<le> 57) then False
       else let intPart = (if c = CHR ''0'' then [c] else takeWhile isJSONDigit t);
                r = drop (length intPart) t in
         (case r of
            [] \<Rightarrow> \<not> (negative \<and> intPart = ''0'')
          | d # f \<Rightarrow>
             if d = CHR ''.'' then
               (let fracPart = takeWhile isJSONDigit f in
                fracPart \<noteq> [] \<and> last fracPart \<noteq> CHR ''0'' \<and> dropWhile isJSONDigit f = [])
             else False))"

definition canonicalJSONNumber :: "bytes \<Rightarrow> bool" where
  "canonicalJSONNumber s =
    (if s = [] \<or> list_ex (\<lambda>c. c = CHR ''e'' \<or> c = CHR ''E'' \<or> c = CHR ''+'') s then False
     else if hd s = CHR ''-'' then number_body True (tl s)
     else number_body False s)"

subsection \<open>Unicode escapes\<close>

definition jsonHexValue :: "char \<Rightarrow> nat option" where
  "jsonHexValue b =
    (if 48 \<le> bval b \<and> bval b \<le> 57 then Some (bval b - 48)
     else if 97 \<le> bval b \<and> bval b \<le> 102 then Some (bval b - 97 + 10)
     else if 65 \<le> bval b \<and> bval b \<le> 70 then Some (bval b - 65 + 10)
     else None)"

text \<open>\<open>parseJSONU16(input, offset)\<close>, given the suffix \<open>input[offset:]\<close>; the loop of four nibbles.\<close>

fun parse_nibbles :: "nat \<Rightarrow> nat \<Rightarrow> bytes \<Rightarrow> nat option" where
  "parse_nibbles 0 value s = Some value"
| "parse_nibbles (Suc n) value [] = None"
| "parse_nibbles (Suc n) value (c # s) = (case jsonHexValue c of None \<Rightarrow> None
     | Some nibble \<Rightarrow> parse_nibbles n (value * 16 + nibble) s)"

definition parseJSONU16 :: "bytes \<Rightarrow> nat option" where
  "parseJSONU16 s = (if length s < 4 then None else parse_nibbles 4 0 s)"

text \<open>
  The scan over the input. The state is the loop's two flags; \<open>c # s\<close> is \<open>input[i:]\<close>, so that
  \<open>input[i+5]\<close> is \<open>s ! 4\<close>, and \<open>i += 4\<close> followed by the loop's own increment drops 4 bytes of \<open>s\<close>.
\<close>

function validate_escapes :: "bool \<Rightarrow> bool \<Rightarrow> bytes \<Rightarrow> canon_err option" where
  "validate_escapes inString escaped input = (case input of [] \<Rightarrow> None
   | c # s \<Rightarrow>
      if \<not> inString then validate_escapes (c = CHR 0x22) escaped s
      else if escaped then
        (if c \<noteq> CHR ''u'' then validate_escapes True False s
         else case parseJSONU16 s of None \<Rightarrow> Some InvalidEscape
         | Some cp \<Rightarrow>
            if 0xD800 \<le> cp \<and> cp \<le> 0xDBFF then
              (if length input \<le> 10 \<or> s ! 4 \<noteq> CHR 0x5C \<or> s ! 5 \<noteq> CHR ''u''
               then Some UnpairedHigh
               else case parseJSONU16 (drop 6 s) of None \<Rightarrow> Some UnpairedHigh
               | Some low \<Rightarrow>
                  if low < 0xDC00 \<or> 0xDFFF < low then Some UnpairedHigh
                  else validate_escapes True False (drop 10 s))
            else if 0xDC00 \<le> cp \<and> cp \<le> 0xDFFF then Some UnpairedLow
            else validate_escapes True False (drop 4 s))
      else if c = CHR 0x5C then validate_escapes True True s
      else validate_escapes (c \<noteq> CHR 0x22) False s)"
  by pat_completeness auto
termination
  by (relation "measure (\<lambda>(a, b, s). length s)") auto

declare validate_escapes.simps [simp del]

definition validateJSONUnicodeEscapes :: "bytes \<Rightarrow> canon_err option" where
  "validateJSONUnicodeEscapes input = validate_escapes False False input"

subsection \<open>Reading a document\<close>

text \<open>
  \<open>parseCanonicalJSONValue\<close>. The object loop carries the members read so far, the array loop the
  elements.
\<close>

fun parse_value :: "nat \<Rightarrow> decoder \<Rightarrow> canon_err + json \<times> decoder"
  and parse_members :: "nat \<Rightarrow> (bytes \<times> json) list \<Rightarrow> decoder \<Rightarrow> canon_err + json \<times> decoder"
  and parse_elements :: "nat \<Rightarrow> json list \<Rightarrow> decoder \<Rightarrow> canon_err + json \<times> decoder"
where
  "parse_value 0 d = Inl OutOfFuel"
| "parse_value (Suc n) d = (case dec_Token d of Inl e \<Rightarrow> Inl (DecodeFailed e)
   | Inr (tok, d1) \<Rightarrow> (case tok of
       TDelim c \<Rightarrow> if c = CHR 0x7B then parse_members n [] d1
         else if c = CHR 0x5B then parse_elements n [] d1
         else Inl (UnexpectedDelim c)
     | TString s \<Rightarrow> if CHR 0x00 \<in> set s then Inl NulCodePoint else Inr (JStr s, d1)
     | TBool b \<Rightarrow> Inr (JBool b, d1)
     | TNull \<Rightarrow> Inr (JNull, d1)
     | TNumber s \<Rightarrow> if canonicalJSONNumber s then Inr (JNum s, d1)
         else Inl (NonCanonicalNumber s)))"
| "parse_members 0 obj d = Inl OutOfFuel"
| "parse_members (Suc n) obj d =
    (if dec_More d then
       (case dec_Token d of Inl e \<Rightarrow> Inl (DecodeFailed e)
        | Inr (keyTok, d1) \<Rightarrow> (case keyTok of
            TString key \<Rightarrow>
              if key \<in> set (map fst obj) then Inl (DuplicateKey key)
              else (case parse_value n d1 of Inl e \<Rightarrow> Inl e
                | Inr (v, d2) \<Rightarrow> parse_members n (obj @ [(key, v)]) d2)
          | _ \<Rightarrow> Inl KeyNotString))
     else (case dec_Token d of Inl e \<Rightarrow> Inl (DecodeFailed e)
        | Inr (endTok, d1) \<Rightarrow> if endTok = TDelim (CHR 0x7D) then Inr (JObj obj, d1)
            else Inl (ClosedBy endTok)))"
| "parse_elements 0 arr d = Inl OutOfFuel"
| "parse_elements (Suc n) arr d =
    (if dec_More d then
       (case parse_value n d of Inl e \<Rightarrow> Inl e
        | Inr (v, d1) \<Rightarrow> parse_elements n (arr @ [v]) d1)
     else (case dec_Token d of Inl e \<Rightarrow> Inl (DecodeFailed e)
        | Inr (endTok, d1) \<Rightarrow> if endTok = TDelim (CHR 0x5D) then Inr (JArr arr, d1)
            else Inl (ClosedBy endTok)))"

subsection \<open>Printing a document\<close>

definition emit_rune :: "nat \<Rightarrow> bytes" where
  "emit_rune r =
    (if r = 0x22 then [CHR 0x5C, CHR 0x22] else if r = 0x5C then [CHR 0x5C, CHR 0x5C]
     else if r = 0x08 then [CHR 0x5C, CHR ''b''] else if r = 0x0C then [CHR 0x5C, CHR ''f'']
     else if r = 0x0A then [CHR 0x5C, CHR ''n''] else if r = 0x0D then [CHR 0x5C, CHR ''r'']
     else if r = 0x09 then [CHR 0x5C, CHR ''t'']
     else if r < 0x20 then [CHR 0x5C, CHR ''u'', CHR ''0'', CHR ''0'',
       hex_digit (r div 16), hex_digit (r mod 16)]
     else EncodeRune r)"

definition emitCanonicalJSONString :: "bytes \<Rightarrow> bytes" where
  "emitCanonicalJSONString s = CHR 0x22 # concat (map emit_rune (runes s)) @ [CHR 0x22]"

fun join_comma :: "bytes list \<Rightarrow> bytes" where
  "join_comma [] = []"
| "join_comma [x] = x"
| "join_comma (x # y # zs) = x @ CHR '','' # join_comma (y # zs)"

function emitCanonicalJSONValue :: "json \<Rightarrow> bytes" where
  "emitCanonicalJSONValue (JObj ms) = CHR 0x7B # join_comma (map (\<lambda>(k, v).
      emitCanonicalJSONString k @ CHR '':'' # emitCanonicalJSONValue v) (sort_key fst ms))
      @ [CHR 0x7D]"
| "emitCanonicalJSONValue (JArr vs) =
     CHR 0x5B # join_comma (map emitCanonicalJSONValue vs) @ [CHR 0x5D]"
| "emitCanonicalJSONValue (JStr s) = emitCanonicalJSONString s"
| "emitCanonicalJSONValue (JNum s) = s"
| "emitCanonicalJSONValue (JBool b) = (if b then ''true'' else ''false'')"
| "emitCanonicalJSONValue JNull = ''null''"
  by pat_completeness auto

lemma size_member: "(k, v) \<in> set ms \<Longrightarrow> size v < Suc (size_list (size_prod (\<lambda>x. 0) size) ms)"
  by (induction ms) (auto simp: less_Suc_eq_le trans_le_add2)

lemma size_element: "v \<in> set vs \<Longrightarrow> size v < Suc (size_list size vs)"
  by (induction vs) auto

termination emitCanonicalJSONValue
  by (relation "measure size") (auto dest: size_member size_element)

subsection \<open>The entry points\<close>

definition parse_document :: "bytes \<Rightarrow> canon_err + json" where
  "parse_document input =
    (case parse_value (2 * length input + 1) (NewDecoder input) of Inl e \<Rightarrow> Inl e
     | Inr (v, d) \<Rightarrow> (case dec_Token d of
         Inl JsonEOF \<Rightarrow> Inr v
       | Inl e \<Rightarrow> Inl (DecodeFailed e)
       | Inr (tok, _) \<Rightarrow> Inl (ExtraToken tok)))"

definition CanonicalizeV1 :: "bytes \<Rightarrow> canon_err + bytes" where
  "CanonicalizeV1 input =
    (if \<not> utf8_valid input then Inl NotUtf8
     else case validateJSONUnicodeEscapes input of Some e \<Rightarrow> Inl e
     | None \<Rightarrow> (case parse_document input of Inl e \<Rightarrow> Inl e
       | Inr v \<Rightarrow> Inr (emitCanonicalJSONValue v)))"

definition CanonicalizeV1SHA256 :: "(bytes \<Rightarrow> bytes) \<Rightarrow> bytes \<Rightarrow> canon_err + bytes" where
  "CanonicalizeV1SHA256 sha256 input = (case CanonicalizeV1 input of Inl e \<Rightarrow> Inl e
     | Inr canonical \<Rightarrow> Inr (''sha256:'' @ hex_encode (sha256 canonical)))"

subsection \<open>Lexing printed strings\<close>

lemma EncodeRune_special [simp]:
  "EncodeRune 0x22 = [CHR 0x22]" "EncodeRune 0x5C = [CHR 0x5C]" "EncodeRune 0x08 = [CHR 0x08]"
  "EncodeRune 0x0C = [CHR 0x0C]" "EncodeRune 0x0A = [CHR 0x0A]" "EncodeRune 0x0D = [CHR 0x0D]"
  "EncodeRune 0x09 = [CHR 0x09]"
  by (simp_all add: EncodeRune_def scalar_def char_of_eq_iff)

lemma hex_val_hex_digit [simp]: "d < 16 \<Longrightarrow> hex_val (hex_digit d) = Some d"
  by (simp add: hex_val_def bval_hex_digit)

lemma hex_val_zero: "hex_val (CHR ''0'') = Some 0"
  by (simp add: hex_val_def)

lemma emit_rune_cases:
  obtains (escape) x c where "emit_rune r = [CHR 0x5C, x]" "x \<noteq> CHR ''u''"
      "simple_escape x = Some c" "EncodeRune r = [c]"
  | (control) "r < 0x20" "emit_rune r = [CHR 0x5C, CHR ''u'', CHR ''0'', CHR ''0'',
      hex_digit (r div 16), hex_digit (r mod 16)]"
  | (plain) "0x20 \<le> r" "r \<noteq> 0x22" "r \<noteq> 0x5C" "emit_rune r = EncodeRune r"
proof -
  consider "r = 0x22" | "r = 0x5C" | "r = 0x08" | "r = 0x0C" | "r = 0x0A" | "r = 0x0D" | "r = 0x09"
    | "r < 0x20" "r \<notin> {0x08, 0x0C, 0x0A, 0x0D, 0x09}" | "0x20 \<le> r" "r \<noteq> 0x22" "r \<noteq> 0x5C"
    by fastforce
  then show thesis
  proof cases
    case 1
    then show thesis
      by (intro escape [of "CHR 0x22" "CHR 0x22"]) (simp_all add: emit_rune_def simple_escape_def)
  next
    case 2
    then show thesis
      by (intro escape [of "CHR 0x5C" "CHR 0x5C"]) (simp_all add: emit_rune_def simple_escape_def)
  next
    case 3
    then show thesis
      by (intro escape [of "CHR ''b''" "CHR 0x08"]) (simp_all add: emit_rune_def simple_escape_def)
  next
    case 4
    then show thesis
      by (intro escape [of "CHR ''f''" "CHR 0x0C"]) (simp_all add: emit_rune_def simple_escape_def)
  next
    case 5
    then show thesis
      by (intro escape [of "CHR ''n''" "CHR 0x0A"]) (simp_all add: emit_rune_def simple_escape_def)
  next
    case 6
    then show thesis
      by (intro escape [of "CHR ''r''" "CHR 0x0D"]) (simp_all add: emit_rune_def simple_escape_def)
  next
    case 7
    then show thesis
      by (intro escape [of "CHR ''t''" "CHR 0x09"]) (simp_all add: emit_rune_def simple_escape_def)
  next
    case 8
    then show thesis by (intro control) (simp_all add: emit_rune_def)
  next
    case 9
    then show thesis by (intro plain) (simp_all add: emit_rune_def)
  qed
qed

lemma EncodeRune_head:
  assumes "scalar r"
  obtains c t where "EncodeRune r = c # t" "r < 0x80 \<Longrightarrow> bval c = r" "0x80 \<le> r \<Longrightarrow> 0x80 \<le> bval c"
proof -
  obtain c t where e: "EncodeRune r = c # t" by (cases "EncodeRune r") auto
  show thesis
  proof (rule that [OF e])
    show "r < 0x80 \<Longrightarrow> bval c = r" using e by (auto simp: EncodeRune_ascii)
    show "0x80 \<le> r \<Longrightarrow> 0x80 \<le> bval c" using EncodeRune_high [OF assms, of c] e by simp
  qed
qed

lemma lex_string_rune:
  assumes "scalar r"
  shows "lex_string (emit_rune r @ s) = map_option (\<lambda>(b, rest). (EncodeRune r @ b, rest)) (lex_string s)"
proof (cases rule: emit_rune_cases [of r])
  case (escape x c)
  then show ?thesis by (subst lex_string.simps) simp
next
  case control
  have "hex4 (CHR ''0'' # CHR ''0'' # hex_digit (r div 16) # hex_digit (r mod 16) # s) = Some r"
    using control(1) by (simp add: hex4_def hex_val_zero)
  then have "unquote_u (CHR ''0'' # CHR ''0'' # hex_digit (r div 16) # hex_digit (r mod 16) # s) = Some (r, 4)"
    using control(1) by (simp add: unquote_u_def surrogate_def)
  then show ?thesis unfolding control(2) by (subst lex_string.simps) simp
next
  case plain
  obtain c t where e: "EncodeRune r = c # t" "r < 0x80 \<Longrightarrow> bval c = r" "0x80 \<le> r \<Longrightarrow> 0x80 \<le> bval c"
    using EncodeRune_head [OF assms] by blast
  have b: "0x20 \<le> bval c" "bval c \<noteq> 0x22" "bval c \<noteq> 0x5C"
    using plain e(2,3) by (cases "r < 0x80"; auto)+
  then have c: "c \<noteq> CHR 0x22" "c \<noteq> CHR 0x5C" by auto
  have d: "DecodeRune (c # t @ s) = (r, length (c # t))"
    using DecodeRune_EncodeRune [OF assms, of s] e(1) by simp
  show ?thesis
    unfolding plain(4) e(1) append_Cons
    by (subst lex_string.simps) (use b c d e(1) in simp)
qed

lemma lex_string_runes:
  "list_all scalar rs \<Longrightarrow>
    lex_string (concat (map emit_rune rs) @ CHR 0x22 # rest) = Some (encode_runes rs, rest)"
proof (induction rs)
  case Nil
  show ?case by (subst lex_string.simps) simp
next
  case (Cons r rs)
  then show ?case by (simp add: lex_string_rune)
qed

lemma lex_emit_string:
  assumes "utf8_valid s"
  shows "lex_string (concat (map emit_rune (runes s)) @ CHR 0x22 # rest) = Some (s, rest)"
  using lex_string_runes [of "runes s" rest] utf8_valid_runes [OF assms] by simp

subsection \<open>Printed text passes the input checks\<close>

lemma utf8_valid_emit_rune:
  assumes "scalar r"
  shows "utf8_valid (emit_rune r @ s) = utf8_valid s"
proof (cases rule: emit_rune_cases [of r])
  case (escape x c)
  have "bval x < 0x80"
    using escape(3) by (auto simp: simple_escape_def split: if_splits)
  then have "utf8_valid (emit_rune r)" unfolding escape(1) by (intro utf8_valid_ascii) simp
  then show ?thesis by (rule utf8_valid_append)
next
  case control
  have "r div 16 < 16" "r mod 16 < 16" using control(1) by simp_all
  then have "utf8_valid (emit_rune r)"
    unfolding control(2) by (intro utf8_valid_ascii) (auto simp: bval_hex_digit)
  then show ?thesis by (rule utf8_valid_append)
next
  case plain
  with assms show ?thesis by simp
qed

lemma utf8_valid_emit_string:
  assumes "utf8_valid k"
  shows "utf8_valid (emitCanonicalJSONString k)"
proof -
  have q: "utf8_valid [CHR 0x22]" by (rule utf8_valid_ascii) simp
  have "list_all scalar rs \<Longrightarrow> utf8_valid (concat (map emit_rune rs) @ s) = utf8_valid s" for rs s
    by (induction rs) (simp_all add: utf8_valid_emit_rune)
  then have "utf8_valid (concat (map emit_rune (runes k)) @ [CHR 0x22])"
    using utf8_valid_runes [OF assms] q by simp
  with q show ?thesis
    using utf8_valid_append [OF q] by (simp add: emitCanonicalJSONString_def)
qed

lemma jsonHexValue_hex_digit [simp]: "d < 16 \<Longrightarrow> jsonHexValue (hex_digit d) = Some d"
  by (simp add: jsonHexValue_def bval_hex_digit)

lemma jsonHexValue_zero: "jsonHexValue (CHR ''0'') = Some 0"
  by (simp add: jsonHexValue_def)

lemma parseJSONU16_four: "parseJSONU16 (a # b # c # d # s) =
    (case (jsonHexValue a, jsonHexValue b, jsonHexValue c, jsonHexValue d) of
       (Some w, Some x, Some y, Some z) \<Rightarrow> Some (((w * 16 + x) * 16 + y) * 16 + z)
     | _ \<Rightarrow> None)"
proof -
  have four: "parse_nibbles 4 = parse_nibbles (Suc (Suc (Suc (Suc 0))))"
    by (simp add: eval_nat_numeral)
  show ?thesis
    unfolding parseJSONU16_def four by (simp split: option.split)
qed

lemma validate_plain:
  assumes "\<forall>c\<in>set s. c \<noteq> CHR 0x22"
  shows "validate_escapes False e (s @ rest) = validate_escapes False e rest"
  using assms by (induction s) (simp_all add: validate_escapes.simps [of False e "_ # _"])

lemma validate_in_string:
  assumes "\<forall>c\<in>set s. c \<noteq> CHR 0x22 \<and> c \<noteq> CHR 0x5C"
  shows "validate_escapes True False (s @ rest) = validate_escapes True False rest"
  using assms by (induction s) (simp_all add: validate_escapes.simps [of True False "_ # _"])

lemma validate_rune:
  assumes "scalar r"
  shows "validate_escapes True False (emit_rune r @ rest) = validate_escapes True False rest"
proof (cases rule: emit_rune_cases [of r])
  case (escape x c)
  then show ?thesis
    by (simp add: validate_escapes.simps [of True False "CHR 0x5C # _"]
        validate_escapes.simps [of True True "x # _"])
next
  case control
  let ?u = "CHR ''0'' # CHR ''0'' # hex_digit (r div 16) # hex_digit (r mod 16) # rest"
  have "parseJSONU16 ?u = Some r"
    using control(1) by (simp add: parseJSONU16_four jsonHexValue_zero)
  then show ?thesis
    unfolding control(2) using control(1)
    by (simp add: validate_escapes.simps [of True False "CHR 0x5C # _"]
        validate_escapes.simps [of True True "CHR ''u'' # _"])
next
  case plain
  have "\<forall>c\<in>set (EncodeRune r). c \<noteq> CHR 0x22 \<and> c \<noteq> CHR 0x5C"
  proof (cases "r < 0x80")
    case True
    have "bval c = r" if "c \<in> set (EncodeRune r)" for c
      using that True by (simp add: EncodeRune_ascii)
    then show ?thesis using plain by force
  next
    case False
    then show ?thesis using EncodeRune_high [OF assms] by force
  qed
  with plain(4) show ?thesis by (simp add: validate_in_string)
qed

lemma validate_emit_string:
  assumes "utf8_valid k"
  shows "validate_escapes False False (emitCanonicalJSONString k @ rest)
    = validate_escapes False False rest"
proof -
  have "list_all scalar rs \<Longrightarrow> validate_escapes True False (concat (map emit_rune rs) @ s)
      = validate_escapes True False s" for rs s
    by (induction rs) (simp_all add: validate_rune)
  then show ?thesis
    using utf8_valid_runes [OF assms]
    by (simp add: emitCanonicalJSONString_def validate_escapes.simps [of False False "CHR 0x22 # _"]
        validate_escapes.simps [of True False "CHR 0x22 # _"])
qed

subsection \<open>Canonical numbers\<close>

definition value_follow :: "bytes \<Rightarrow> bool" where
  "value_follow rest = (rest = [] \<or> hd rest \<in> {CHR '','', CHR 0x5D, CHR 0x7D})"

lemma digit_eq: "isJSONDigit = is_digit"
  by (rule ext) (simp add: isJSONDigit_def is_digit_def)

lemma value_follow_simps [simp]:
  "value_follow []" "value_follow (CHR '','' # s)" "value_follow (CHR 0x5D # s)"
  "value_follow (CHR 0x7D # s)"
  by (simp_all add: value_follow_def)

lemma value_follow_number:
  assumes "value_follow rest"
  shows "takeWhile is_digit rest = []" "dropWhile is_digit rest = rest"
    "lex_exp acc rest = Some (acc, rest)" "lex_frac acc rest = Some (acc, rest)"
  using assms
  by (cases rest; auto simp: value_follow_def is_digit_def lex_exp_def lex_frac_def)+

definition int_part :: "bytes \<Rightarrow> bool" where
  "int_part ip = (ip = ''0'' \<or> (ip \<noteq> [] \<and> list_all is_digit ip \<and> hd ip \<noteq> CHR ''0''))"

definition frac_part :: "bytes \<Rightarrow> bool" where
  "frac_part fr = (fr = [] \<or> (hd fr = CHR ''.'' \<and> tl fr \<noteq> [] \<and> list_all is_digit (tl fr)))"

lemma frac_part_cases:
  assumes "frac_part fr"
  obtains "fr = []" | ds where "fr = CHR ''.'' # ds" "ds \<noteq> []" "list_all is_digit ds"
  using assms unfolding frac_part_def by (cases fr) auto

lemma canonical_number_body:
  assumes "number_body negative t"
  shows "\<exists>ip fr. t = ip @ fr \<and> int_part ip \<and> frac_part fr"
proof -
  obtain c u where t: "t = c # u" using assms by (cases t) (auto simp: number_body_def)
  define ip where "ip = (if c = CHR ''0'' then [c] else takeWhile isJSONDigit t)"
  define r where "r = drop (length ip) t"
  have c: "c = CHR ''0'' \<or> (49 \<le> bval c \<and> bval c \<le> 57)"
    using assms t by (cases "c = CHR ''0''") (simp_all add: number_body_def split: if_split_asm)
  have tr: "t = ip @ r"
    unfolding r_def ip_def t by (auto simp flip: dropWhile_eq_drop)
  have ip: "int_part ip"
  proof (cases "c = CHR ''0''")
    case False
    then have "is_digit c" using c by (auto simp: is_digit_def)
    then show ?thesis
      using False t by (auto simp: ip_def int_part_def digit_eq list_all_iff dest: set_takeWhileD)
  qed (simp add: ip_def int_part_def)
  have "number_body negative t = (if c = CHR ''0'' \<and> u \<noteq> [] \<and> isJSONDigit (hd u) then False
       else if c \<noteq> CHR ''0'' \<and> \<not> (49 \<le> bval c \<and> bval c \<le> 57) then False
       else case r of [] \<Rightarrow> \<not> (negative \<and> ip = ''0'')
          | d # f \<Rightarrow> if d = CHR ''.'' then takeWhile isJSONDigit f \<noteq> [] \<and>
               last (takeWhile isJSONDigit f) \<noteq> CHR ''0'' \<and> dropWhile isJSONDigit f = [] else False)"
    unfolding number_body_def r_def ip_def Let_def by (simp only: t list.case)
  with assms have "case r of [] \<Rightarrow> \<not> (negative \<and> ip = ''0'')
          | d # f \<Rightarrow> if d = CHR ''.'' then takeWhile isJSONDigit f \<noteq> [] \<and>
               last (takeWhile isJSONDigit f) \<noteq> CHR ''0'' \<and> dropWhile isJSONDigit f = [] else False"
    by presburger
  then have "frac_part r"
    by (cases r) (auto simp: frac_part_def digit_eq list_all_iff dropWhile_eq_Nil_conv split: if_splits)
  with tr ip show ?thesis by blast
qed

lemma canonical_number_form:
  assumes "canonicalJSONNumber s"
  obtains sg ip fr where "s = sg @ ip @ fr" "sg = [] \<or> sg = ''-''" "int_part ip" "frac_part fr"
proof -
  have s: "s \<noteq> []" using assms by (auto simp: canonicalJSONNumber_def)
  show thesis
  proof (cases "hd s = CHR ''-''")
    case True
    with assms have "number_body True (tl s)"
      by (simp add: canonicalJSONNumber_def split: if_split_asm)
    then obtain ip fr where t: "tl s = ip @ fr" "int_part ip" "frac_part fr"
      using canonical_number_body by blast
    moreover have "s = ''-'' @ tl s" using s True by (cases s) auto
    ultimately show thesis using that [of "''-''" ip fr] by metis
  next
    case False
    with assms have "number_body False s"
      by (simp add: canonicalJSONNumber_def split: if_split_asm)
    then obtain ip fr where t: "s = ip @ fr" "int_part ip" "frac_part fr"
      using canonical_number_body by blast
    with that [of "[]" ip fr] show thesis by simp
  qed
qed

lemma takeWhile_all [simp]:
  "list_all P xs \<Longrightarrow> takeWhile P (xs @ ys) = xs @ takeWhile P ys"
  "list_all P xs \<Longrightarrow> dropWhile P (xs @ ys) = dropWhile P ys"
  by (induction xs) simp_all

lemma lex_frac_form:
  assumes "frac_part fr" "value_follow rest"
  shows "lex_frac acc (fr @ rest) = Some (acc @ fr, rest)"
  using assms(1)
proof (cases rule: frac_part_cases)
  case (2 ds)
  then show ?thesis
    using value_follow_number [OF assms(2)] by (simp add: lex_frac_def)
qed (simp add: value_follow_number [OF assms(2)])

lemma frac_no_digit:
  assumes "frac_part fr" "value_follow rest"
  shows "takeWhile is_digit (fr @ rest) = []" "dropWhile is_digit (fr @ rest) = fr @ rest"
  using assms(1) value_follow_number [OF assms(2)]
  by (cases rule: frac_part_cases; simp add: is_digit_def)+

lemma lex_number_form:
  assumes "int_part ip" "frac_part fr" "sg = [] \<or> sg = ''-''" "value_follow rest"
  shows "lex_number (sg @ ip @ fr @ rest) = Some (sg @ ip @ fr, rest)"
proof -
  obtain c u where ip: "ip = c # u" using assms(1) by (cases ip) (auto simp: int_part_def)
  have minus: "c \<noteq> CHR ''-''" using assms(1) ip by (auto simp: int_part_def is_digit_def)
  have sg: "lex_number (sg @ ip @ fr @ rest) =
      (if c = CHR ''0'' then lex_frac (sg @ [c]) (u @ fr @ rest)
       else if is_digit c then lex_frac (sg @ takeWhile is_digit (ip @ fr @ rest))
         (dropWhile is_digit (ip @ fr @ rest)) else None)"
    using assms(3) minus by (auto simp: lex_number_def ip)
  show ?thesis
  proof (cases "ip = ''0''")
    case True
    then show ?thesis unfolding sg using ip lex_frac_form [OF assms(2,4)] by simp
  next
    case False
    then have "c \<noteq> CHR ''0''" "is_digit c" "list_all is_digit ip"
      using assms(1) ip by (auto simp: int_part_def)
    then show ?thesis
      unfolding sg using frac_no_digit [OF assms(2,4)] lex_frac_form [OF assms(2,4)] by simp
  qed
qed

lemma lex_number_canonical:
  assumes "canonicalJSONNumber s" "value_follow rest"
  shows "lex_number (s @ rest) = Some (s, rest)"
  using assms(1)
proof (cases rule: canonical_number_form)
  case (1 sg ip fr)
  with lex_number_form [OF 1(3,4,2) assms(2)] show ?thesis by simp
qed

lemma canonical_number_chars:
  assumes "canonicalJSONNumber s" "c \<in> set s"
  shows "is_digit c \<or> c = CHR ''-'' \<or> c = CHR ''.''"
  using assms(1)
proof (cases rule: canonical_number_form)
  case (1 sg ip fr)
  have "list_all is_digit ip" using 1(3) by (auto simp: int_part_def is_digit_def)
  with 1 assms(2) show ?thesis by (auto simp: list_all_iff elim!: frac_part_cases)
qed

lemma canonical_number_head:
  assumes "canonicalJSONNumber s"
  obtains c u where "s = c # u" "is_digit c \<or> c = CHR ''-''"
proof -
  obtain sg ip fr where f: "s = sg @ ip @ fr" "sg = [] \<or> sg = ''-''" "int_part ip" "frac_part fr"
    using assms by (rule canonical_number_form)
  obtain c u where ip: "ip = c # u" "is_digit c"
    using f(3) by (cases ip) (auto simp: int_part_def is_digit_def)
  with f that show thesis by (cases sg) auto
qed

subsection \<open>Well-formed documents and member order\<close>

function wf_json :: "json \<Rightarrow> bool" where
  "wf_json (JObj ms) = (distinct (map fst ms) \<and> list_all (\<lambda>(k, v). utf8_valid k \<and> wf_json v) ms)"
| "wf_json (JArr vs) = list_all wf_json vs"
| "wf_json (JStr s) = (utf8_valid s \<and> CHR 0x00 \<notin> set s)"
| "wf_json (JNum s) = canonicalJSONNumber s"
| "wf_json (JBool b) = True"
| "wf_json JNull = True"
  by pat_completeness auto
termination
  by (relation "measure size") (auto dest: size_member size_element)

text \<open>A document with the members of every object put in key order.\<close>

function norm_json :: "json \<Rightarrow> json" where
  "norm_json (JObj ms) = JObj (map (\<lambda>(k, v). (k, norm_json v)) (sort_key fst ms))"
| "norm_json (JArr vs) = JArr (map norm_json vs)"
| "norm_json (JStr s) = JStr s"
| "norm_json (JNum s) = JNum s"
| "norm_json (JBool b) = JBool b"
| "norm_json JNull = JNull"
  by pat_completeness auto
termination
  by (relation "measure size") (auto dest: size_member size_element)

lemma sort_key_map_snd: "sort_key fst (map (\<lambda>(k, v). (k, f v)) ms) = map (\<lambda>(k, v). (k, f v)) (sort_key fst ms)"
proof -
  have "insort_key fst (k, f v) (map (\<lambda>(k, v). (k, f v)) xs) = map (\<lambda>(k, v). (k, f v)) (insort_key fst (k, v) xs)"
    for k :: 'a and v xs by (induction xs) auto
  then show ?thesis by (induction ms) auto
qed

lemma sort_key_idem [simp]: "sort_key f (sort_key f xs) = sort_key f xs"
  by (simp add: sort_key_id_if_sorted)

lemma emit_norm [simp]: "emitCanonicalJSONValue (norm_json v) = emitCanonicalJSONValue v"
proof (induction v rule: norm_json.induct)
  case (1 ms)
  then have "map (\<lambda>(k, v). emitCanonicalJSONString k @ CHR '':'' # emitCanonicalJSONValue v)
       (map (\<lambda>(k, v). (k, norm_json v)) (sort_key fst ms)) =
      map (\<lambda>(k, v). emitCanonicalJSONString k @ CHR '':'' # emitCanonicalJSONValue v) (sort_key fst ms)"
    by (auto simp: comp_def split_def)
  then show ?case by (simp add: sort_key_map_snd del: map_map)
next
  case (2 vs)
  then have "map emitCanonicalJSONValue (map norm_json vs) = map emitCanonicalJSONValue vs" by simp
  then show ?case by (simp del: map_map)
qed simp_all

lemma norm_idem [simp]: "norm_json (norm_json v) = norm_json v"
proof (induction v rule: norm_json.induct)
  case (1 ms)
  then have "map (\<lambda>(k, v). (k, norm_json v)) (map (\<lambda>(k, v). (k, norm_json v)) (sort_key fst ms)) =
      map (\<lambda>(k, v). (k, norm_json v)) (sort_key fst ms)"
    by (auto simp: comp_def split_def)
  then show ?case by (simp add: sort_key_map_snd)
qed simp_all

lemma wf_norm [simp]: "wf_json (norm_json v) = wf_json v"
proof (induction v rule: norm_json.induct)
  case (1 ms)
  have "distinct (map fst (map (\<lambda>(k, v). (k, norm_json v)) (sort_key fst ms))) = distinct (map fst ms)"
    by (simp add: comp_def split_def distinct_map inj_on_def)
  moreover have "list_all (\<lambda>(k, v). utf8_valid k \<and> wf_json v) (map (\<lambda>(k, v). (k, norm_json v)) (sort_key fst ms))
     = list_all (\<lambda>(k, v). utf8_valid k \<and> wf_json v) ms"
    using 1 by (auto simp: list_all_iff split_def)
  ultimately show ?case by simp
next
  case (2 vs)
  then show ?case by (auto simp: list_all_iff)
qed simp_all

subsection \<open>What the parser returns is well formed\<close>

lemma utf8_valid_any_EncodeRune: "utf8_valid (EncodeRune r @ s) = utf8_valid s"
proof (cases "scalar r")
  case False
  have s: "scalar RuneError" by (simp add: scalar_def RuneError_def)
  have "EncodeRune r = EncodeRune RuneError"
    by (simp only: EncodeRune_def if_not_P [OF False] if_P [OF s])
  with s show ?thesis by simp
qed simp

lemma lex_string_valid: "lex_string s = Some (b, rest) \<Longrightarrow> utf8_valid b"
proof (induction s arbitrary: b rest rule: lex_string.induct)
  case (1 s)
  note prem = "1.prems" [unfolded lex_string.simps [of s]]
  have esc: "utf8_valid (x # b')" if "simple_escape e = Some x" "utf8_valid b'" for e x b'
  proof -
    have "bval x < 0x80" using that(1) by (auto simp: simple_escape_def split: if_splits)
    then have "utf8_valid [x]" by (intro utf8_valid_ascii) simp
    from utf8_valid_append [OF this, of b'] that(2) show ?thesis by simp
  qed
  show ?case
  proof (cases s)
    case (Cons c t)
    show ?thesis
      using prem Cons "1.IH" by (auto simp: utf8_valid_any_EncodeRune esc split: list.splits if_splits option.splits)
  qed (use prem in simp)
qed

lemma lex_string_shorter: "lex_string s = Some (b, rest) \<Longrightarrow> length rest < length s"
proof (induction s arbitrary: b rest rule: lex_string.induct)
  case (1 s)
  note prem = "1.prems" [unfolded lex_string.simps [of s]]
  show ?case
  proof (cases s)
    case (Cons c t)
    have w: "0 < snd (DecodeRune s)" using DecodeRune_width(1) [of s] Cons by simp
    show ?thesis
      using prem Cons "1.IH" w
      by (fastforce split: list.splits if_splits option.splits)
  qed (use prem in simp)
qed

lemma length_dropWhile_Cons: "P c \<Longrightarrow> length (dropWhile P (c # s)) < length (c # s)"
  by (simp add: length_dropWhile_le less_Suc_eq_le)

lemma lex_exp_shorter: "lex_exp acc s = Some (b, rest) \<Longrightarrow> length rest \<le> length s"
  by (auto simp: lex_exp_def Let_def split: list.splits if_splits prod.splits
      intro: le_SucI le_trans [OF length_dropWhile_le])

lemma lex_frac_shorter: "lex_frac acc s = Some (b, rest) \<Longrightarrow> length rest \<le> length s"
proof -
  assume a: "lex_frac acc s = Some (b, rest)"
  show ?thesis
  proof (cases s)
    case (Cons c t)
    with a show ?thesis
      using lex_exp_shorter [of _ "dropWhile is_digit t" b rest] length_dropWhile_le [of is_digit t]
        lex_exp_shorter [of _ s b rest]
      by (fastforce simp: lex_frac_def split: if_splits)
  qed (use a in \<open>simp add: lex_frac_def\<close>)
qed

lemma lex_number_shorter:
  assumes "lex_number s = Some (b, rest)"
  shows "length rest < length s"
proof -
  obtain sg t where st: "(case s of c # t' \<Rightarrow> if c = CHR ''-'' then ([c], t') else ([], s) | [] \<Rightarrow> ([], [])) = (sg, t)"
    by force
  have "length t \<le> length s" using st by (auto split: list.splits if_splits)
  moreover obtain c u where t: "t = c # u"
    using assms st by (cases t) (auto simp: lex_number_def)
  moreover have "length rest < length t"
    using assms st t lex_frac_shorter [of _ u b rest] lex_frac_shorter [of _ "dropWhile is_digit t" b rest]
      length_dropWhile_Cons [of is_digit c u]
    by (fastforce simp: lex_number_def simp del: dropWhile.simps split: if_splits)
  ultimately show ?thesis by simp
qed

lemma lex_literal_shorter: "lex_literal s = Some (tok, rest) \<Longrightarrow> length rest < length s"
  by (auto simp: lex_literal_def lex_keyword_def has_prefix_iff split: list.splits if_splits
      dest!: lex_string_shorter lex_number_shorter)

lemma dec_Token_shorter: "dec_Token d = Inr (tok, d1) \<Longrightarrow> length (d_buf d1) < length (d_buf d)"
proof (induction d rule: dec_Token.induct)
  case (1 d)
  show ?case
  proof (cases "skip_ws (d_buf d)")
    case Nil
    with "1.prems" show ?thesis by (simp add: dec_Token.simps [of d])
  next
    case (Cons c t)
    have le: "length (c # t) \<le> length (d_buf d)"
      using length_dropWhile_le [of is_ws "d_buf d"] Cons by simp
    show ?thesis
      using "1.prems" "1.IH" [OF Cons] Cons le
      by (auto simp: dec_Token.simps [of d] dec_open_def dec_close_def
          split: if_splits option.splits list.splits prod.splits
          dest!: lex_string_shorter lex_literal_shorter)
  qed
qed

lemma lex_literal_string_valid: "lex_literal s = Some (TString b, rest) \<Longrightarrow> utf8_valid b"
  by (auto simp: lex_literal_def lex_keyword_def split: list.splits if_splits dest: lex_string_valid)

lemma dec_Token_string_valid: "dec_Token d = Inr (TString b, d1) \<Longrightarrow> utf8_valid b"
proof (induction d rule: dec_Token.induct)
  case (1 d)
  show ?case
  proof (cases "skip_ws (d_buf d)")
    case Nil
    with "1.prems" show ?thesis by (simp add: dec_Token.simps [of d])
  next
    case (Cons c t)
    show ?thesis
      using "1.prems" "1.IH" [OF Cons] Cons
      by (auto simp: dec_Token.simps [of d] dec_open_def dec_close_def
          split: if_splits option.splits list.splits prod.splits
          dest!: lex_string_valid lex_literal_string_valid)
  qed
qed

lemma parse_wf:
  "parse_value n d = Inr (v, d') \<Longrightarrow> wf_json v"
  "parse_members n ms d = Inr (v, d') \<Longrightarrow> wf_json (JObj ms) \<Longrightarrow> wf_json v"
  "parse_elements n vs d = Inr (v, d') \<Longrightarrow> wf_json (JArr vs) \<Longrightarrow> wf_json v"
proof (induction n d and n ms d and n vs d arbitrary: v d' and v d' and v d'
    rule: parse_value_parse_members_parse_elements.induct)
  case (2 n d)
  then show ?case
    by (auto split: sum.splits prod.splits token.splits if_splits dest: dec_Token_string_valid)
next
  case (4 n obj d)
  then show ?case
    by (auto split: sum.splits prod.splits token.splits if_splits dest: dec_Token_string_valid)
next
  case (6 n arr d)
  then show ?case
    by (auto split: sum.splits prod.splits token.splits if_splits)
qed simp_all

lemma parse_shorter:
  "parse_value n d = Inr (v, d') \<Longrightarrow> length (d_buf d') < length (d_buf d)"
  "parse_members n ms d = Inr (v, d') \<Longrightarrow> length (d_buf d') < length (d_buf d)"
  "parse_elements n vs d = Inr (v, d') \<Longrightarrow> length (d_buf d') < length (d_buf d)"
proof (induction n d and n ms d and n vs d arbitrary: v d' and v d' and v d'
    rule: parse_value_parse_members_parse_elements.induct)
  case (2 n d)
  then show ?case
    by (fastforce split: sum.splits prod.splits token.splits if_splits dest: dec_Token_shorter)
next
  case (4 n obj d)
  then show ?case
    by (fastforce split: sum.splits prod.splits token.splits if_splits dest: dec_Token_shorter)
next
  case (6 n arr d)
  then show ?case
    by (fastforce split: sum.splits prod.splits token.splits if_splits dest: dec_Token_shorter)
qed simp_all

lemma parse_enough_fuel:
  "2 * length (d_buf d) + 1 \<le> n \<Longrightarrow> parse_value n d \<noteq> Inl OutOfFuel"
  "2 * length (d_buf d) + 2 \<le> n \<Longrightarrow> parse_members n ms d \<noteq> Inl OutOfFuel"
  "2 * length (d_buf d) + 2 \<le> n \<Longrightarrow> parse_elements n vs d \<noteq> Inl OutOfFuel"
proof (induction n d and n ms d and n vs d
    rule: parse_value_parse_members_parse_elements.induct)
  case (2 n d)
  then show ?case
    by (fastforce split: sum.splits prod.splits token.splits if_splits dest: dec_Token_shorter)
next
  case (4 n obj d)
  then show ?case
    by (fastforce split: sum.splits prod.splits token.splits if_splits
        dest: dec_Token_shorter parse_shorter(1))
next
  case (6 n arr d)
  then show ?case
    by (fastforce split: sum.splits prod.splits token.splits if_splits
        dest: dec_Token_shorter parse_shorter(1))
qed simp_all

subsection \<open>Reading back printed documents\<close>

abbreviation dec_at :: "bytes \<Rightarrow> tok_state \<Rightarrow> tok_state list \<Rightarrow> decoder" where
  "dec_at s st ps \<equiv> \<lparr>d_buf = s, d_state = st, d_stack = ps\<rparr>"

lemma is_ws_punct [simp]:
  "\<not> is_ws (CHR 0x22)" "\<not> is_ws (CHR 0x5B)" "\<not> is_ws (CHR 0x5D)" "\<not> is_ws (CHR 0x7B)"
  "\<not> is_ws (CHR 0x7D)" "\<not> is_ws (CHR '','')" "\<not> is_ws (CHR '':'')" "\<not> is_ws (CHR ''t'')"
  "\<not> is_ws (CHR ''f'')" "\<not> is_ws (CHR ''n'')" "\<not> is_ws (CHR ''-'')"
  by (simp_all add: is_ws_def)

lemma tok_open [simp]:
  "value_allowed st \<Longrightarrow> dec_Token (dec_at (CHR 0x7B # s) st ps)
     = Inr (TDelim (CHR 0x7B), dec_at s TokObjectStart (st # ps))"
  "value_allowed st \<Longrightarrow> dec_Token (dec_at (CHR 0x5B # s) st ps)
     = Inr (TDelim (CHR 0x5B), dec_at s TokArrayStart (st # ps))"
  by (simp_all add: dec_Token.simps [of "dec_at (_ # _) _ _"] dec_open_def)

lemma tok_close [simp]:
  "st = TokObjectStart \<or> st = TokObjectComma \<Longrightarrow> dec_Token (dec_at (CHR 0x7D # s) st (p # ps))
     = Inr (TDelim (CHR 0x7D), dec_at s (value_end p) ps)"
  "st = TokArrayStart \<or> st = TokArrayComma \<Longrightarrow> dec_Token (dec_at (CHR 0x5D # s) st (p # ps))
     = Inr (TDelim (CHR 0x5D), dec_at s (value_end p) ps)"
  by (auto simp: dec_Token.simps [of "dec_at (_ # _) _ _"] dec_close_def)

lemma tok_punct [simp]:
  "dec_Token (dec_at (CHR '':'' # s) TokObjectColon ps) = dec_Token (dec_at s TokObjectValue ps)"
  "dec_Token (dec_at (CHR '','' # s) TokArrayComma ps) = dec_Token (dec_at s TokArrayValue ps)"
  "dec_Token (dec_at (CHR '','' # s) TokObjectComma ps) = dec_Token (dec_at s TokObjectKey ps)"
  by (simp_all add: dec_Token.simps [of "dec_at (_ # _) _ _"])

lemma tok_key [simp]:
  assumes "utf8_valid k" "st = TokObjectStart \<or> st = TokObjectKey"
  shows "dec_Token (dec_at (emitCanonicalJSONString k @ s) st ps)
     = Inr (TString k, dec_at s TokObjectColon ps)"
  using assms lex_emit_string [OF assms(1), of s]
  by (auto simp: emitCanonicalJSONString_def dec_Token.simps [of "dec_at (_ # _) _ _"])

lemma tok_string [simp]:
  assumes "utf8_valid k" "value_allowed st"
  shows "dec_Token (dec_at (emitCanonicalJSONString k @ s) st ps)
     = Inr (TString k, dec_at s (value_end st) ps)"
  using assms lex_emit_string [OF assms(1), of s]
  by (cases st) (auto simp: emitCanonicalJSONString_def lex_literal_def
      dec_Token.simps [of "dec_at (_ # _) _ _"])

lemma tok_keyword [simp]:
  assumes "value_allowed st"
  shows "dec_Token (dec_at (''true'' @ s) st ps) = Inr (TBool True, dec_at s (value_end st) ps)"
    "dec_Token (dec_at (''false'' @ s) st ps) = Inr (TBool False, dec_at s (value_end st) ps)"
    "dec_Token (dec_at (''null'' @ s) st ps) = Inr (TNull, dec_at s (value_end st) ps)"
  using assms
  by (simp_all add: dec_Token.simps [of "dec_at (_ # _) _ _"] lex_literal_def lex_keyword_def has_prefix_def)

lemma tok_number [simp]:
  assumes "canonicalJSONNumber x" "value_allowed st" "value_follow s"
  shows "dec_Token (dec_at (x @ s) st ps) = Inr (TNumber x, dec_at s (value_end st) ps)"
proof -
  obtain c u where x: "x = c # u" "is_digit c \<or> c = CHR ''-''"
    using assms(1) by (rule canonical_number_head)
  have c: "\<not> is_ws c" "c \<noteq> CHR 0x22" "c \<noteq> CHR 0x5B" "c \<noteq> CHR 0x5D" "c \<noteq> CHR 0x7B"
    "c \<noteq> CHR 0x7D" "c \<noteq> CHR '':''" "c \<noteq> CHR '',''" "c \<noteq> CHR ''t''" "c \<noteq> CHR ''f''" "c \<noteq> CHR ''n''"
    using x(2) by (auto simp: is_ws_def is_digit_def)
  have l: "lex_number (c # u @ s) = Some (c # u, s)"
    using lex_number_canonical [OF assms(1,3)] x(1) by simp
  show ?thesis
    using c assms(2) by (simp add: x(1) dec_Token.simps [of "dec_at (_ # _) _ _"] lex_literal_def l)
qed

definition starts_value :: "bytes \<Rightarrow> bool" where
  "starts_value s = (s \<noteq> [] \<and> \<not> is_ws (hd s) \<and> hd s \<noteq> CHR 0x5D \<and> hd s \<noteq> CHR 0x7D)"

lemma starts_value_string: "starts_value (emitCanonicalJSONString k @ s)"
  by (simp add: starts_value_def emitCanonicalJSONString_def)

lemma starts_value_emit: "wf_json v \<Longrightarrow> starts_value (emitCanonicalJSONValue v @ s)"
proof (cases v)
  case (JNum x)
  assume "wf_json v"
  with JNum obtain c u where "x = c # u" "is_digit c \<or> c = CHR ''-''"
    using canonical_number_head [of x] by auto
  with JNum show ?thesis by (auto simp: starts_value_def is_ws_def is_digit_def)
qed (auto simp: starts_value_def emitCanonicalJSONString_def)

lemma dec_More_starts [simp]:
  "starts_value s \<Longrightarrow> dec_More (dec_at s st ps)"
  "dec_More (dec_at (CHR '','' # s) st ps)"
  "\<not> dec_More (dec_at (CHR 0x5D # s) st ps)"
  "\<not> dec_More (dec_at (CHR 0x7D # s) st ps)"
  by (cases s; simp add: dec_More_def starts_value_def)+

lemma parse_value_punct:
  "0 < n \<Longrightarrow> parse_value n (dec_at (CHR '':'' # s) TokObjectColon ps) = parse_value n (dec_at s TokObjectValue ps)"
  "0 < n \<Longrightarrow> parse_value n (dec_at (CHR '','' # s) TokArrayComma ps) = parse_value n (dec_at s TokArrayValue ps)"
  by (cases n; simp)+

lemma join_comma_Cons: "join_comma (x # xs) = x @ concat (map (\<lambda>y. CHR '','' # y) xs)"
  by (induction xs arbitrary: x) simp_all

definition parses_back :: "json \<Rightarrow> bool" where
  "parses_back v = (\<forall>st ps rest n. value_allowed st \<longrightarrow> value_follow rest \<longrightarrow>
     2 * length (emitCanonicalJSONValue v @ rest) + 1 \<le> n \<longrightarrow>
     parse_value n (dec_at (emitCanonicalJSONValue v @ rest) st ps)
       = Inr (norm_json v, dec_at rest (value_end st) ps))"

lemma parses_backD:
  "parses_back v \<Longrightarrow> value_allowed st \<Longrightarrow> value_follow rest \<Longrightarrow>
     2 * length (emitCanonicalJSONValue v @ rest) + 1 \<le> n \<Longrightarrow>
     parse_value n (dec_at (emitCanonicalJSONValue v @ rest) st ps)
       = Inr (norm_json v, dec_at rest (value_end st) ps)"
  by (simp add: parses_back_def)

lemma value_follow_commas:
  "value_follow (concat (map (\<lambda>y. CHR '','' # y) xs) @ CHR 0x5D # rest)"
  "value_follow (concat (map (\<lambda>y. CHR '','' # y) xs) @ CHR 0x7D # rest)"
  by (cases xs; simp)+

lemma elements_loop:
  assumes "\<And>v. v \<in> set vs \<Longrightarrow> parses_back v \<and> wf_json v"
    and "2 * length (concat (map (\<lambda>y. CHR '','' # y) (map emitCanonicalJSONValue vs)) @ CHR 0x5D # rest) + 2 \<le> n"
  shows "parse_elements n acc
      (dec_at (concat (map (\<lambda>y. CHR '','' # y) (map emitCanonicalJSONValue vs)) @ CHR 0x5D # rest) TokArrayComma (st # ps))
    = Inr (JArr (acc @ map norm_json vs), dec_at rest (value_end st) ps)"
  using assms
proof (induction vs arbitrary: n acc)
  case Nil
  then show ?case by (cases n) simp_all
next
  case (Cons v vs)
  obtain m where n: "n = Suc m" using Cons.prems(2) by (cases n) auto
  let ?s = "concat (map (\<lambda>y. CHR '','' # y) (map emitCanonicalJSONValue vs)) @ CHR 0x5D # rest"
  have vf: "value_follow ?s" by (rule value_follow_commas)
  have "parse_value m (dec_at (CHR '','' # emitCanonicalJSONValue v @ ?s) TokArrayComma (st # ps))
      = Inr (norm_json v, dec_at ?s TokArrayComma (st # ps))"
    using parses_backD [of v TokArrayValue ?s m "st # ps"] Cons.prems n vf
    by (simp add: parse_value_punct)
  then show ?case
    using Cons.IH [of m "acc @ [norm_json v]"] Cons.prems n by simp
qed

lemma members_loop:
  assumes "\<And>k v. (k, v) \<in> set ms \<Longrightarrow> parses_back v \<and> utf8_valid k"
    and "distinct (map fst acc @ map fst ms)"
    and "2 * length (concat (map (\<lambda>y. CHR '','' # y) (map (\<lambda>(k, v).
      emitCanonicalJSONString k @ CHR '':'' # emitCanonicalJSONValue v) ms)) @ CHR 0x7D # rest) + 2 \<le> n"
  shows "parse_members n acc
      (dec_at (concat (map (\<lambda>y. CHR '','' # y) (map (\<lambda>(k, v).
      emitCanonicalJSONString k @ CHR '':'' # emitCanonicalJSONValue v) ms)) @ CHR 0x7D # rest) TokObjectComma (st # ps))
    = Inr (JObj (acc @ map (\<lambda>(k, v). (k, norm_json v)) ms), dec_at rest (value_end st) ps)"
  using assms
proof (induction ms arbitrary: n acc)
  case Nil
  then show ?case by (cases n) simp_all
next
  case (Cons kv ms)
  obtain k v where kv: "kv = (k, v)" by force
  obtain m where n: "n = Suc m" using Cons.prems(3) by (cases n) auto
  let ?s = "concat (map (\<lambda>y. CHR '','' # y) (map (\<lambda>(k, v).
      emitCanonicalJSONString k @ CHR '':'' # emitCanonicalJSONValue v) ms)) @ CHR 0x7D # rest"
  have vf: "value_follow ?s" by (rule value_follow_commas)
  have k: "utf8_valid k" and "parses_back v" using Cons.prems(1) kv by auto
  then have "parse_value m (dec_at (CHR '':'' # emitCanonicalJSONValue v @ ?s) TokObjectColon (st # ps))
      = Inr (norm_json v, dec_at ?s TokObjectComma (st # ps))"
    using parses_backD [of v TokObjectValue ?s m "st # ps"] Cons.prems(3) kv n vf
    by (simp add: parse_value_punct)
  moreover have "parse_members m (acc @ [(k, norm_json v)]) (dec_at ?s TokObjectComma (st # ps))
      = Inr (JObj ((acc @ [(k, norm_json v)]) @ map (\<lambda>(k, v). (k, norm_json v)) ms), dec_at rest (value_end st) ps)"
    by (rule Cons.IH) (use Cons.prems kv n in auto)
  ultimately show ?case using Cons.prems(2) n kv k by simp
qed


lemma emit_obj_Cons: "sort_key fst ms = (k, v) # ms' \<Longrightarrow> emitCanonicalJSONValue (JObj ms) @ rest =
    CHR 0x7B # emitCanonicalJSONString k @ CHR '':'' # emitCanonicalJSONValue v @
      concat (map (\<lambda>y. CHR '','' # y) (map (\<lambda>(k, v).
        emitCanonicalJSONString k @ CHR '':'' # emitCanonicalJSONValue v) ms')) @ CHR 0x7D # rest"
  by (simp add: join_comma_Cons del: map_map)

lemma emit_arr_Cons: "emitCanonicalJSONValue (JArr (v # vs)) @ rest =
    CHR 0x5B # emitCanonicalJSONValue v @
      concat (map (\<lambda>y. CHR '','' # y) (map emitCanonicalJSONValue vs)) @ CHR 0x5D # rest"
  by (simp add: join_comma_Cons del: map_map)

lemma parses_back_obj:
  assumes "\<And>k v. (k, v) \<in> set ms \<Longrightarrow> parses_back v \<and> utf8_valid k" "distinct (map fst ms)"
  shows "parses_back (JObj ms)"
  unfolding parses_back_def
proof (intro allI impI)
  fix st ps rest n
  assume st: "value_allowed st" and fuel: "2 * length (emitCanonicalJSONValue (JObj ms) @ rest) + 1 \<le> n"
  obtain m where n: "n = Suc m" using fuel by (cases n) auto
  show "parse_value n (dec_at (emitCanonicalJSONValue (JObj ms) @ rest) st ps)
      = Inr (norm_json (JObj ms), dec_at rest (value_end st) ps)"
  proof (cases "sort_key fst ms")
    case Nil
    then have "ms = []" by (metis length_0_conv length_sort)
    then show ?thesis using st n fuel by (cases m) simp_all
  next
    case (Cons kv ms')
    obtain k v where kv: "kv = (k, v)" by force
    let ?s = "concat (map (\<lambda>y. CHR '','' # y) (map (\<lambda>(k, v).
        emitCanonicalJSONString k @ CHR '':'' # emitCanonicalJSONValue v) ms')) @ CHR 0x7D # rest"
    note e = emit_obj_Cons [of ms k v ms' rest, OF Cons [unfolded kv]]
    have vf: "value_follow ?s" by (rule value_follow_commas)
    have set: "set ms = set ((k, v) # ms')" using Cons kv by (metis set_sort)
    have dist: "distinct (map fst ((k, v) # ms'))"
    proof -
      have "distinct (map fst (sort_key fst ms))" using assms(2) by (simp add: distinct_map)
      then show ?thesis by (simp only: Cons kv)
    qed
    have k: "utf8_valid k" and pv: "parses_back v" using assms(1) set by auto
    obtain m' where m: "m = Suc m'" using fuel e n by (cases m) auto
    have "parse_value m' (dec_at (CHR '':'' # emitCanonicalJSONValue v @ ?s) TokObjectColon (st # ps))
        = Inr (norm_json v, dec_at ?s TokObjectComma (st # ps))"
      using parses_backD [OF pv _ vf, of TokObjectValue m' "st # ps"] fuel e n m
      by (simp add: parse_value_punct del: emitCanonicalJSONValue.simps)
    moreover have "parse_members m' [(k, norm_json v)] (dec_at ?s TokObjectComma (st # ps))
        = Inr (JObj ((k, norm_json v) # map (\<lambda>(k, v). (k, norm_json v)) ms'), dec_at rest (value_end st) ps)"
    proof -
      have ih: "\<And>k v. (k, v) \<in> set ms' \<Longrightarrow> parses_back v \<and> utf8_valid k" using assms(1) set by auto
      show ?thesis
        using members_loop [of ms' "[(k, norm_json v)]" rest m' st ps, OF ih] dist fuel e n m by simp
    qed
    ultimately show ?thesis
      unfolding e n using st k m Cons kv by (simp add: starts_value_string)
  qed
qed

lemma parses_back_arr:
  assumes "\<And>v. v \<in> set vs \<Longrightarrow> parses_back v \<and> wf_json v"
  shows "parses_back (JArr vs)"
  unfolding parses_back_def
proof (intro allI impI)
  fix st ps rest n
  assume st: "value_allowed st" and fuel: "2 * length (emitCanonicalJSONValue (JArr vs) @ rest) + 1 \<le> n"
  obtain m where n: "n = Suc m" using fuel by (cases n) auto
  obtain m' where m: "m = Suc m'" using fuel n by (cases m) auto
  show "parse_value n (dec_at (emitCanonicalJSONValue (JArr vs) @ rest) st ps)
      = Inr (norm_json (JArr vs), dec_at rest (value_end st) ps)"
  proof (cases vs)
    case Nil
    then show ?thesis using st n m by simp
  next
    case (Cons v ws)
    let ?s = "concat (map (\<lambda>y. CHR '','' # y) (map emitCanonicalJSONValue ws)) @ CHR 0x5D # rest"
    note e = emit_arr_Cons [of v ws rest]
    have vf: "value_follow ?s" by (rule value_follow_commas)
    have pv: "parses_back v" "wf_json v" using assms Cons by auto
    then have ne: "emitCanonicalJSONValue v \<noteq> []"
      using starts_value_emit [of v "[]"] by (simp add: starts_value_def)
    have "parse_value m' (dec_at (emitCanonicalJSONValue v @ ?s) TokArrayStart (st # ps))
        = Inr (norm_json v, dec_at ?s TokArrayComma (st # ps))"
      using parses_backD [OF pv(1) _ vf, of TokArrayStart m' "st # ps"] fuel e n m Cons
      by (simp del: emitCanonicalJSONValue.simps)
    moreover have "parse_elements m' [norm_json v] (dec_at ?s TokArrayComma (st # ps))
        = Inr (JArr (norm_json v # map norm_json ws), dec_at rest (value_end st) ps)"
      using elements_loop [of ws rest m' "[norm_json v]" st ps] assms Cons fuel e n m ne
      by (cases "emitCanonicalJSONValue v") simp_all
    ultimately show ?thesis
      unfolding Cons e n using st m pv starts_value_emit [OF pv(2)] by simp
  qed
qed

lemma parses_back_wf: "wf_json v \<Longrightarrow> parses_back v"
proof (induction v rule: wf_json.induct)
  case (1 ms)
  then show ?case by (intro parses_back_obj) (auto simp: list_all_iff)
next
  case (2 vs)
  then show ?case by (intro parses_back_arr) (auto simp: list_all_iff)
next
  case (3 s)
  show ?case unfolding parses_back_def
  proof (intro allI impI)
    fix st ps rest n
    assume "value_allowed st" "2 * length (emitCanonicalJSONValue (JStr s) @ rest) + 1 \<le> n"
    with 3 show "parse_value n (dec_at (emitCanonicalJSONValue (JStr s) @ rest) st ps)
        = Inr (norm_json (JStr s), dec_at rest (value_end st) ps)" by (cases n) simp_all
  qed
next
  case (4 s)
  show ?case unfolding parses_back_def
  proof (intro allI impI)
    fix st ps rest n
    assume "value_allowed st" "value_follow rest" "2 * length (emitCanonicalJSONValue (JNum s) @ rest) + 1 \<le> n"
    with 4 show "parse_value n (dec_at (emitCanonicalJSONValue (JNum s) @ rest) st ps)
        = Inr (norm_json (JNum s), dec_at rest (value_end st) ps)" by (cases n) simp_all
  qed
next
  case (5 b)
  show ?case unfolding parses_back_def
  proof (intro allI impI)
    fix st ps rest n
    assume "value_allowed st" "2 * length (emitCanonicalJSONValue (JBool b) @ rest) + 1 \<le> n"
    with tok_keyword [of st rest ps] show "parse_value n (dec_at (emitCanonicalJSONValue (JBool b) @ rest) st ps)
        = Inr (norm_json (JBool b), dec_at rest (value_end st) ps)" by (cases n) simp_all
  qed
next
  case 6
  show ?case unfolding parses_back_def
  proof (intro allI impI)
    fix st ps rest n
    assume "value_allowed st" "2 * length (emitCanonicalJSONValue JNull @ rest) + 1 \<le> n"
    with tok_keyword [of st rest ps] show "parse_value n (dec_at (emitCanonicalJSONValue JNull @ rest) st ps)
        = Inr (norm_json JNull, dec_at rest (value_end st) ps)" by (cases n) simp_all
  qed
qed

subsection \<open>The canonical form\<close>

lemma utf8_valid_join:
  "list_all utf8_valid xs \<Longrightarrow> utf8_valid (join_comma xs)"
proof (induction xs rule: join_comma.induct)
  case (3 x y zs)
  have "utf8_valid [CHR '','']" by (rule utf8_valid_ascii) simp
  from utf8_valid_append [OF this, of "join_comma (y # zs)"] 3 show ?case
    by (simp add: utf8_valid_append)
qed simp_all

lemma utf8_valid_ascii_Cons: "bval c < 0x80 \<Longrightarrow> utf8_valid (c # s) = utf8_valid s"
  using utf8_valid_append [of "[c]" s] utf8_valid_ascii [of "[c]"] by simp

lemma canonical_number_ascii: "canonicalJSONNumber s \<Longrightarrow> list_all (\<lambda>c. bval c < 0x80 \<and> c \<noteq> CHR 0x22) s"
  using canonical_number_chars by (force simp: list_all_iff is_digit_def)

lemma utf8_valid_emit: "wf_json v \<Longrightarrow> utf8_valid (emitCanonicalJSONValue v)"
proof (induction v rule: wf_json.induct)
  case (1 ms)
  have "list_all utf8_valid (map (\<lambda>(k, v). emitCanonicalJSONString k @ CHR '':'' # emitCanonicalJSONValue v) (sort_key fst ms))"
    using 1 by (auto simp: list_all_iff utf8_valid_append utf8_valid_emit_string utf8_valid_ascii_Cons)
  from utf8_valid_join [OF this] show ?case
    by (simp add: utf8_valid_ascii_Cons utf8_valid_append)
next
  case (2 vs)
  then have "list_all utf8_valid (map emitCanonicalJSONValue vs)" by (auto simp: list_all_iff)
  from utf8_valid_join [OF this] show ?case
    by (simp add: utf8_valid_ascii_Cons utf8_valid_append)
next
  case (4 s)
  then have "list_all (\<lambda>c. bval c < 0x80) s"
    using canonical_number_ascii [of s] by (auto simp: list_all_iff)
  then show ?case using utf8_valid_ascii by simp
qed (simp_all add: utf8_valid_emit_string utf8_valid_ascii)

lemma validate_skip: "c \<noteq> CHR 0x22 \<Longrightarrow> validate_escapes False False (c # s) = validate_escapes False False s"
  using validate_plain [of "[c]" False s] by simp

lemma validate_join:
  "\<forall>x\<in>set xs. \<forall>s. validate_escapes False False (x @ s) = validate_escapes False False s \<Longrightarrow>
    validate_escapes False False (join_comma xs @ s) = validate_escapes False False s"
  by (induction xs rule: join_comma.induct) (simp_all add: validate_skip)

lemma validate_emit:
  "wf_json v \<Longrightarrow> validate_escapes False False (emitCanonicalJSONValue v @ s) = validate_escapes False False s"
proof (induction v arbitrary: s rule: wf_json.induct)
  case (1 ms)
  have "\<forall>x\<in>set (map (\<lambda>(k, v). emitCanonicalJSONString k @ CHR '':'' # emitCanonicalJSONValue v) (sort_key fst ms)).
      \<forall>s. validate_escapes False False (x @ s) = validate_escapes False False s"
    using 1 by (auto simp: list_all_iff validate_emit_string validate_skip)
  from validate_join [OF this] show ?case by (simp add: validate_skip)
next
  case (2 vs)
  then have "\<forall>x\<in>set (map emitCanonicalJSONValue vs).
      \<forall>s. validate_escapes False False (x @ s) = validate_escapes False False s"
    by (auto simp: list_all_iff)
  from validate_join [OF this] show ?case by (simp add: validate_skip)
next
  case (4 x)
  then have "\<forall>c\<in>set x. c \<noteq> CHR 0x22" using canonical_number_ascii [of x] by (auto simp: list_all_iff)
  then show ?case by (simp add: validate_plain)
next
  case (5 b)
  show ?case by (cases b) (simp_all add: validate_skip)
qed (simp_all add: validate_emit_string validate_skip)

lemma parse_document_emit:
  assumes "wf_json v"
  shows "parse_document (emitCanonicalJSONValue v) = Inr (norm_json v)"
proof -
  have "parse_value (2 * length (emitCanonicalJSONValue v) + 1) (dec_at (emitCanonicalJSONValue v) TokTop [])
      = Inr (norm_json v, dec_at [] TokTop [])"
    using parses_backD [OF parses_back_wf [OF assms], of TokTop "[]" "2 * length (emitCanonicalJSONValue v) + 1" "[]"]
    by simp
  then show ?thesis
    by (simp add: parse_document_def NewDecoder_def dec_Token.simps [of "dec_at [] TokTop []"])
qed

lemma canonicalize_emit:
  assumes "wf_json v"
  shows "CanonicalizeV1 (emitCanonicalJSONValue v) = Inr (emitCanonicalJSONValue v)"
  using validate_emit [OF assms, of "[]"] utf8_valid_emit [OF assms] parse_document_emit [OF assms]
  by (simp add: CanonicalizeV1_def validateJSONUnicodeEscapes_def validate_escapes.simps [of False False "[]"])

lemma parse_document_wf: "parse_document x = Inr v \<Longrightarrow> wf_json v"
  by (auto simp: parse_document_def simp del: parse_value.simps
      split: sum.splits prod.splits json_err.splits dest: parse_wf(1))

lemma canonicalize_Inr:
  assumes "CanonicalizeV1 x = Inr y"
  obtains v where "parse_document x = Inr v" "y = emitCanonicalJSONValue v" "wf_json v"
  using assms parse_document_wf
  by (auto simp: CanonicalizeV1_def split: if_splits option.splits sum.splits)

lemma emit_inj:
  assumes "wf_json v" "wf_json w"
  shows "emitCanonicalJSONValue v = emitCanonicalJSONValue w \<longleftrightarrow> norm_json v = norm_json w"
  using parse_document_emit assms by (metis emit_norm sum.inject(2))

lemma parse_document_fuel: "parse_document x \<noteq> Inl OutOfFuel"
proof -
  have "parse_value (2 * length x + 1) (NewDecoder x) \<noteq> Inl OutOfFuel"
    by (rule parse_enough_fuel(1)) (simp add: NewDecoder_def)
  then show ?thesis
    by (auto simp: parse_document_def simp del: parse_value.simps
        split: sum.splits prod.splits json_err.splits)
qed

lemma validate_not_fuel: "validate_escapes a b s \<noteq> Some OutOfFuel"
proof (induction s arbitrary: a b rule: length_induct)
  case (1 s)
  then have ih: "length t < length s \<Longrightarrow> validate_escapes a b t \<noteq> Some OutOfFuel" for t a b
    by blast
  show ?case
  proof (cases s)
    case (Cons c t)
    then show ?thesis
      by (simp add: validate_escapes.simps [of a b "c # t"] ih split: option.split)
  qed (simp add: validate_escapes.simps)
qed

text \<open>
  C32. The canonical form is a fixed point: whatever bytes \<open>CanonicalizeV1\<close> accepts, the bytes it
  returns are accepted in turn and come back unchanged. Stored and signed payloads are compared
  with their canonical form byte by byte, so a second canonicalization must not move them.
\<close>

theorem canonicalize_idempotent:
  "CanonicalizeV1 x = Inr y \<Longrightarrow> CanonicalizeV1 y = Inr y"
  by (elim canonicalize_Inr) (simp add: canonicalize_emit)

text \<open>
  C10. The canonical form is canonical: two accepted texts have the same canonical bytes exactly
  when they denote the same document up to the order of object members, and the canonical bytes
  denote that document. (No two different documents share canonical bytes, so a digest of the
  canonical bytes commits to the document.)
\<close>

theorem canonicalize_unique:
  assumes "CanonicalizeV1 x = Inr y" "CanonicalizeV1 x' = Inr y'"
  shows "\<exists>v v'. parse_document x = Inr v \<and> parse_document x' = Inr v' \<and>
    (y = y' \<longleftrightarrow> norm_json v = norm_json v') \<and> parse_document y = Inr (norm_json v)"
proof -
  obtain v where v: "parse_document x = Inr v" "y = emitCanonicalJSONValue v" "wf_json v"
    using assms(1) by (rule canonicalize_Inr)
  obtain v' where v': "parse_document x' = Inr v'" "y' = emitCanonicalJSONValue v'" "wf_json v'"
    using assms(2) by (rule canonicalize_Inr)
  show ?thesis using v v' emit_inj [OF v(3) v'(3)] parse_document_emit [OF v(3)] by auto
qed

text \<open>
  C33. Canonicalization always ends with a verdict of the code: the fuel the model gives its
  parser (twice the input's length plus one) is enough for every input, so no input is ever
  refused for lack of it.
\<close>

theorem canonicalize_terminates: "CanonicalizeV1 x \<noteq> Inl OutOfFuel"
  using parse_document_fuel [of x] validate_not_fuel [of False False x]
  by (auto simp: CanonicalizeV1_def validateJSONUnicodeEscapes_def split: option.splits sum.splits)

subsection \<open>Evaluation and witnesses\<close>

lemmas parse_value_numeral =
  parse_value.simps(2) [of "pred_numeral k" for k, folded numeral_eq_Suc]
  parse_members.simps(2) [of "pred_numeral k" for k, folded numeral_eq_Suc]
  parse_elements.simps(2) [of "pred_numeral k" for k, folded numeral_eq_Suc]

lemmas utf8_eval = utf8_valid.simps runes.simps DecodeRune_def seq_len_def RuneError_def EncodeRune_def
  scalar_def second_ok_def cont_ok_def char_of_eq_iff less_char_def less_eq_char_def

lemmas lex_eval = lex_string.simps unquote_u_def hex4_def hex_val_def surrogate_def utf16_decode_def
  simple_escape_def lex_exp_def lex_frac_def lex_number_def is_digit_def lex_keyword_def
  lex_literal_def dec_More_def dec_open_def dec_close_def dec_Token.simps NewDecoder_def is_ws_def
  has_prefix_def

lemmas canon_eval = utf8_eval lex_eval isJSONDigit_def canonicalJSONNumber_def number_body_def
  jsonHexValue_def parseJSONU16_four validate_escapes.simps validateJSONUnicodeEscapes_def
  emit_rune_def emitCanonicalJSONString_def parse_document_def CanonicalizeV1_def
  parse_value_numeral hex_digit_def

definition sample_text :: bytes where
  "sample_text = ''{'' @ [CHR 0x22] @ ''b'' @ [CHR 0x22] @ '': [1, -2.5], '' @ [CHR 0x22, CHR 0x5C]
     @ ''u0061'' @ [CHR 0x22] @ '' :null}''"

definition sample_canonical :: bytes where
  "sample_canonical = ''{'' @ [CHR 0x22] @ ''a'' @ [CHR 0x22] @ '':null,'' @ [CHR 0x22] @ ''b''
     @ [CHR 0x22] @ '':[1,-2.5]}''"

lemma sample_canonicalized: "CanonicalizeV1 sample_text = Inr sample_canonical"
  by (simp add: sample_text_def sample_canonical_def canon_eval)


lemma sample_canonicalized_again: "CanonicalizeV1 sample_canonical = Inr sample_canonical"
  by (simp add: sample_canonical_def canon_eval)

theorem canonicalize_idempotent_witness:
  "CanonicalizeV1 sample_text = Inr sample_canonical \<and>
   CanonicalizeV1 sample_canonical = Inr sample_canonical"
  using sample_canonicalized canonicalize_idempotent [OF sample_canonicalized] by simp

theorem canonicalize_unique_witness:
  "\<exists>v v'. parse_document sample_text = Inr v \<and> parse_document sample_canonical = Inr v' \<and>
    norm_json v = norm_json v' \<and> parse_document sample_canonical = Inr (norm_json v)"
  using canonicalize_unique [OF sample_canonicalized sample_canonicalized_again]
  by blast

end
