(* ===== verification/Go_Decode.thy ===== *)
theory Go_Decode
  imports Canonical_Json
begin

text \<open>
  The part of \<open>encoding/json\<close> that decodes an object into a struct or a map: \<open>Decoder.Decode\<close> and
  \<open>Unmarshal\<close> on the token machine of \<open>Go_Json\<close>. A member's value is kept as the raw bytes it has in
  the text (\<open>json.RawMessage\<close>); a struct field takes the member whose key is its name, exactly or
  up to case folding.
\<close>

subsection \<open>Raw values\<close>

text \<open>The end of the value that starts here; \<open>k\<close> counts the containers still open.\<close>

function skip_tokens :: "nat \<Rightarrow> decoder \<Rightarrow> json_err + decoder" where
  "skip_tokens k d = (case dec_Token d of Inl e \<Rightarrow> Inl e
   | Inr (tok, d1) \<Rightarrow> (case tok of
       TDelim c \<Rightarrow> if c = CHR 0x7B \<or> c = CHR 0x5B then skip_tokens (Suc k) d1
         else if k \<le> 1 then Inr d1 else skip_tokens (k - 1) d1
     | _ \<Rightarrow> if k = 0 then Inr d1 else skip_tokens k d1))"
  by pat_completeness auto
termination
  by (relation "measure (\<lambda>(k, d). length (d_buf d))") (auto dest: dec_Token_shorter)

declare skip_tokens.simps [simp del]

lemma skip_tokens_shorter: "skip_tokens k d = Inr d' \<Longrightarrow> length (d_buf d') < length (d_buf d)"
proof (induction k d rule: skip_tokens.induct)
  case (1 k d)
  show ?case
  proof (cases "dec_Token d")
    case (Inl e)
    then show ?thesis using "1.prems" by (simp add: skip_tokens.simps [of k d])
  next
    case (Inr r)
    obtain tok d1 where r: "r = (tok, d1)" by (cases r)
    have s: "length (d_buf d1) < length (d_buf d)" using dec_Token_shorter Inr r by simp
    show ?thesis
      using "1.prems" "1.IH" [OF Inr r [symmetric]] s Inr r
      by (auto simp: skip_tokens.simps [of k d] split: token.splits if_splits dest: less_trans)
  qed
qed

text \<open>The members of the object whose opening brace has been read.\<close>

function object_members :: "(bytes \<times> bytes) list \<Rightarrow> decoder \<Rightarrow> json_err + (bytes \<times> bytes) list \<times> decoder" where
  "object_members acc d =
    (if dec_More d then
       (case dec_Token d of Inl e \<Rightarrow> Inl e
        | Inr (TString key, d1) \<Rightarrow> (case skip_tokens 0 d1 of Inl e \<Rightarrow> Inl e
            | Inr d2 \<Rightarrow> (let start = skip_ws (tl (skip_ws (d_buf d1))) in
                object_members (acc @ [(key, take (length start - length (d_buf d2)) start)]) d2))
        | Inr _ \<Rightarrow> Inl JsonSyntax)
     else (case dec_Token d of Inl e \<Rightarrow> Inl e
        | Inr (TDelim _, d1) \<Rightarrow> Inr (acc, d1)
        | Inr _ \<Rightarrow> Inl JsonSyntax))"
  by pat_completeness auto
termination
  by (relation "measure (\<lambda>(acc, d). length (d_buf d))")
    (auto dest!: dec_Token_shorter skip_tokens_shorter)

declare object_members.simps [simp del]

datatype decode_err = Malformed json_err | WrongType | UnknownField bytes

text \<open>
  \<open>Decoder.Decode\<close> of the first value of a text into a struct: its members, or nothing for the
  literal \<open>null\<close>. What follows the value is not looked at.
\<close>

definition Decode_object :: "bytes \<Rightarrow> decode_err + (bytes \<times> bytes) list option" where
  "Decode_object raw = (case dec_Token (NewDecoder raw) of Inl e \<Rightarrow> Inl (Malformed e)
     | Inr (TDelim c, d) \<Rightarrow> if c = CHR 0x7B
         then (case object_members [] d of Inl e \<Rightarrow> Inl (Malformed e) | Inr (ms, _) \<Rightarrow> Inr (Some ms))
         else Inl WrongType
     | Inr (TNull, _) \<Rightarrow> Inr None
     | Inr _ \<Rightarrow> Inl WrongType)"

text \<open>\<open>Unmarshal\<close> refuses anything but white space after the value.\<close>

definition only_value :: "bytes \<Rightarrow> bool" where
  "only_value raw = (case skip_tokens 0 (NewDecoder raw) of Inl _ \<Rightarrow> False | Inr d \<Rightarrow> skip_ws (d_buf d) = [])"

definition Unmarshal_object :: "bytes \<Rightarrow> decode_err + (bytes \<times> bytes) list option" where
  "Unmarshal_object raw = (if only_value raw then Decode_object raw else Inl (Malformed JsonSyntax))"

subsection \<open>Struct fields\<close>

text \<open>
  The case folding of \<open>encoding/json\<close>, as far as it can reach an ASCII field name: ASCII letters, the
  Kelvin sign and the long s.
\<close>

definition fold_rune :: "nat \<Rightarrow> nat" where
  "fold_rune r = (if 97 \<le> r \<and> r \<le> 122 then r - 32 else if r = 0x212A then 0x4B
     else if r = 0x17F then 0x53 else r)"

definition fold_name :: "bytes \<Rightarrow> nat list" where
  "fold_name s = map fold_rune (runes s)"

definition find_field :: "bytes list \<Rightarrow> bytes \<Rightarrow> bytes option" where
  "find_field names key = (if key \<in> set names then Some key
     else find (\<lambda>n. fold_name n = fold_name key) names)"

text \<open>With \<open>DisallowUnknownFields\<close>: every member belongs to a field.\<close>

fun match_fields :: "bytes list \<Rightarrow> (bytes \<times> bytes) list \<Rightarrow> decode_err + (bytes \<times> bytes) list" where
  "match_fields names [] = Inr []"
| "match_fields names ((key, raw) # ms) = (case find_field names key of None \<Rightarrow> Inl (UnknownField key)
     | Some n \<Rightarrow> (case match_fields names ms of Inl e \<Rightarrow> Inl e | Inr fs \<Rightarrow> Inr ((n, raw) # fs)))"

definition field_raws :: "bytes \<Rightarrow> (bytes \<times> bytes) list \<Rightarrow> bytes list" where
  "field_raws n fs = map snd (filter (\<lambda>(m, _). m = n) fs)"

text \<open>A \<open>json.RawMessage\<close> field keeps the last raw value; it is empty where there was none.\<close>

definition raw_field :: "bytes \<Rightarrow> (bytes \<times> bytes) list \<Rightarrow> bytes" where
  "raw_field n fs = (case rev (field_raws n fs) of [] \<Rightarrow> [] | r # _ \<Rightarrow> r)"

text \<open>A scalar field takes each value in turn; \<open>null\<close> leaves it as it is.\<close>

definition scalar_field :: "(token \<Rightarrow> 'a option) \<Rightarrow> 'a \<Rightarrow> bytes \<Rightarrow> (bytes \<times> bytes) list \<Rightarrow> decode_err + 'a" where
  "scalar_field of_token zero n fs = foldl (\<lambda>acc raw. case acc of Inl e \<Rightarrow> Inl e
     | Inr x \<Rightarrow> (case dec_Token (NewDecoder raw) of Inl e \<Rightarrow> Inl (Malformed e)
         | Inr (TNull, _) \<Rightarrow> Inr x
         | Inr (tok, _) \<Rightarrow> (case of_token tok of None \<Rightarrow> Inl WrongType | Some y \<Rightarrow> Inr y)))
     (Inr zero) (field_raws n fs)"

fun token_string :: "token \<Rightarrow> bytes option" where
  "token_string (TString s) = Some s"
| "token_string _ = None"

text \<open>\<open>strconv.ParseInt\<close> to 64 bits.\<close>

definition ParseInt :: "bytes \<Rightarrow> int option" where
  "ParseInt s = (let neg = (s \<noteq> [] \<and> hd s = CHR ''-'');
       ds = (if s \<noteq> [] \<and> (hd s = CHR ''-'' \<or> hd s = CHR ''+'') then tl s else s); n = digits_val ds in
     if ds = [] \<or> \<not> list_all is_digit ds then None
     else if neg then (if n \<le> 2 ^ 63 then Some (- int n) else None)
     else (if n < 2 ^ 63 then Some (int n) else None))"

fun token_int :: "token \<Rightarrow> int option" where
  "token_int (TNumber s) = ParseInt s"
| "token_int _ = None"

fun token_uint64 :: "token \<Rightarrow> uint64 option" where
  "token_uint64 (TNumber s) = ParseUint s"
| "token_uint64 _ = None"

subsection \<open>Skipping agrees with parsing\<close>

text \<open>
  Whatever value the strict parser reads, skipping over it stops at the same place.
\<close>

definition skip_after :: "nat \<Rightarrow> decoder \<Rightarrow> json_err + decoder" where
  "skip_after k d = (if k = 0 then Inr d else skip_tokens k d)"

lemma skip_open:
  "dec_Token d = Inr (TDelim c, d1) \<Longrightarrow> c = CHR 0x7B \<or> c = CHR 0x5B \<Longrightarrow> skip_tokens k d = skip_tokens (Suc k) d1"
  by (auto simp: skip_tokens.simps [of k d])

lemma skip_close:
  "dec_Token d = Inr (TDelim c, d1) \<Longrightarrow> c \<noteq> CHR 0x7B \<Longrightarrow> c \<noteq> CHR 0x5B \<Longrightarrow> skip_tokens (Suc k) d = skip_after k d1"
  by (auto simp: skip_tokens.simps [of "Suc k" d] skip_after_def)

lemma skip_literal:
  "dec_Token d = Inr (tok, d1) \<Longrightarrow> (\<And>c. tok \<noteq> TDelim c) \<Longrightarrow> skip_tokens k d = skip_after k d1"
  by (cases tok) (auto simp: skip_tokens.simps [of k d] skip_after_def)

lemma skip_parsed:
  "parse_value n d = Inr (v, d') \<Longrightarrow> skip_tokens k d = skip_after k d'"
  "parse_members n obj d = Inr (v, d') \<Longrightarrow> skip_tokens (Suc k) d = skip_after k d'"
  "parse_elements n arr d = Inr (v, d') \<Longrightarrow> skip_tokens (Suc k) d = skip_after k d'"
proof (induction n d and n obj d and n arr d arbitrary: v d' k and v d' k and v d' k
    rule: parse_value_parse_members_parse_elements.induct)
  case (2 n d)
  obtain tok d1 where t: "dec_Token d = Inr (tok, d1)"
    using "2.prems" by (auto split: sum.splits)
  show ?case
  proof (cases tok)
    case (TDelim c)
    consider "c = CHR 0x7B" | "c = CHR 0x5B" using "2.prems" t TDelim by (auto split: if_splits)
    then show ?thesis
    proof cases
      case 1
      then have "parse_members n [] d1 = Inr (v, d')" using "2.prems" t TDelim by simp
      then show ?thesis using "2.IH"(1) [OF t refl TDelim 1] skip_open t TDelim 1 by metis
    next
      case 2
      then have "parse_elements n [] d1 = Inr (v, d')" using "2.prems" t TDelim by simp
      then show ?thesis using "2.IH"(2) [OF t refl TDelim _ 2] skip_open t TDelim 2 by auto
    qed
  next
    case (TString s)
    then show ?thesis using "2.prems" t by (subst skip_literal [OF t]) (auto split: if_splits)
  next
    case (TNumber s)
    then show ?thesis using "2.prems" t by (subst skip_literal [OF t]) (auto split: if_splits)
  next
    case (TBool b)
    then show ?thesis using "2.prems" t by (subst skip_literal [OF t]) auto
  next
    case TNull
    then show ?thesis using "2.prems" t by (subst skip_literal [OF t]) auto
  qed
next
  case (4 n obj d)
  obtain tok d1 where t: "dec_Token d = Inr (tok, d1)"
    using "4.prems" by (auto split: sum.splits if_splits)
  show ?case
  proof (cases "dec_More d")
    case True
    obtain key d2 u where k: "tok = TString key" "parse_value n d1 = Inr (u, d2)"
        "parse_members n (obj @ [(key, u)]) d2 = Inr (v, d')" "key \<notin> set (map fst obj)"
      using "4.prems" t True by (auto split: token.splits sum.splits if_splits)
    have "skip_tokens (Suc k) d = skip_after (Suc k) d1" by (rule skip_literal [OF t]) (simp add: k(1))
    also have "\<dots> = skip_tokens (Suc k) d1" by (simp add: skip_after_def)
    also have "\<dots> = skip_after (Suc k) d2" using "4.IH"(1) [OF True t _ k(1) k(4) k(2)] by simp
    also have "\<dots> = skip_tokens (Suc k) d2" by (simp add: skip_after_def)
    also have "\<dots> = skip_after k d'" using "4.IH"(2) [OF True t _ k(1) k(4) k(2) _ k(3)] by simp
    finally show ?thesis .
  next
    case False
    then have "tok = TDelim (CHR 0x7D)" "d' = d1"
      using "4.prems" t by (auto split: token.splits sum.splits if_splits)
    then show ?thesis using skip_close [of d "CHR 0x7D" d1 k] t by simp
  qed
next
  case (6 n arr d)
  show ?case
  proof (cases "dec_More d")
    case True
    obtain u d1 where k: "parse_value n d = Inr (u, d1)" "parse_elements n (arr @ [u]) d1 = Inr (v, d')"
      using "6.prems" True by (auto split: sum.splits if_splits)
    have "skip_tokens (Suc k) d = skip_after (Suc k) d1" using "6.IH"(1) [OF True k(1)] by simp
    also have "\<dots> = skip_tokens (Suc k) d1" by (simp add: skip_after_def)
    also have "\<dots> = skip_after k d'" using "6.IH"(2) [OF True k(1) _ k(2)] by simp
    finally show ?thesis .
  next
    case False
    then have "dec_Token d = Inr (TDelim (CHR 0x5D), d')"
      using "6.prems" by (auto split: token.splits sum.splits if_splits)
    then show ?thesis using skip_close [of d "CHR 0x5D" d' k] by simp
  qed
qed simp_all

subsection \<open>Objects written member by member\<close>

definition scans :: "bytes \<Rightarrow> bool" where
  "scans raw \<longleftrightarrow> starts_value raw \<and> (\<forall>st ps rest. value_allowed st \<longrightarrow> value_follow rest \<longrightarrow>
     skip_tokens 0 (dec_at (raw @ rest) st ps) = Inr (dec_at rest (value_end st) ps))"

lemma scans_emit: "wf_json v \<Longrightarrow> scans (emitCanonicalJSONValue v)"
  unfolding scans_def
proof (intro conjI allI impI)
  assume v: "wf_json v"
  show "starts_value (emitCanonicalJSONValue v)" using starts_value_emit [OF v, of "[]"] by simp
  fix st ps rest assume s: "value_allowed st" "value_follow rest"
  have "skip_tokens 0 (dec_at (emitCanonicalJSONValue v @ rest) st ps) = skip_after 0 (dec_at rest (value_end st) ps)"
    by (rule skip_parsed(1) [OF parses_backD [OF parses_back_wf [OF v] s order_refl]])
  then show "skip_tokens 0 (dec_at (emitCanonicalJSONValue v @ rest) st ps) = Inr (dec_at rest (value_end st) ps)"
    by (simp add: skip_after_def)
qed

lemma scansD: "scans raw \<Longrightarrow> value_allowed st \<Longrightarrow> value_follow rest \<Longrightarrow>
    skip_tokens 0 (dec_at (raw @ rest) st ps) = Inr (dec_at rest (value_end st) ps)"
  by (simp add: scans_def)

lemma skip_ws_starts: "starts_value s \<Longrightarrow> skip_ws (s @ rest) = s @ rest"
  by (cases s) (auto simp: starts_value_def)

lemma skip_tokens_colon [simp]:
  "skip_tokens k (dec_at (CHR '':'' # s) TokObjectColon ps) = skip_tokens k (dec_at s TokObjectValue ps)"
  by (simp add: skip_tokens.simps [of k "dec_at _ TokObjectColon ps"] skip_tokens.simps [of k "dec_at s TokObjectValue ps"])

definition member_text :: "bytes \<times> bytes \<Rightarrow> bytes" where
  "member_text m = emitCanonicalJSONString (fst m) @ CHR '':'' # snd m"

definition object_text :: "(bytes \<times> bytes) list \<Rightarrow> bytes" where
  "object_text ms = CHR 0x7B # join_comma (map member_text ms) @ [CHR 0x7D]"

lemma object_member:
  assumes "utf8_valid k" "scans raw" "value_follow rest" "st = TokObjectStart \<or> st = TokObjectKey"
  shows "object_members acc (dec_at (member_text (k, raw) @ rest) st ps)
    = object_members (acc @ [(k, raw)]) (dec_at rest TokObjectComma ps)"
proof -
  have "dec_More (dec_at (member_text (k, raw) @ rest) st ps)"
    using starts_value_string by (simp add: member_text_def)
  moreover have "dec_Token (dec_at (member_text (k, raw) @ rest) st ps)
      = Inr (TString k, dec_at (CHR '':'' # raw @ rest) TokObjectColon ps)"
    using assms(1,4) by (simp add: member_text_def)
  moreover have "skip_tokens 0 (dec_at (CHR '':'' # raw @ rest) TokObjectColon ps) = Inr (dec_at rest TokObjectComma ps)"
    using scansD [OF assms(2) _ assms(3), of TokObjectValue ps] by simp
  ultimately show ?thesis
    using assms(2) by (simp add: object_members.simps [of acc "dec_at (_ @ rest) st ps"] Let_def scans_def skip_ws_starts)
qed

lemma object_members_comma:
  "object_members acc (dec_at (CHR '','' # member_text m @ s) TokObjectComma ps)
    = object_members acc (dec_at (member_text m @ s) TokObjectKey ps)"
proof -
  have "dec_More (dec_at (member_text m @ s) TokObjectKey ps)"
    using starts_value_string by (simp add: member_text_def)
  then show ?thesis
    by (simp add: object_members.simps [of acc "dec_at (_ # _) TokObjectComma ps"]
        object_members.simps [of acc "dec_at (member_text m @ s) TokObjectKey ps"])
qed

lemma object_members_close:
  "st = TokObjectStart \<or> st = TokObjectComma \<Longrightarrow>
    object_members acc (dec_at (CHR 0x7D # rest) st (p # ps)) = Inr (acc, dec_at rest (value_end p) ps)"
  by (auto simp: object_members.simps [of acc "dec_at (_ # _) _ _"])

lemma object_members_rest:
  assumes "list_all (\<lambda>(k, raw). utf8_valid k \<and> scans raw) ms"
  shows "object_members acc (dec_at (concat (map (\<lambda>y. CHR '','' # y) (map member_text ms)) @ CHR 0x7D # rest)
      TokObjectComma (p # ps)) = Inr (acc @ ms, dec_at rest (value_end p) ps)"
  using assms
proof (induction ms arbitrary: acc)
  case Nil
  then show ?case by (simp add: object_members_close)
next
  case (Cons m ms)
  obtain k raw where m: "m = (k, raw)" by (cases m)
  let ?s = "concat (map (\<lambda>y. CHR '','' # y) (map member_text ms)) @ CHR 0x7D # rest"
  have vf: "value_follow ?s" by (rule value_follow_commas)
  have "object_members acc (dec_at (CHR '','' # member_text m @ ?s) TokObjectComma (p # ps))
      = object_members (acc @ [m]) (dec_at ?s TokObjectComma (p # ps))"
    using Cons.prems object_member [OF _ _ vf, of k raw] m by (simp add: object_members_comma del: map_map)
  then show ?case using Cons by (simp del: map_map)
qed

lemma Decode_object_text:
  assumes "list_all (\<lambda>(k, raw). utf8_valid k \<and> scans raw) ms"
  shows "Decode_object (object_text ms @ rest) = Inr (Some ms)"
proof (cases ms)
  case Nil
  then show ?thesis
    by (simp add: Decode_object_def NewDecoder_def object_text_def object_members_close)
next
  case (Cons m ms')
  obtain k raw where m: "m = (k, raw)" by (cases m)
  let ?s = "concat (map (\<lambda>y. CHR '','' # y) (map member_text ms')) @ CHR 0x7D # rest"
  have vf: "value_follow ?s" by (rule value_follow_commas)
  have t: "object_text ms @ rest = CHR 0x7B # member_text m @ ?s"
    by (simp add: object_text_def Cons join_comma_Cons)
  have "object_members [] (dec_at (member_text m @ ?s) TokObjectStart [TokTop]) = Inr (m # ms', dec_at rest TokTop [])"
    using assms object_member [OF _ _ vf, of k raw TokObjectStart "[]" "[TokTop]"] object_members_rest [of ms' "[m]" rest TokTop "[]"]
    by (simp add: Cons m del: map_map)
  then show ?thesis unfolding t by (simp add: Decode_object_def NewDecoder_def Cons)
qed

text \<open>A text in plain ASCII prints as itself between quotes.\<close>

definition plain_char :: "char \<Rightarrow> bool" where
  "plain_char c = (0x20 \<le> bval c \<and> bval c < 0x80 \<and> c \<noteq> CHR 0x22 \<and> c \<noteq> CHR 0x5C)"

lemma runes_ascii: "list_all (\<lambda>c. bval c < 0x80) s \<Longrightarrow> runes s = map of_char s"
  by (induction s) (simp_all add: runes.simps [of "_ # _"])

lemma emit_plain: "list_all plain_char s \<Longrightarrow> emitCanonicalJSONString s = CHR 0x22 # s @ [CHR 0x22]"
proof -
  assume s: "list_all plain_char s"
  have "emit_rune (bval c) = [c]" if "plain_char c" for c
  proof -
    have e: "char_of (34::nat) = CHR 0x22" "char_of (92::nat) = CHR 0x5C" by (simp_all add: char_of_eq_iff)
    have "bval c \<noteq> 0x22" "bval c \<noteq> 0x5C"
      using that char_of_eq_iff [of "0x22::nat" c] char_of_eq_iff [of "0x5C::nat" c] by (auto simp: plain_char_def e)
    then show ?thesis using that by (simp add: emit_rune_def plain_char_def EncodeRune_ascii)
  qed
  then have "concat (map emit_rune (map of_char s)) = s" using s by (induction s) auto
  moreover have "list_all (\<lambda>c. bval c < 0x80) s" using s by (auto simp: plain_char_def list_all_iff)
  ultimately show ?thesis by (simp add: emitCanonicalJSONString_def runes_ascii)
qed

lemma plain_valid: "list_all plain_char s \<Longrightarrow> utf8_valid s \<and> CHR 0x00 \<notin> set s"
proof (intro conjI notI)
  assume s: "list_all plain_char s"
  show "utf8_valid s" by (rule utf8_valid_ascii, rule list.pred_mono_strong [OF s]) (simp add: plain_char_def)
  assume "CHR 0x00 \<in> set s"
  then have "plain_char (CHR 0x00)" using s by (simp only: list_all_iff)
  then show False by (simp add: plain_char_def)
qed

subsection \<open>Arrays, nested structs and unknown members\<close>

text \<open>The elements of the array whose opening bracket has been read, as raw values.\<close>

function array_elements :: "bytes list \<Rightarrow> decoder \<Rightarrow> json_err + bytes list \<times> decoder" where
  "array_elements acc d =
    (if dec_More d then
       (case skip_tokens 0 d of Inl e \<Rightarrow> Inl e
        | Inr d2 \<Rightarrow> (let s = skip_ws (d_buf d);
              start = (if d_state d = TokArrayComma then skip_ws (tl s) else s) in
            array_elements (acc @ [take (length start - length (d_buf d2)) start]) d2))
     else (case dec_Token d of Inl e \<Rightarrow> Inl e
        | Inr (TDelim _, d1) \<Rightarrow> Inr (acc, d1)
        | Inr _ \<Rightarrow> Inl JsonSyntax))"
  by pat_completeness auto
termination
  by (relation "measure (\<lambda>(acc, d). length (d_buf d))") (auto dest!: skip_tokens_shorter)

declare array_elements.simps [simp del]

definition Decode_array :: "bytes \<Rightarrow> decode_err + bytes list option" where
  "Decode_array raw = (case dec_Token (NewDecoder raw) of Inl e \<Rightarrow> Inl (Malformed e)
     | Inr (TDelim c, d) \<Rightarrow> if c = CHR 0x5B
         then (case array_elements [] d of Inl e \<Rightarrow> Inl (Malformed e) | Inr (es, _) \<Rightarrow> Inr (Some es))
         else Inl WrongType
     | Inr (TNull, _) \<Rightarrow> Inr None
     | Inr _ \<Rightarrow> Inl WrongType)"

text \<open>Without \<open>DisallowUnknownFields\<close> a member that belongs to no field is passed over.\<close>

fun known_fields :: "bytes list \<Rightarrow> (bytes \<times> bytes) list \<Rightarrow> (bytes \<times> bytes) list" where
  "known_fields names [] = []"
| "known_fields names ((key, raw) # ms) = (case find_field names key of None \<Rightarrow> known_fields names ms
     | Some n \<Rightarrow> (n, raw) # known_fields names ms)"

text \<open>
  A slice field. The elements are decoded one by one into the slots the slice already has: a field
  given twice (under names that differ in case) is decoded over its earlier value, and a slot beyond
  the current length keeps what it held. \<open>dec\<close> decodes a raw value over an old one.
\<close>

fun decode_slots :: "('a \<Rightarrow> bytes \<Rightarrow> decode_err + 'a) \<Rightarrow> 'a \<Rightarrow> 'a list \<Rightarrow> bytes list \<Rightarrow> decode_err + 'a list" where
  "decode_slots dec zero slots [] = Inr slots"
| "decode_slots dec zero slots (raw # raws) =
    (case dec (case slots of [] \<Rightarrow> zero | x # _ \<Rightarrow> x) raw of Inl e \<Rightarrow> Inl e
     | Inr y \<Rightarrow> (case decode_slots dec zero (tl slots) raws of Inl e \<Rightarrow> Inl e | Inr ys \<Rightarrow> Inr (y # ys)))"

definition slice_field :: "('a \<Rightarrow> bytes \<Rightarrow> decode_err + 'a) \<Rightarrow> 'a \<Rightarrow> bytes \<Rightarrow> (bytes \<times> bytes) list \<Rightarrow> decode_err + 'a list" where
  "slice_field dec zero n fs = map_sum id (\<lambda>(slots, len). take len slots)
     (foldl (\<lambda>acc raw. case acc of Inl e \<Rightarrow> Inl e
        | Inr (slots, _) \<Rightarrow> (case Decode_array raw of Inl e \<Rightarrow> Inl e
            | Inr None \<Rightarrow> Inr ([], 0)
            | Inr (Some raws) \<Rightarrow> map_sum id (\<lambda>s. (s, length raws)) (decode_slots dec zero slots raws)))
      (Inr ([], 0)) (field_raws n fs))"

text \<open>A nested struct is decoded over its earlier value; \<open>null\<close> leaves it.\<close>

definition nested_struct :: "bytes list \<Rightarrow> (('a \<Rightarrow> (bytes \<times> bytes) list \<Rightarrow> decode_err + 'a)) \<Rightarrow> 'a \<Rightarrow> bytes \<Rightarrow> decode_err + 'a" where
  "nested_struct names fill old raw = (case Decode_object raw of Inl e \<Rightarrow> Inl e
     | Inr None \<Rightarrow> Inr old
     | Inr (Some ms) \<Rightarrow> fill old (known_fields names ms))"

text \<open>The same with \<open>DisallowUnknownFields\<close>.\<close>

definition strict_struct :: "bytes list \<Rightarrow> (('a \<Rightarrow> (bytes \<times> bytes) list \<Rightarrow> decode_err + 'a)) \<Rightarrow> 'a \<Rightarrow> bytes \<Rightarrow> decode_err + 'a" where
  "strict_struct names fill old raw = (case Decode_object raw of Inl e \<Rightarrow> Inl e
     | Inr None \<Rightarrow> Inr old
     | Inr (Some ms) \<Rightarrow> (case match_fields names ms of Inl e \<Rightarrow> Inl e | Inr fs \<Rightarrow> fill old fs))"

text \<open>\<open>json.Unmarshal\<close> into a struct: the input is one value, and nothing follows it.\<close>

definition Unmarshal_struct :: "bytes list \<Rightarrow> (('a \<Rightarrow> (bytes \<times> bytes) list \<Rightarrow> decode_err + 'a)) \<Rightarrow> 'a \<Rightarrow> bytes \<Rightarrow> decode_err + 'a" where
  "Unmarshal_struct names fill zero raw =
    (if only_value raw then nested_struct names fill zero raw else Inl (Malformed JsonSyntax))"

subsection \<open>Arrays written element by element\<close>

definition array_text :: "bytes list \<Rightarrow> bytes" where
  "array_text raws = CHR 0x5B # join_comma raws @ [CHR 0x5D]"

lemma skip_tokens_comma:
  "skip_tokens k (dec_at (CHR '','' # s) TokArrayComma ps) = skip_tokens k (dec_at s TokArrayValue ps)"
  by (simp add: skip_tokens.simps [of k "dec_at _ TokArrayComma ps"] skip_tokens.simps [of k "dec_at s TokArrayValue ps"])

lemma starts_value_append: "starts_value a \<Longrightarrow> starts_value (a @ b)"
  by (auto simp: starts_value_def)

lemma array_first:
  assumes "scans raw" "value_follow rest"
  shows "array_elements acc (dec_at (raw @ rest) TokArrayStart ps)
    = array_elements (acc @ [raw]) (dec_at rest TokArrayComma ps)"
proof -
  have "dec_More (dec_at (raw @ rest) TokArrayStart ps)" using assms(1) starts_value_append by (simp add: scans_def)
  moreover have "skip_tokens 0 (dec_at (raw @ rest) TokArrayStart ps) = Inr (dec_at rest TokArrayComma ps)"
    using scansD [OF assms(1) _ assms(2), of TokArrayStart ps] by simp
  ultimately show ?thesis
    using assms(1) by (simp add: array_elements.simps [of acc "dec_at (_ @ rest) _ ps"] Let_def scans_def skip_ws_starts)
qed

lemma array_next:
  assumes "scans raw" "value_follow rest"
  shows "array_elements acc (dec_at (CHR '','' # raw @ rest) TokArrayComma ps)
    = array_elements (acc @ [raw]) (dec_at rest TokArrayComma ps)"
proof -
  have "skip_tokens 0 (dec_at (CHR '','' # raw @ rest) TokArrayComma ps) = Inr (dec_at rest TokArrayComma ps)"
    using scansD [OF assms(1) _ assms(2), of TokArrayValue ps] by (simp add: skip_tokens_comma)
  then show ?thesis
    using assms(1) by (simp add: array_elements.simps [of acc "dec_at (_ # _) _ ps"] Let_def scans_def skip_ws_starts)
qed

lemma array_close:
  "st = TokArrayStart \<or> st = TokArrayComma \<Longrightarrow>
    array_elements acc (dec_at (CHR 0x5D # rest) st (p # ps)) = Inr (acc, dec_at rest (value_end p) ps)"
  by (auto simp: array_elements.simps [of acc "dec_at (_ # _) _ _"])

lemma array_rest:
  assumes "list_all scans raws"
  shows "array_elements acc (dec_at (concat (map (\<lambda>y. CHR '','' # y) raws) @ CHR 0x5D # rest)
      TokArrayComma (p # ps)) = Inr (acc @ raws, dec_at rest (value_end p) ps)"
  using assms
proof (induction raws arbitrary: acc)
  case Nil
  then show ?case by (simp add: array_close)
next
  case (Cons raw raws)
  let ?s = "concat (map (\<lambda>y. CHR '','' # y) raws) @ CHR 0x5D # rest"
  have vf: "value_follow ?s" by (rule value_follow_commas)
  show ?case using Cons array_next [OF _ vf, of raw] by simp
qed

lemma Decode_array_text:
  assumes "list_all scans raws"
  shows "Decode_array (array_text raws) = Inr (Some raws)"
proof (cases raws)
  case Nil
  then show ?thesis by (simp add: Decode_array_def NewDecoder_def array_text_def array_close)
next
  case (Cons raw rs)
  let ?s = "concat (map (\<lambda>y. CHR '','' # y) rs) @ [CHR 0x5D]"
  have vf: "value_follow ?s" by (rule value_follow_commas)
  have t: "array_text raws = CHR 0x5B # raw @ ?s" by (simp add: array_text_def Cons join_comma_Cons)
  have "array_elements [] (dec_at (raw @ ?s) TokArrayStart [TokTop]) = Inr (raw # rs, dec_at [] TokTop [])"
    using assms array_first [OF _ vf, of raw "[]" "[TokTop]"] array_rest [of rs "[raw]" "[]" TokTop "[]"]
    by (simp add: Cons)
  then show ?thesis unfolding t by (simp add: Decode_array_def NewDecoder_def Cons)
qed

lemma emit_array: "emitCanonicalJSONValue (JArr vs) = array_text (map emitCanonicalJSONValue vs)"
  by (simp add: array_text_def)

lemma emit_sorted_members:
  assumes "sorted (map fst ms)"
  shows "emitCanonicalJSONValue (JObj ms) = object_text (map (\<lambda>(k, v). (k, emitCanonicalJSONValue v)) ms)"
proof -
  have "sort_key fst ms = ms" using assms by (simp add: sort_key_id_if_sorted)
  then show ?thesis by (simp add: object_text_def member_text_def comp_def split_def)
qed

text \<open>A canonical document decodes member by member, element by element.\<close>

lemma Decode_emit_object:
  assumes "wf_json (JObj ms)" "sorted (map fst ms)"
  shows "Decode_object (emitCanonicalJSONValue (JObj ms)) = Inr (Some (map (\<lambda>(k, v). (k, emitCanonicalJSONValue v)) ms))"
  unfolding emit_sorted_members [OF assms(2)] using assms(1)
  by (intro Decode_object_text [where rest = "[]", simplified]) (auto simp: list_all_iff scans_emit)

lemma Decode_emit_array:
  assumes "wf_json (JArr vs)"
  shows "Decode_array (emitCanonicalJSONValue (JArr vs)) = Inr (Some (map emitCanonicalJSONValue vs))"
  unfolding emit_array using assms by (intro Decode_array_text) (auto simp: list_all_iff scans_emit)

lemma only_value_emit: "wf_json v \<Longrightarrow> only_value (emitCanonicalJSONValue v)"
  using scansD [OF scans_emit, of v TokTop "[]" "[]"] by (simp add: only_value_def NewDecoder_def)

lemma known_fields_exact: "set (map fst ms) \<subseteq> set names \<Longrightarrow> known_fields names ms = ms"
  by (induction ms) (auto simp: find_field_def)

subsection \<open>One member, one field\<close>

lemma token_emit_string: "utf8_valid s \<Longrightarrow> dec_Token (NewDecoder (emitCanonicalJSONString s)) = Inr (TString s, dec_at [] TokTop [])"
  using tok_string [of s TokTop "[]" "[]"] by (simp add: NewDecoder_def)

lemma token_number: "canonicalJSONNumber x \<Longrightarrow> dec_Token (NewDecoder x) = Inr (TNumber x, dec_at [] TokTop [])"
  using tok_number [of x TokTop "[]" "[]"] by (simp add: NewDecoder_def)

lemma scalar_field_one:
  assumes "field_raws n fs = [raw]" "dec_Token (NewDecoder raw) = Inr (tok, d)" "tok \<noteq> TNull" "of_token tok = Some y"
  shows "scalar_field of_token zero n fs = Inr y"
  using assms by (cases tok) (auto simp: scalar_field_def)

lemma scalar_field_none: "field_raws n fs = [] \<Longrightarrow> scalar_field of_token zero n fs = Inr zero"
  by (simp add: scalar_field_def)

lemma match_fields_exact: "set (map fst ms) \<subseteq> set names \<Longrightarrow> match_fields names ms = Inr ms"
  by (induction ms) (auto simp: find_field_def)

lemma scans_string: "utf8_valid s \<Longrightarrow> CHR 0x00 \<notin> set s \<Longrightarrow> scans (emitCanonicalJSONString s)"
  using scans_emit [of "JStr s"] by simp

lemma scans_number: "canonicalJSONNumber x \<Longrightarrow> scans x"
  using scans_emit [of "JNum x"] by simp

lemma hex_plain: "list_all plain_char (hex_encode s)"
proof -
  have "plain_char (hex_digit d)" if "d < 16" for d
  proof -
    have "48 \<le> bval (hex_digit d)" "bval (hex_digit d) \<le> 102" "bval (hex_digit d) \<noteq> 0x5C"
      using bval_hex_digit [OF that] that by (auto split: if_splits)
    then show ?thesis by (auto simp: plain_char_def)
  qed
  moreover have "bval c div 16 < 16" for c using bval_less [of c] by linarith
  ultimately show ?thesis by (induction s) simp_all
qed

end
