(* ===== verification/Fs.thy ===== *)
theory Fs
  imports Prelude "HOL-Library.AList"
begin

text \<open>
  The file system calls the record keeper makes, and \<open>internal/atomicfile\<close> on top of them (the
  non-Windows files \<open>write.go\<close> and \<open>publish_link.go\<close>).

  A \<open>world\<close> is one directory: its file names with their contents, a clock, and a plan of faults.
  Every system call consumes one entry of the plan: \<open>None\<close> lets it succeed, \<open>Some n\<close> makes it fail,
  a write having put down the first \<open>n\<close> of its bytes. A statement for every plan therefore also
  covers a process that dies at any call: the files it leaves are those of the plan in which all
  later calls fail. An exhausted plan means no further faults.
\<close>

datatype io_err = ErrNotExist | ErrExist | ErrIO | ErrUnsupported

record world =
  files :: "(bytes \<times> bytes) list"
  plan :: "nat option list"
  clock :: nat

type_synonym 'a io = "world \<Rightarrow> (io_err + 'a) \<times> world"

definition contents :: "world \<Rightarrow> bytes \<rightharpoonup> bytes" where
  "contents w = map_of (files w)"

definition set_file :: "bytes \<Rightarrow> bytes \<Rightarrow> world \<Rightarrow> world" where
  "set_file path data w = w\<lparr>files := AList.update path data (files w)\<rparr>"

definition del_file :: "bytes \<Rightarrow> world \<Rightarrow> world" where
  "del_file path w = w\<lparr>files := AList.delete path (files w)\<rparr>"

fun next_fault :: "world \<Rightarrow> nat option \<times> world" where
  "next_fault w = (case plan w of [] \<Rightarrow> (None, w) | f # p \<Rightarrow> (f, w\<lparr>plan := p\<rparr>))"

definition io_return :: "'a \<Rightarrow> 'a io" where
  "io_return x w = (Inr x, w)"

definition io_bind :: "'a io \<Rightarrow> ('a \<Rightarrow> 'b io) \<Rightarrow> 'b io" where
  "io_bind m k w = (case m w of (Inl e, w') \<Rightarrow> (Inl e, w') | (Inr x, w') \<Rightarrow> k x w')"

definition io_then :: "'a io \<Rightarrow> 'b io \<Rightarrow> 'b io" where
  "io_then m k = io_bind m (\<lambda>_. k)"

text \<open>\<open>on_fail m h\<close>: the deferred clean-up \<open>h\<close> of a call that failed; its own outcome is dropped.\<close>

definition on_fail :: "'a io \<Rightarrow> 'b io \<Rightarrow> 'a io" where
  "on_fail m h w = (case m w of (Inl e, w') \<Rightarrow> (Inl e, snd (h w')) | (Inr x, w') \<Rightarrow> (Inr x, w'))"

definition io_ignore :: "'a io \<Rightarrow> unit io" where
  "io_ignore m w = (Inr (), snd (m w))"

subsection \<open>System calls\<close>

text \<open>A call with no effect on names and contents: chmod, fsync, close, seek, locking.\<close>

definition os_touch :: "unit io" where
  "os_touch w = (case next_fault w of (None, w') \<Rightarrow> (Inr (), w') | (Some _, w') \<Rightarrow> (Inl ErrIO, w'))"

definition os_ReadFile :: "bytes \<Rightarrow> bytes io" where
  "os_ReadFile path w = (case next_fault w of
      (Some _, w') \<Rightarrow> (Inl ErrIO, w')
    | (None, w') \<Rightarrow> (case contents w' path of None \<Rightarrow> (Inl ErrNotExist, w') | Some s \<Rightarrow> (Inr s, w')))"

text \<open>\<open>OpenFile\<close> with \<open>O_CREATE|O_EXCL\<close>: a new empty file.\<close>

definition os_Create :: "bytes \<Rightarrow> unit io" where
  "os_Create path w = (case next_fault w of
      (Some _, w') \<Rightarrow> (Inl ErrIO, w')
    | (None, w') \<Rightarrow> (case contents w' path of None \<Rightarrow> (Inr (), set_file path [] w') | Some _ \<Rightarrow> (Inl ErrExist, w')))"

text \<open>\<open>OpenFile\<close> with \<open>O_CREATE|O_APPEND\<close>: an empty file where there was none.\<close>

definition os_OpenAppend :: "bytes \<Rightarrow> unit io" where
  "os_OpenAppend path w = (case next_fault w of
      (Some _, w') \<Rightarrow> (Inl ErrIO, w')
    | (None, w') \<Rightarrow> (Inr (), case contents w' path of None \<Rightarrow> set_file path [] w' | Some _ \<Rightarrow> w'))"

definition os_Append :: "bytes \<Rightarrow> bytes \<Rightarrow> unit io" where
  "os_Append path data w = (case next_fault w of (f, w') \<Rightarrow>
     (case contents w' path of None \<Rightarrow> (Inl ErrNotExist, w')
      | Some s \<Rightarrow> (case f of
            None \<Rightarrow> (Inr (), set_file path (s @ data) w')
          | Some n \<Rightarrow> (Inl ErrIO, set_file path (s @ take n data) w'))))"

definition os_Truncate :: "bytes \<Rightarrow> nat \<Rightarrow> unit io" where
  "os_Truncate path n w = (case next_fault w of
      (Some _, w') \<Rightarrow> (Inl ErrIO, w')
    | (None, w') \<Rightarrow> (case contents w' path of None \<Rightarrow> (Inl ErrNotExist, w')
        | Some s \<Rightarrow> (Inr (), set_file path (take n s) w')))"

definition os_Rename :: "bytes \<Rightarrow> bytes \<Rightarrow> unit io" where
  "os_Rename a b w = (case next_fault w of
      (Some _, w') \<Rightarrow> (Inl ErrIO, w')
    | (None, w') \<Rightarrow> (case contents w' a of None \<Rightarrow> (Inl ErrNotExist, w')
        | Some s \<Rightarrow> (Inr (), if a = b then w' else set_file b s (del_file a w'))))"

definition os_Link :: "bytes \<Rightarrow> bytes \<Rightarrow> unit io" where
  "os_Link a b w = (case next_fault w of
      (Some _, w') \<Rightarrow> (Inl ErrIO, w')
    | (None, w') \<Rightarrow> (case contents w' a of None \<Rightarrow> (Inl ErrNotExist, w')
        | Some s \<Rightarrow> (case contents w' b of Some _ \<Rightarrow> (Inl ErrExist, w') | None \<Rightarrow> (Inr (), set_file b s w'))))"

definition os_Remove :: "bytes \<Rightarrow> unit io" where
  "os_Remove path w = (case next_fault w of
      (Some _, w') \<Rightarrow> (Inl ErrIO, w')
    | (None, w') \<Rightarrow> (case contents w' path of None \<Rightarrow> (Inl ErrNotExist, w') | Some _ \<Rightarrow> (Inr (), del_file path w')))"

text \<open>\<open>os.ReadDir\<close>: the names, sorted.\<close>

definition os_ReadDir :: "bytes list io" where
  "os_ReadDir w = (case next_fault w of
      (Some _, w') \<Rightarrow> (Inl ErrIO, w') | (None, w') \<Rightarrow> (Inr (sort (remdups (map fst (files w')))), w'))"

definition time_Now :: "nat io" where
  "time_Now w = (Inr (clock w), w\<lparr>clock := Suc (clock w)\<rparr>)"

text \<open>\<open>os.CreateTemp\<close>: an unused name between the prefix and the suffix.\<close>

definition os_CreateTemp :: "bytes \<Rightarrow> bytes \<Rightarrow> bytes io" where
  "os_CreateTemp pre suf w =
    (case find (\<lambda>n. contents w (pre @ format_nat n @ suf) = None) [clock w ..< clock w + length (files w) + 1] of
       None \<Rightarrow> (Inl ErrExist, w)
     | Some n \<Rightarrow> io_then (os_Create (pre @ format_nat n @ suf)) (io_return (pre @ format_nat n @ suf)) w)"

subsection \<open>The package atomicfile\<close>

definition SyncDir :: "unit io" where
  "SyncDir = io_then os_touch os_touch"

definition Rename :: "bytes \<Rightarrow> bytes \<Rightarrow> unit io" where
  "Rename = os_Rename"

text \<open>\<open>unstage\<close> keeps the error of its call; what it does is to remove the temporary file.\<close>

definition unstage :: "bytes \<Rightarrow> 'a io \<Rightarrow> 'a io" where
  "unstage tmp m = on_fail m (os_Remove tmp)"

definition stage :: "bytes \<Rightarrow> bytes \<Rightarrow> bool \<Rightarrow> bytes io" where
  "stage path data ownerOnly = io_bind (os_CreateTemp (CHR ''.'' # path @ ''.tmp-'') []) (\<lambda>tmp.
     unstage tmp (io_then (on_fail
       (io_then (if ownerOnly then os_touch else io_return ())
       (io_then os_touch
       (io_then (os_Append tmp data)
       os_touch))) os_touch)
     (io_then os_touch (io_return tmp))))"

text \<open>
  \<open>PublishNew\<close> returns whether the new name was made besides its error; a call that returns
  \<open>(published, err)\<close> has no short-circuit on \<open>err\<close>, so it is a function to both.
\<close>

definition PublishNew :: "bytes \<Rightarrow> bytes \<Rightarrow> world \<Rightarrow> (bool \<times> io_err option) \<times> world" where
  "PublishNew oldPath newPath w = (case io_then os_touch (os_Link oldPath newPath) w of
      (Inl e, w') \<Rightarrow> ((False, Some e), w')
    | (Inr _, w') \<Rightarrow> (case io_then (os_Remove oldPath) os_touch w' of
          (Inl e, w'') \<Rightarrow> ((True, Some e), w'')
        | (Inr _, w'') \<Rightarrow> ((True, None), w'')))"

text \<open>What \<open>WriteNew\<close> and \<open>WriteReplace\<close> share: stage the bytes, publish them, unstage after a failure.\<close>

type_synonym publish = "bytes \<Rightarrow> bytes \<Rightarrow> world \<Rightarrow> (bool \<times> io_err option) \<times> world"

definition write_staged :: "publish \<Rightarrow> bytes \<Rightarrow> bytes \<Rightarrow> bool \<Rightarrow> world \<Rightarrow> (bool \<times> io_err option) \<times> world" where
  "write_staged publish path data ownerOnly w = (case stage path data ownerOnly w of
      (Inl e, w') \<Rightarrow> ((False, Some e), w')
    | (Inr tmp, w') \<Rightarrow> (case publish tmp path w' of
          ((published, None), w'') \<Rightarrow> ((published, None), w'')
        | ((published, Some e), w'') \<Rightarrow> ((published, Some e), snd (os_Remove tmp w''))))"

definition WriteNew :: "bytes \<Rightarrow> bytes \<Rightarrow> bool \<Rightarrow> world \<Rightarrow> (bool \<times> io_err option) \<times> world" where
  "WriteNew = write_staged PublishNew"

subsection \<open>What the calls change\<close>

lemma contents_set_file [simp]: "contents (set_file p d w) = (contents w)(p \<mapsto> d)"
  by (simp add: contents_def set_file_def update_conv')

lemma contents_del_file [simp]: "contents (del_file p w) = (contents w)(p := None)"
  by (simp add: contents_def del_file_def delete_conv')

lemma contents_plan [simp]: "contents (w\<lparr>plan := p\<rparr>) = contents w"
  by (simp add: contents_def)

lemma contents_clock [simp]: "contents (w\<lparr>clock := n\<rparr>) = contents w"
  by (simp add: contents_def)

lemma next_fault_contents: "next_fault w = (f, w') \<Longrightarrow> contents w' = contents w"
  by (auto split: list.splits)

text \<open>\<open>touching A m\<close>: the call \<open>m\<close> changes no file outside \<open>A\<close>, whatever the faults.\<close>

definition touching :: "bytes set \<Rightarrow> (world \<Rightarrow> 'a \<times> world) \<Rightarrow> bool" where
  "touching A m \<longleftrightarrow> (\<forall>w p. p \<notin> A \<longrightarrow> contents (snd (m w)) p = contents w p)"

named_theorems io_frame

lemma touchingD: "touching A m \<Longrightarrow> m w = (r, w') \<Longrightarrow> p \<notin> A \<Longrightarrow> contents w' p = contents w p"
  unfolding touching_def by (metis snd_conv)

lemma touching_mono: "touching A m \<Longrightarrow> A \<subseteq> B \<Longrightarrow> touching B m"
  by (auto simp: touching_def)

lemma touching_return [io_frame]: "touching A (io_return x)"
  by (simp add: touching_def io_return_def)

lemma touching_bind [io_frame]:
  assumes "touching A m" and "\<And>x. touching A (k x)"
  shows "touching A (io_bind m k)"
  unfolding touching_def
proof (intro allI impI)
  fix w p assume p: "p \<notin> A"
  obtain r w' where m: "m w = (r, w')" by (cases "m w")
  then have "contents w' p = contents w p" using touchingD [OF assms(1) _ p] by blast
  moreover have "contents (snd (k x w')) p = contents w' p" for x
    using assms(2) p by (simp add: touching_def)
  ultimately show "contents (snd (io_bind m k w)) p = contents w p"
    by (simp add: io_bind_def m split: sum.split)
qed

lemma touching_then [io_frame]: "touching A m \<Longrightarrow> touching A k \<Longrightarrow> touching A (io_then m k)"
  unfolding io_then_def by (intro touching_bind)

lemma touching_on_fail [io_frame]:
  assumes "touching A m" "touching A h"
  shows "touching A (on_fail m h)"
  unfolding touching_def
proof (intro allI impI)
  fix w p assume p: "p \<notin> A"
  obtain r w' where m: "m w = (r, w')" by (cases "m w")
  then have "contents w' p = contents w p" using touchingD [OF assms(1) _ p] by blast
  moreover have "contents (snd (h w')) p = contents w' p"
    using assms(2) p by (simp add: touching_def)
  ultimately show "contents (snd (on_fail m h w)) p = contents w p"
    by (simp add: on_fail_def m split: sum.split)
qed

lemma touching_ignore [io_frame]: "touching A m \<Longrightarrow> touching A (io_ignore m)"
  by (simp add: touching_def io_ignore_def)

lemma touching_sys [io_frame]:
  "touching A os_touch"
  "touching A (os_ReadFile p)"
  "touching A os_ReadDir"
  "touching A time_Now"
  by (auto simp: touching_def os_touch_def os_ReadFile_def os_ReadDir_def time_Now_def
      split: list.splits option.splits)

lemma touching_create [io_frame]: "p \<in> A \<Longrightarrow> touching A (os_Create p)"
  by (auto simp: touching_def os_Create_def split: list.splits option.splits)

lemma touching_open_append [io_frame]: "p \<in> A \<Longrightarrow> touching A (os_OpenAppend p)"
  by (auto simp: touching_def os_OpenAppend_def split: list.splits option.splits)

lemma touching_append [io_frame]: "p \<in> A \<Longrightarrow> touching A (os_Append p d)"
  by (auto simp: touching_def os_Append_def split: list.splits option.splits)

lemma touching_truncate [io_frame]: "p \<in> A \<Longrightarrow> touching A (os_Truncate p n)"
  by (auto simp: touching_def os_Truncate_def split: list.splits option.splits)

lemma touching_remove [io_frame]: "p \<in> A \<Longrightarrow> touching A (os_Remove p)"
  by (auto simp: touching_def os_Remove_def split: list.splits option.splits)

lemma touching_rename [io_frame]: "p \<in> A \<Longrightarrow> q \<in> A \<Longrightarrow> touching A (os_Rename p q)"
  by (auto simp: touching_def os_Rename_def split: list.splits option.splits)

lemma touching_link [io_frame]: "q \<in> A \<Longrightarrow> touching A (os_Link p q)"
  by (auto simp: touching_def os_Link_def split: list.splits option.splits)

lemma touching_SyncDir [io_frame]: "touching A SyncDir"
  unfolding SyncDir_def by (intro io_frame)

text \<open>Successful calls.\<close>

named_theorems io_ok

lemma io_bind_Inr:
  "io_bind m k w = (Inr y, w'') \<longleftrightarrow> (\<exists>x w'. m w = (Inr x, w') \<and> k x w' = (Inr y, w''))"
  by (auto simp: io_bind_def split: prod.splits sum.splits)

lemma io_then_Inr:
  "io_then m k w = (Inr y, w'') \<longleftrightarrow> (\<exists>x w'. m w = (Inr x, w') \<and> k w' = (Inr y, w''))"
  by (simp add: io_then_def io_bind_Inr)

lemma on_fail_Inr [simp]: "on_fail m h w = (Inr y, w') \<longleftrightarrow> m w = (Inr y, w')"
  by (auto simp: on_fail_def split: prod.splits sum.splits)

lemma io_return_eq [simp]: "io_return x w = (r, w') \<longleftrightarrow> r = Inr x \<and> w' = w"
  by (auto simp: io_return_def)

lemma os_touch_contents [io_ok]: "os_touch w = (r, w') \<Longrightarrow> contents w' = contents w"
  by (auto simp: os_touch_def split: list.splits option.splits)

lemma os_Create_ok [io_ok]:
  "os_Create p w = (Inr x, w') \<Longrightarrow> contents w p = None \<and> contents w' = (contents w)(p \<mapsto> [])"
  by (auto simp: os_Create_def split: list.splits option.splits)

lemma os_Append_ok [io_ok]:
  "os_Append p d w = (Inr x, w') \<Longrightarrow> \<exists>s. contents w p = Some s \<and> contents w' = (contents w)(p \<mapsto> s @ d)"
  by (auto simp: os_Append_def split: list.splits option.splits)

lemma os_Link_ok [io_ok]:
  "os_Link p q w = (Inr x, w') \<Longrightarrow>
     \<exists>s. contents w p = Some s \<and> contents w q = None \<and> contents w' = (contents w)(q \<mapsto> s)"
  by (auto simp: os_Link_def split: list.splits option.splits)

lemma os_Link_fail [io_ok]: "os_Link p q w = (Inl e, w') \<Longrightarrow> contents w' = contents w"
  by (auto simp: os_Link_def split: list.splits option.splits)

lemma os_Rename_ok [io_ok]:
  "os_Rename p q w = (Inr x, w') \<Longrightarrow> \<exists>s. contents w p = Some s \<and>
     contents w' = (if p = q then contents w else (contents w)(p := None, q \<mapsto> s))"
  by (auto simp: os_Rename_def split: list.splits option.splits if_splits)

lemma os_Rename_fail [io_ok]: "os_Rename p q w = (Inl e, w') \<Longrightarrow> contents w' = contents w"
  by (auto simp: os_Rename_def split: list.splits option.splits)

lemma os_Remove_ok [io_ok]:
  "os_Remove p w = (Inr x, w') \<Longrightarrow> contents w p \<noteq> None \<and> contents w' = (contents w)(p := None)"
  by (auto simp: os_Remove_def split: list.splits option.splits)

lemma os_ReadFile_ok [io_ok]:
  "os_ReadFile p w = (Inr s, w') \<Longrightarrow> contents w p = Some s \<and> contents w' = contents w"
  by (auto simp: os_ReadFile_def split: list.splits option.splits)

subsection \<open>Publishing a new file is atomic\<close>

lemma os_Create_fail [io_ok]: "os_Create p w = (Inl e, w') \<Longrightarrow> contents w' = contents w"
  by (auto simp: os_Create_def split: list.splits option.splits)

lemma os_CreateTemp_cases:
  assumes "os_CreateTemp pre suf w = (r, w')"
  obtains (fail) e where "r = Inl e" "contents w' = contents w"
  | (ok) n where "r = Inr (pre @ format_nat n @ suf)" "contents w (pre @ format_nat n @ suf) = None"
      "contents w' = (contents w)(pre @ format_nat n @ suf \<mapsto> [])"
proof -
  define f where "f = find (\<lambda>n. contents w (pre @ format_nat n @ suf) = None) [clock w ..< clock w + length (files w) + 1]"
  have c: "os_CreateTemp pre suf w = (case f of None \<Rightarrow> (Inl ErrExist, w)
     | Some n \<Rightarrow> io_then (os_Create (pre @ format_nat n @ suf)) (io_return (pre @ format_nat n @ suf)) w)"
    by (simp add: os_CreateTemp_def f_def)
  show thesis
  proof (cases f)
    case None
    then show thesis using assms c fail [of ErrExist] by auto
  next
    case (Some n)
    obtain q w1 where q: "os_Create (pre @ format_nat n @ suf) w = (q, w1)" by fastforce
    show thesis
    proof (cases q)
      case (Inl e)
      then show thesis
        using assms c Some q fail os_Create_fail [of _ w e w1] by (auto simp: io_then_def io_bind_def)
    next
      case (Inr u)
      then show thesis
        using assms c Some q ok [of n] os_Create_ok [of _ w u w1] by (auto simp: io_then_def io_bind_def io_return_def)
    qed
  qed
qed

lemma stage_ok:
  assumes "stage path data ow w = (Inr tmp, w')"
  shows "contents w tmp = None \<and> length path < length tmp \<and> contents w' = (contents w)(tmp \<mapsto> data)"
proof -
  obtain w1 where c: "os_CreateTemp (CHR ''.'' # path @ ''.tmp-'') [] w = (Inr tmp, w1)"
    and s: "\<exists>x w2. (if ow then os_touch else io_return ()) w1 = (Inr x, w2) \<and>
      (\<exists>w3. os_touch w2 = (Inr (), w3) \<and> (\<exists>w4. os_Append tmp data w3 = (Inr (), w4) \<and>
      (\<exists>w5. os_touch w4 = (Inr (), w5) \<and> os_touch w5 = (Inr (), w'))))"
    using assms by (auto simp: stage_def unstage_def io_bind_Inr io_then_Inr simp del: append.simps)
  obtain x w2 w3 w4 w5 where t: "(if ow then os_touch else io_return ()) w1 = (Inr x, w2)"
      "os_touch w2 = (Inr (), w3)" "os_Append tmp data w3 = (Inr (), w4)" "os_touch w4 = (Inr (), w5)"
      "os_touch w5 = (Inr (), w')"
    using s by blast
  have "contents w2 = contents w1" using t(1) by (auto dest: os_touch_contents split: if_splits)
  then have "\<exists>s. contents w1 tmp = Some s \<and> contents w' = (contents w1)(tmp \<mapsto> s @ data)"
    using os_touch_contents [OF t(2)] os_Append_ok [OF t(3)] os_touch_contents [OF t(4)]
      os_touch_contents [OF t(5)] by simp
  then show ?thesis
    using c by (auto elim!: os_CreateTemp_cases)
qed

lemma stage_fail:
  assumes "stage path data ow w = (Inl e, w')"
  shows "\<exists>tmp. contents w tmp = None \<and> tmp \<noteq> path \<and> (\<forall>p. p \<noteq> tmp \<longrightarrow> contents w' p = contents w p)
    \<or> contents w' = contents w"
proof -
  obtain r w1 where c: "os_CreateTemp (CHR ''.'' # path @ ''.tmp-'') [] w = (r, w1)" by fastforce
  then show ?thesis
  proof (cases rule: os_CreateTemp_cases)
    case (fail e')
    then have "contents w' = contents w" using assms by (simp add: stage_def io_bind_def c)
    then show ?thesis by blast
  next
    case (ok n)
    let ?tmp = "(CHR ''.'' # path @ ''.tmp-'') @ format_nat n @ []"
    have f: "touching {?tmp} (unstage ?tmp (io_then (on_fail
       (io_then (if ow then os_touch else io_return ())
       (io_then os_touch (io_then (os_Append ?tmp data) os_touch))) os_touch)
       (io_then os_touch (io_return ?tmp))))"
      unfolding unstage_def by (intro io_frame) (auto intro!: io_frame)
    have "\<forall>p. p \<noteq> ?tmp \<longrightarrow> contents w' p = contents w1 p"
      using assms touchingD [OF f, of w1 "Inl e" w'] by (auto simp: stage_def io_bind_def c ok(1))
    then have "\<forall>p. p \<noteq> ?tmp \<longrightarrow> contents w' p = contents w p" using ok(3) by simp
    moreover have "?tmp \<noteq> path" using length_append by (auto dest: arg_cong [where f = length])
    ultimately show ?thesis using ok(2) by blast
  qed
qed

text \<open>
  The contract of a step that gives a staged file its name: it reports truly whether the name now
  holds the staged bytes, leaves the name alone otherwise, and touches no third name. A \<open>fresh\<close>
  publisher only ever takes a free name.
\<close>

locale publisher =
  fixes publish :: "bytes \<Rightarrow> bytes \<Rightarrow> world \<Rightarrow> (bool \<times> io_err option) \<times> world" and fresh :: bool
  assumes publish_spec: "publish tmp path w = ((published, err), w') \<Longrightarrow> contents w tmp = Some data \<Longrightarrow> tmp \<noteq> path \<Longrightarrow>
    (if published then (fresh \<longrightarrow> contents w path = None) \<and> contents w' path = Some data
     else contents w' path = contents w path)
    \<and> (\<forall>p. p \<noteq> tmp \<longrightarrow> p \<noteq> path \<longrightarrow> contents w' p = contents w p)
    \<and> (err = None \<longrightarrow> published \<and> contents w' tmp = None)"
begin

lemma write_staged_spec:
  assumes "write_staged publish path data ownerOnly w = ((published, err), w')"
  shows "(if published then (fresh \<longrightarrow> contents w path = None) \<and> contents w' path = Some data
          else contents w' path = contents w path)
    \<and> (\<forall>p. p \<noteq> path \<longrightarrow> contents w p \<noteq> None \<longrightarrow> contents w' p = contents w p)
    \<and> (err = None \<longrightarrow> contents w' = (contents w)(path \<mapsto> data) \<and> published)"
proof (cases "stage path data ownerOnly w")
  case (Pair r w1)
  show ?thesis
  proof (cases r)
    case (Inl e)
    then show ?thesis using assms Pair stage_fail [of path data ownerOnly w e w1]
      by (auto simp: write_staged_def) (metis option.distinct(1))+
  next
    case (Inr tmp)
    have s: "contents w tmp = None" "tmp \<noteq> path" "contents w1 = (contents w)(tmp \<mapsto> data)"
      using stage_ok [of path data ownerOnly w tmp w1] Pair Inr by auto
    obtain pb e w2 where p: "publish tmp path w1 = ((pb, e), w2)" by (metis prod.exhaust)
    have t: "touching {tmp} (os_Remove tmp)" by (intro io_frame) simp
    have w': "pb = published \<and> e = err \<and> (\<forall>q. q \<noteq> tmp \<longrightarrow> contents w' q = contents w2 q) \<and>
        (err = None \<longrightarrow> w' = w2)"
      using assms Pair Inr p touchingD [OF t, of w2] by (cases e) (auto simp: write_staged_def touching_def t [unfolded touching_def])
    have P: "if published then (fresh \<longrightarrow> contents w path = None) \<and> contents w2 path = Some data else contents w2 path = contents w path"
        "\<forall>q. q \<noteq> tmp \<longrightarrow> q \<noteq> path \<longrightarrow> contents w2 q = contents w q"
        "err = None \<longrightarrow> published \<and> contents w2 tmp = None"
      using publish_spec [OF p, of data] s w' by auto
    have "err = None \<longrightarrow> contents w' = (contents w)(path \<mapsto> data)"
    proof (intro impI ext)
      fix q assume "err = None"
      then show "contents w' q = ((contents w)(path \<mapsto> data)) q"
        using P w' s(1,2) by (cases "q = tmp") (auto split: if_splits)
    qed
    moreover have "contents w' q = contents w q" if "contents w q \<noteq> None" "q \<noteq> path" for q
    proof -
      have "q \<noteq> tmp" using that s(1) by auto
      then show ?thesis using that P(2) w' by auto
    qed
    ultimately show ?thesis using P w' s by (auto split: if_splits)
  qed
qed

end

lemma PublishNew_spec:
  assumes "PublishNew tmp path w = ((published, err), w')" "contents w tmp = Some data" "tmp \<noteq> path"
  shows "(if published then contents w path = None \<and> contents w' path = Some data else contents w' path = contents w path)
    \<and> (\<forall>p. p \<noteq> tmp \<longrightarrow> p \<noteq> path \<longrightarrow> contents w' p = contents w p)
    \<and> (err = None \<longrightarrow> published \<and> contents w' tmp = None)"
proof -
  obtain r w1 where l: "io_then os_touch (os_Link tmp path) w = (r, w1)" by fastforce
  show ?thesis
  proof (cases r)
    case (Inl e)
    have "contents w1 = contents w"
      using l Inl by (auto simp: io_then_def io_bind_def split: prod.splits sum.splits
          dest!: os_touch_contents os_Link_fail)
    then show ?thesis using assms l Inl by (auto simp: PublishNew_def)
  next
    case (Inr u)
    then have c: "contents w path = None" "contents w1 = (contents w)(path \<mapsto> data)"
      using l assms(2) by (auto simp: io_then_Inr dest!: os_touch_contents os_Link_ok)
    obtain r2 w2 where m: "io_then (os_Remove tmp) os_touch w1 = (r2, w2)" by fastforce
    have t: "touching {tmp} (io_then (os_Remove tmp) os_touch)" by (intro io_frame) simp
    have "\<forall>p. p \<noteq> tmp \<longrightarrow> contents w2 p = contents w1 p" using touchingD [OF t m] by simp
    moreover have "\<exists>x. r2 = Inr x \<Longrightarrow> contents w2 tmp = None"
      using m by (auto simp: io_then_Inr dest!: os_touch_contents os_Remove_ok)
    ultimately show ?thesis
      using assms l Inr c m by (auto simp: PublishNew_def split: sum.splits)
  qed
qed

interpretation new_file: publisher PublishNew True
  by unfold_locales (drule (2) PublishNew_spec, simp split: if_splits)

lemma WriteNew_spec:
  assumes "WriteNew path data ownerOnly w = ((published, err), w')"
  shows "(if published then contents w path = None \<and> contents w' path = Some data
          else contents w' path = contents w path)
    \<and> (\<forall>p. contents w p \<noteq> None \<longrightarrow> contents w' p = contents w p)
    \<and> (err = None \<longrightarrow> contents w' = (contents w)(path \<mapsto> data) \<and> published)"
proof -
  note s = new_file.write_staged_spec [OF assms [unfolded WriteNew_def]]
  have "contents w' p = contents w p" if "contents w p \<noteq> None" for p
    using s that by (cases "p = path"; cases published) simp_all
  then show ?thesis using s by simp
qed

lemma WriteNew_published:
  "WriteNew path data ownerOnly w = ((True, err), w') \<Longrightarrow> contents w path = None \<and> contents w' path = Some data"
  by (drule WriteNew_spec) simp

lemma WriteNew_unpublished:
  "WriteNew path data ownerOnly w = ((False, err), w') \<Longrightarrow> contents w' path = contents w path"
  by (drule WriteNew_spec) simp

lemma WriteNew_success: "WriteNew path data ownerOnly w = ((published, None), w') \<Longrightarrow> published"
  by (drule WriteNew_spec) simp

text \<open>
  C30. \<open>WriteNew\<close> is atomic and never overwrites: whatever calls fail, and wherever the process dies,
  either the file appears under its name with exactly the given bytes, and only where no file was,
  or the name is as it was. No other file that existed is changed. Success means published, and no
  name but the new one is added.
\<close>

theorem WriteNew_atomic:
  assumes "WriteNew path data ownerOnly w = ((published, err), w')"
  shows "(if published then contents w path = None \<and> contents w' path = Some data
          else contents w' path = contents w path)
    \<and> (\<forall>p. contents w p \<noteq> None \<longrightarrow> contents w' p = contents w p)
    \<and> (err = None \<longrightarrow> contents w' = (contents w)(path \<mapsto> data) \<and> published)"
  using assms by (rule WriteNew_spec)

text \<open>A directory with one file, and a plan in which the write of the staged file breaks off.\<close>

definition sample_world :: "nat option list \<Rightarrow> world" where
  "sample_world p = \<lparr>files = [(''old'', ''x'')], plan = p, clock = 0\<rparr>"

lemmas io_eval = contents_def set_file_def del_file_def io_return_def io_bind_def io_then_def on_fail_def
  io_ignore_def os_touch_def os_ReadFile_def os_Create_def os_OpenAppend_def os_Append_def os_Truncate_def
  os_Rename_def os_Link_def os_Remove_def os_ReadDir_def time_Now_def os_CreateTemp_def SyncDir_def Rename_def
  unstage_def stage_def PublishNew_def write_staged_def WriteNew_def

theorem WriteNew_atomic_witness:
  "(let ((published, err), w') = WriteNew ''new'' ''data'' True (sample_world [None, None, None, Some 2]) in
     published = False \<and> contents w' ''new'' = None \<and> contents w' ''old'' = Some ''x'')
   \<and> (let ((published, err), w') = WriteNew ''new'' ''data'' True (sample_world []) in
     published \<and> contents w' = (contents (sample_world []))(''new'' \<mapsto> ''data''))"
proof -
  have a: "WriteNew ''new'' ''data'' True (sample_world [None, None, None, Some 2])
      = ((False, Some ErrIO), \<lparr>files = [(''old'', ''x'')], plan = [], clock = 0\<rparr>)"
    by (simp add: io_eval sample_world_def format_nat.simps digit_char_def)
  have b: "WriteNew ''new'' ''data'' True (sample_world [])
      = ((True, None), \<lparr>files = [(''old'', ''x''), (''new'', ''data'')], plan = [], clock = 0\<rparr>)"
    by (simp add: io_eval sample_world_def format_nat.simps digit_char_def)
  show ?thesis
    using WriteNew_atomic [OF a] WriteNew_atomic [OF b]
    unfolding a b by (simp add: sample_world_def contents_def)
qed

end
