(* ===== verification/Go_Base64.thy ===== *)
theory Go_Base64
  imports Prelude
begin

text \<open>
  \<open>base64.StdEncoding\<close> of Go's \<open>encoding/base64\<close>: the padded standard alphabet. The decoder skips
  carriage returns and line feeds, does not look at the unused bits of the last symbol, and refuses
  anything after the padding.
\<close>

definition b64_char :: "nat \<Rightarrow> char" where
  "b64_char n = (if n < 26 then char_of (65 + n) else if n < 52 then char_of (97 + (n - 26))
     else if n < 62 then char_of (48 + (n - 52)) else if n = 62 then CHR ''+'' else CHR ''/'')"

definition b64_val :: "char \<Rightarrow> nat option" where
  "b64_val c = (let n = bval c in
     if 65 \<le> n \<and> n \<le> 90 then Some (n - 65) else if 97 \<le> n \<and> n \<le> 122 then Some (n - 97 + 26)
     else if 48 \<le> n \<and> n \<le> 57 then Some (n - 48 + 52)
     else if c = CHR ''+'' then Some 62 else if c = CHR ''/'' then Some 63 else None)"

fun b64_encode :: "bytes \<Rightarrow> bytes" where
  "b64_encode [] = []"
| "b64_encode [a] = [b64_char (bval a div 4), b64_char (bval a mod 4 * 16), CHR ''='', CHR ''='']"
| "b64_encode [a, b] = [b64_char (bval a div 4), b64_char (bval a mod 4 * 16 + bval b div 16),
     b64_char (bval b mod 16 * 4), CHR ''='']"
| "b64_encode (a # b # c # s) = b64_char (bval a div 4) # b64_char (bval a mod 4 * 16 + bval b div 16)
     # b64_char (bval b mod 16 * 4 + bval c div 64) # b64_char (bval c mod 64) # b64_encode s"

fun b64_quanta :: "bytes \<Rightarrow> bytes option" where
  "b64_quanta [] = Some []"
| "b64_quanta (a # b # c # d # s) =
    (case (b64_val a, b64_val b) of
       (Some x, Some y) \<Rightarrow>
         if d = CHR ''='' then
           (if s \<noteq> [] then None
            else if c = CHR ''='' then Some [char_of (x * 4 + y div 16)]
            else (case b64_val c of None \<Rightarrow> None
              | Some z \<Rightarrow> Some [char_of (x * 4 + y div 16), char_of (y mod 16 * 16 + z div 4)]))
         else (case (b64_val c, b64_val d) of
             (Some z, Some w) \<Rightarrow> (case b64_quanta s of None \<Rightarrow> None
               | Some r \<Rightarrow> Some (char_of (x * 4 + y div 16) # char_of (y mod 16 * 16 + z div 4)
                    # char_of (z mod 4 * 64 + w) # r))
           | _ \<Rightarrow> None)
     | _ \<Rightarrow> None)"
| "b64_quanta _ = None"

definition b64_decode :: "bytes \<Rightarrow> bytes option" where
  "b64_decode s = b64_quanta (filter (\<lambda>c. c \<noteq> CHR 0x0A \<and> c \<noteq> CHR 0x0D) s)"

subsection \<open>Round trip\<close>

lemma bval_b64_char:
  "n < 64 \<Longrightarrow> bval (b64_char n) = (if n < 26 then 65 + n else if n < 52 then 71 + n
     else if n < 62 then n - 4 else if n = 62 then 43 else 47)"
  by (auto simp: b64_char_def)

lemma b64_val_char [simp]: "n < 64 \<Longrightarrow> b64_val (b64_char n) = Some n"
  unfolding b64_val_def Let_def bval_b64_char by (auto simp: b64_char_def)

lemma b64_char_plain:
  assumes "n < 64"
  shows "b64_char n \<noteq> CHR ''=''" "b64_char n \<noteq> CHR 0x0A" "b64_char n \<noteq> CHR 0x0D"
    "43 \<le> bval (b64_char n)" "bval (b64_char n) \<le> 122"
  using bval_b64_char [OF assms] assms by (auto dest: arg_cong [where f = "of_char :: char \<Rightarrow> nat"] split: if_splits)

lemma b64_digits:
  "bval a div 4 < 64" "bval a mod 4 * 16 < 64" "bval a mod 4 * 16 + bval b div 16 < 64"
  "bval b mod 16 * 4 < 64" "bval b mod 16 * 4 + bval c div 64 < 64" "bval c mod 64 < 64"
proof -
  have "bval b div 16 < 16" "bval c div 64 < 4" using bval_less [of b] bval_less [of c] by linarith+
  then show "bval a mod 4 * 16 + bval b div 16 < 64" "bval b mod 16 * 4 + bval c div 64 < 64" by linarith+
  show "bval a div 4 < 64" using bval_less [of a] by linarith
qed auto

lemma b64_joins:
  "bval c div 16 div 16 = 0" "bval c div 16 mod 16 * 16 + bval c mod 16 = bval c"
  "bval c div 64 div 4 = 0" "bval c div 64 mod 4 * 64 + bval c mod 64 = bval c"
proof -
  have b: "bval c div 16 < 16" "bval c div 64 < 4" using bval_less [of c] by linarith+
  then show "bval c div 16 div 16 = 0" "bval c div 64 div 4 = 0" by simp_all
  show "bval c div 16 mod 16 * 16 + bval c mod 16 = bval c" "bval c div 64 mod 4 * 64 + bval c mod 64 = bval c"
    using b by (simp_all add: mod_less)
qed

lemma b64_quanta_encode: "b64_quanta (b64_encode s) = Some s"
  by (induction s rule: b64_encode.induct) (simp_all add: b64_digits b64_joins b64_char_plain)

lemma set_b64_encode: "c \<in> set (b64_encode s) \<Longrightarrow> 43 \<le> bval c \<and> bval c \<le> 122"
  by (induction s rule: b64_encode.induct) (auto simp: b64_digits b64_char_plain)

lemma b64_decode_encode [simp]: "b64_decode (b64_encode s) = Some s"
proof -
  have "filter (\<lambda>c. c \<noteq> CHR 0x0A \<and> c \<noteq> CHR 0x0D) (b64_encode s) = b64_encode s"
    by (rule filter_True) (auto dest: set_b64_encode)
  then show ?thesis by (simp add: b64_decode_def b64_quanta_encode)
qed

lemma b64_encode_Nil [simp]: "b64_encode s = [] \<longleftrightarrow> s = []"
  by (cases s rule: b64_encode.cases) simp_all

end
