(* ===== verification/Crypto.thy ===== *)
theory Crypto
  imports Fs Go_Base64
begin

text \<open>
  \<open>internal/crypto/crypto.go\<close>: key pairs, fingerprints, the key file and the signature calls. The
  primitives behind it (SHA-256, ML-DSA-87, SLH-DSA) are parameters,
  collected in the record \<open>prims\<close>; \<open>'sk\<close> is the opaque private key type of \<open>crypto/mldsa\<close>. The
  predicate \<open>mldsa_laws\<close> states what the callers rely on: a private key survives its encoding, a
  derived public key is well formed, and a signature made with a private key verifies under its
  public key.
\<close>

record 'sk prims =
  sha256 :: "bytes \<Rightarrow> bytes"
  mldsa_NewPrivateKey :: "bytes \<Rightarrow> 'sk option"
  mldsa_Bytes :: "'sk \<Rightarrow> bytes"
  mldsa_Public :: "'sk \<Rightarrow> bytes"
  mldsa_Sign :: "'sk \<Rightarrow> bytes \<Rightarrow> bytes option"
  mldsa_PublicKeyOk :: "bytes \<Rightarrow> bool"
  mldsa_Verify :: "bytes \<Rightarrow> bytes \<Rightarrow> bytes \<Rightarrow> bool"
  slh_PublicKeyOk :: "bytes \<Rightarrow> bool"
  slh_SignatureOk :: "bytes \<Rightarrow> bool"
  slh_Verify :: "bytes \<Rightarrow> bytes \<Rightarrow> bytes \<Rightarrow> bool"

datatype crypto_err = KeyGenerationFailed | NoPrivateKey | SignFailed | InvalidPublicKey | VerificationFailed
  | InvalidSLHPublicKey | InvalidSLHSignature | SLHVerificationFailed
  | KeyFileTooShort | KeyFileTruncated | CannotReconstruct | KeyFileCorrupt
  | CompleteKeyPairRequired | KeyPathRequired | RefusingToPublish crypto_err
  | KeyPublishFailed | PublishedNotDurable | CannotReadKeyFile

definition SigAlg :: bytes where
  "SigAlg = ''ML-DSA-87''"

definition SLHAlg :: bytes where
  "SLHAlg = ''SLH-DSA-SHA2-256s''"

definition ProfileRoot :: bytes where
  "ProfileRoot = ''AIII-PQ-SIGNATURE-V1-ROOT''"

record 'sk KeyPair =
  Algorithm :: bytes
  PublicKey :: bytes
  PrivateKey :: "'sk option"

definition Fingerprint :: "'sk prims \<Rightarrow> 'sk KeyPair \<Rightarrow> bytes" where
  "Fingerprint P kp = hex_encode (sha256 P (PublicKey kp))"

definition KeyPair_PublicKeyB64 :: "'sk KeyPair \<Rightarrow> bytes" where
  "KeyPair_PublicKeyB64 kp = b64_encode (PublicKey kp)"

definition PublicKeyBytes :: "'sk KeyPair \<Rightarrow> bytes" where
  "PublicKeyBytes kp = PublicKey kp"

definition PublicKeyFingerprint :: "'sk prims \<Rightarrow> bytes \<Rightarrow> bytes" where
  "PublicKeyFingerprint P pub = hex_encode (sha256 P pub)"

definition VerifyFingerprint :: "'sk prims \<Rightarrow> bytes \<Rightarrow> bytes \<Rightarrow> bool" where
  "VerifyFingerprint P pub fp = (hex_encode (sha256 P pub) = fp)"

definition ContentHash :: "'sk prims \<Rightarrow> bytes \<Rightarrow> bytes" where
  "ContentHash P payload = hex_encode (sha256 P payload)"

definition Sign :: "'sk prims \<Rightarrow> 'sk KeyPair \<Rightarrow> bytes \<Rightarrow> crypto_err + bytes" where
  "Sign P kp message = (case PrivateKey kp of None \<Rightarrow> Inl NoPrivateKey
     | Some sk \<Rightarrow> (case mldsa_Sign P sk message of None \<Rightarrow> Inl SignFailed | Some s \<Rightarrow> Inr s))"

definition SignB64 :: "'sk prims \<Rightarrow> 'sk KeyPair \<Rightarrow> bytes \<Rightarrow> crypto_err + bytes" where
  "SignB64 P kp message = (case Sign P kp message of Inl e \<Rightarrow> Inl e | Inr sig \<Rightarrow> Inr (b64_encode sig))"

definition Verify :: "'sk prims \<Rightarrow> bytes \<Rightarrow> bytes \<Rightarrow> bytes \<Rightarrow> crypto_err option" where
  "Verify P pub message sig =
    (if \<not> mldsa_PublicKeyOk P pub then Some InvalidPublicKey
     else if mldsa_Verify P pub message sig then None else Some VerificationFailed)"

definition VerifySLH :: "'sk prims \<Rightarrow> bytes \<Rightarrow> bytes \<Rightarrow> bytes \<Rightarrow> crypto_err option" where
  "VerifySLH P pub message sig =
    (if \<not> slh_PublicKeyOk P pub then Some InvalidSLHPublicKey
     else if \<not> slh_SignatureOk P sig then Some InvalidSLHSignature
     else if slh_Verify P pub message sig then None else Some SLHVerificationFailed)"

definition RequiredAlgorithms :: "bytes \<Rightarrow> bytes list option" where
  "RequiredAlgorithms profile = (if profile = ProfileRoot then Some [SigAlg, SLHAlg] else None)"

subsection \<open>The key file\<close>

text \<open>A 4-byte big-endian length, that many bytes of private key, then the public key.\<close>

definition be32 :: "nat \<Rightarrow> bytes" where
  "be32 n = [char_of (n div 2 ^ 24), char_of (n div 2 ^ 16), char_of (n div 2 ^ 8), char_of n]"

definition be32_val :: "bytes \<Rightarrow> nat" where
  "be32_val s = foldl (\<lambda>a c. 256 * a + bval c) 0 (take 4 s)"

definition ParseKeyPair :: "'sk prims \<Rightarrow> bytes \<Rightarrow> crypto_err + 'sk KeyPair" where
  "ParseKeyPair P data =
    (if length data < 4 then Inl KeyFileTooShort
     else let privLen = be32_val data in
       if length data - 4 < privLen then Inl KeyFileTruncated
       else let privBytes = take privLen (drop 4 data); pubBytes = drop (4 + privLen) data in
         (case mldsa_NewPrivateKey P privBytes of None \<Rightarrow> Inl CannotReconstruct
          | Some sk \<Rightarrow>
             if mldsa_Public P sk \<noteq> pubBytes then Inl KeyFileCorrupt
             else Inr \<lparr>Algorithm = SigAlg, PublicKey = pubBytes, PrivateKey = Some sk\<rparr>))"

definition PublishKeyFile ::
  "'sk prims \<Rightarrow> bytes \<Rightarrow> bytes \<Rightarrow> world \<Rightarrow> (bool \<times> crypto_err option) \<times> world" where
  "PublishKeyFile P data path w =
    (if path = [] then ((False, Some KeyPathRequired), w)
     else case ParseKeyPair P data of Inl e \<Rightarrow> ((False, Some (RefusingToPublish e)), w)
     | Inr _ \<Rightarrow> (case WriteNew path data True w of
         ((published, None), w') \<Rightarrow> ((True, None), w')
       | ((published, Some _), w') \<Rightarrow>
           (if published then ((True, Some PublishedNotDurable), w') else ((False, Some KeyPublishFailed), w'))))"

definition key_file_bytes :: "'sk prims \<Rightarrow> 'sk \<Rightarrow> bytes \<Rightarrow> bytes" where
  "key_file_bytes P sk pub = be32 (length (mldsa_Bytes P sk)) @ mldsa_Bytes P sk @ pub"

text \<open>The pointer argument of \<open>SaveKeyPair\<close> may be nil.\<close>

definition SaveKeyPair ::
  "'sk prims \<Rightarrow> 'sk KeyPair option \<Rightarrow> bytes \<Rightarrow> world \<Rightarrow> (bool \<times> crypto_err option) \<times> world" where
  "SaveKeyPair P kp path w = (case kp of None \<Rightarrow> ((False, Some CompleteKeyPairRequired), w)
     | Some k \<Rightarrow> (case PrivateKey k of None \<Rightarrow> ((False, Some CompleteKeyPairRequired), w)
         | Some sk \<Rightarrow> PublishKeyFile P (key_file_bytes P sk (PublicKey k)) path w))"

definition LoadKeyPair :: "'sk prims \<Rightarrow> bytes \<Rightarrow> world \<Rightarrow> (crypto_err + 'sk KeyPair) \<times> world" where
  "LoadKeyPair P path w = (case os_ReadFile path w of (Inl _, w') \<Rightarrow> (Inl CannotReadKeyFile, w')
     | (Inr data, w') \<Rightarrow> (ParseKeyPair P data, w'))"

text \<open>\<open>GenerateKeyPair\<close> on what the generator of \<open>crypto/mldsa\<close> returned.\<close>

definition GenerateKeyPair :: "'sk prims \<Rightarrow> 'sk option \<Rightarrow> crypto_err + 'sk KeyPair" where
  "GenerateKeyPair P generated = (case generated of None \<Rightarrow> Inl KeyGenerationFailed
     | Some sk \<Rightarrow> Inr \<lparr>Algorithm = SigAlg, PublicKey = mldsa_Public P sk, PrivateKey = Some sk\<rparr>)"

subsection \<open>Properties\<close>

lemma length_be32 [simp]: "length (be32 n) = 4"
  by (simp add: be32_def)

lemma horner4:
  "b = a * 256 + x \<Longrightarrow> c = b * 256 + y \<Longrightarrow> n = c * 256 + z \<Longrightarrow> 256 * (256 * (256 * a + x) + y) + z = n" for n :: nat
  by simp

lemma be32_val_be32:
  assumes "n < 2 ^ 32"
  shows "be32_val (be32 n @ s) = n"
proof -
  have "n div 16777216 < 256" using assms by simp
  then have a: "n div 16777216 mod 256 = n div 16777216" by simp
  have d: "n div 16777216 = n div 65536 div 256" "n div 65536 = n div 256 div 256"
    by (simp_all flip: div_mult2_eq)
  have "n div 65536 = n div 16777216 * 256 + n div 65536 mod 256" unfolding d(1) by simp
  moreover have "n div 256 = n div 65536 * 256 + n div 256 mod 256" unfolding d(2) by simp
  moreover have "n = n div 256 * 256 + n mod 256" by simp
  ultimately have "256 * (256 * (256 * (n div 16777216) + n div 65536 mod 256) + n div 256 mod 256) + n mod 256 = n"
    by (rule horner4)
  then show ?thesis
    by (simp add: be32_val_def be32_def a del: mult.assoc distrib_left_numeral)
qed

text \<open>The documented behaviour of \<open>crypto/mldsa\<close> that the callers rely on.\<close>

definition mldsa_laws :: "'sk prims \<Rightarrow> bool" where
  "mldsa_laws P \<longleftrightarrow> (\<forall>sk. mldsa_NewPrivateKey P (mldsa_Bytes P sk) = Some sk
     \<and> length (mldsa_Bytes P sk) < 2 ^ 32
     \<and> mldsa_PublicKeyOk P (mldsa_Public P sk)
     \<and> (\<forall>m s. mldsa_Sign P sk m = Some s \<longrightarrow> mldsa_Verify P (mldsa_Public P sk) m s))"

lemma parse_key_file:
  assumes "mldsa_laws P"
  shows "ParseKeyPair P (key_file_bytes P sk (mldsa_Public P sk)) = GenerateKeyPair P (Some sk)"
proof -
  have l: "length (mldsa_Bytes P sk) < 2 ^ 32" "mldsa_NewPrivateKey P (mldsa_Bytes P sk) = Some sk"
    using assms by (simp_all add: mldsa_laws_def)
  show ?thesis
    using be32_val_be32 [OF l(1), of "mldsa_Bytes P sk @ mldsa_Public P sk"] l(2)
    by (simp add: ParseKeyPair_def key_file_bytes_def GenerateKeyPair_def)
qed

lemma sign_then_verify:
  assumes "mldsa_laws P" "PrivateKey kp = Some sk" "PublicKey kp = mldsa_Public P sk"
    and "Sign P kp m = Inr s"
  shows "Verify P (PublicKey kp) m s = None"
  using assms by (auto simp: mldsa_laws_def Sign_def Verify_def split: option.splits)

lemma ParseKeyPair_Inr:
  assumes "ParseKeyPair P data = Inr kp"
  obtains sk where "PrivateKey kp = Some sk" "PublicKey kp = mldsa_Public P sk" "Algorithm kp = SigAlg"
    "mldsa_NewPrivateKey P (take (be32_val data) (drop 4 data)) = Some sk"
    "data = take 4 data @ take (be32_val data) (drop 4 data) @ PublicKey kp"
proof -
  have ge: "4 \<le> length data" "be32_val data \<le> length data - 4"
    using assms by (auto simp: ParseKeyPair_def Let_def split: if_splits)
  then obtain sk where sk: "mldsa_NewPrivateKey P (take (be32_val data) (drop 4 data)) = Some sk"
      "mldsa_Public P sk = drop (4 + be32_val data) data"
      "kp = \<lparr>Algorithm = SigAlg, PublicKey = drop (4 + be32_val data) data, PrivateKey = Some sk\<rparr>"
    using assms by (auto simp: ParseKeyPair_def Let_def split: if_splits option.splits)
  have "data = take 4 data @ take (be32_val data) (drop 4 data) @ drop (be32_val data) (drop 4 data)"
    by (simp only: append_take_drop_id)
  then show thesis
    using that [of sk] sk by (simp add: add.commute)
qed

text \<open>
  C34. A key file that was saved loads back as the same key pair: for a generated key pair, whenever
  \<open>SaveKeyPair\<close> reports the file published, in spite of whatever calls failed, no key file was
  overwritten, and a later \<open>LoadKeyPair\<close> whose read succeeds returns exactly that pair.
\<close>

theorem key_file_roundtrip:
  assumes "mldsa_laws P"
    and "GenerateKeyPair P (Some sk) = Inr kp"
    and "SaveKeyPair P (Some kp) path w = ((True, err), w')"
  shows "contents w path = None \<and> LoadKeyPair P path (w'\<lparr>plan := []\<rparr>) = (Inr kp, w'\<lparr>plan := []\<rparr>)"
proof -
  let ?d = "key_file_bytes P sk (mldsa_Public P sk)"
  have kp: "PrivateKey kp = Some sk" "PublicKey kp = mldsa_Public P sk"
    using assms(2) by (auto simp: GenerateKeyPair_def)
  have parse: "ParseKeyPair P ?d = Inr kp"
    using parse_key_file [OF assms(1)] assms(2) by simp
  obtain e where "WriteNew path ?d True w = ((True, e), w')"
    using assms(3) kp by (cases "WriteNew path ?d True w")
      (auto simp: SaveKeyPair_def PublishKeyFile_def parse split: if_splits option.splits dest: WriteNew_success)
  then have "contents w path = None" "contents w' path = Some ?d"
    using WriteNew_published by blast+
  then show ?thesis
    using parse by (simp add: LoadKeyPair_def os_ReadFile_def)
qed

text \<open>
  C35. Only a key file whose public half belongs to its private half is ever published: whatever
  bytes \<open>PublishKeyFile\<close> is given, if it changes the file at its path at all, those bytes parse, the
  stored public key is the one derived from the stored private key, and the file now holds them.
\<close>

theorem published_key_file_consistent:
  assumes "PublishKeyFile P data path w = ((published, err), w')"
    and "contents w' path \<noteq> contents w path"
  shows "published \<and> contents w' path = Some data \<and> (\<exists>kp sk. ParseKeyPair P data = Inr kp \<and>
    PrivateKey kp = Some sk \<and> PublicKey kp = mldsa_Public P sk \<and> Algorithm kp = SigAlg)"
proof -
  obtain kp where kp: "ParseKeyPair P data = Inr kp"
    using assms by (auto simp: PublishKeyFile_def split: if_splits sum.splits)
  obtain sk where sk: "PrivateKey kp = Some sk" "PublicKey kp = mldsa_Public P sk" "Algorithm kp = SigAlg"
    using kp by (rule ParseKeyPair_Inr)
  obtain pb e where w: "WriteNew path data True w = ((pb, e), w')" and pb: "pb \<longrightarrow> published"
    using assms kp by (cases "WriteNew path data True w")
      (auto simp: PublishKeyFile_def split: if_splits option.splits)
  have pb': "pb" using WriteNew_unpublished w assms(2) by (cases pb) auto
  then have "contents w' path = Some data" using WriteNew_published [of path data True w e w'] w by simp
  then show ?thesis using kp sk pb pb' by blast
qed

subsection \<open>Witnesses\<close>

text \<open>
  A concrete instance of the primitives, for the witnesses: private keys are numbers, written in
  decimal, public keys carry them behind a tag, and signatures repeat the key and the message.
\<close>

definition demo_prims :: "uint64 prims" where
  "demo_prims = \<lparr>sha256 = (\<lambda>s. take 32 (s @ replicate 32 (CHR ''0''))),
     mldsa_NewPrivateKey = ParseUint, mldsa_Bytes = FormatUint, mldsa_Public = (\<lambda>sk. CHR ''P'' # FormatUint sk),
     mldsa_Sign = (\<lambda>sk m. Some (FormatUint sk @ m)), mldsa_PublicKeyOk = (\<lambda>pub. hd pub = CHR ''P''),
     mldsa_Verify = (\<lambda>pub m s. s = tl pub @ m), slh_PublicKeyOk = (\<lambda>_. True),
     slh_SignatureOk = (\<lambda>_. True), slh_Verify = (\<lambda>pub m s. s = pub @ m)\<rparr>"

lemma length_format_nat: "length (format_nat n) \<le> Suc n"
proof (induction n rule: format_nat.induct)
  case (1 n)
  show ?case
  proof (cases "n < 10")
    case True
    then show ?thesis by (subst format_nat.simps) simp
  next
    case False
    then have "length (format_nat (n div 10)) \<le> Suc (n div 10)" using "1.IH" by simp
    moreover have "n div 10 < n" using False by simp
    ultimately show ?thesis using False by (subst format_nat.simps) simp
  qed
qed

lemma length_format_nat_digits: "n < 10 ^ k \<Longrightarrow> 0 < k \<Longrightarrow> length (format_nat n) \<le> k"
proof (induction k arbitrary: n)
  case (Suc k)
  show ?case
  proof (cases "n < 10")
    case True
    then show ?thesis by (subst format_nat.simps) simp
  next
    case False
    then have k: "0 < k" using Suc.prems by (cases k) auto
    have "n div 10 < 10 ^ k" using Suc.prems(1) by (simp add: less_mult_imp_div_less mult.commute)
    then have "length (format_nat (n div 10)) \<le> k" using Suc.IH k by blast
    with False show ?thesis by (subst format_nat.simps) simp
  qed
qed simp

lemma demo_laws: "mldsa_laws demo_prims"
proof -
  have "length (FormatUint n) < 2 ^ 32" for n
  proof -
    have "unat n < 2 ^ 64" using unsigned_less [of n] by simp
    also have "(2::nat) ^ 64 < 10 ^ 20" by simp
    finally have "length (FormatUint n) \<le> 20"
      unfolding FormatUint_def by (intro length_format_nat_digits) simp_all
    then show ?thesis by simp
  qed
  then show ?thesis by (simp add: mldsa_laws_def demo_prims_def)
qed

lemma demo_pub: "mldsa_Public demo_prims 7 = ''P7''"
  by (simp add: demo_prims_def FormatUint_def format_nat.simps digit_char_def char_of_eq_iff)

lemma demo_parse: "ParseKeyPair demo_prims (key_file_bytes demo_prims 7 ''P7'') = GenerateKeyPair demo_prims (Some 7)"
  using parse_key_file [OF demo_laws, of 7] by (simp add: demo_pub)

lemma demo_write:
  "WriteNew ''key'' data True (sample_world []) =
     ((True, None), \<lparr>files = [(''old'', ''x''), (''key'', data)], plan = [], clock = 0\<rparr>)"
  by (simp add: io_eval sample_world_def format_nat.simps digit_char_def)

theorem key_file_roundtrip_witness:
  "\<exists>kp w'. SaveKeyPair demo_prims (Some kp) ''key'' (sample_world []) = ((True, None), w') \<and>
     LoadKeyPair demo_prims ''key'' (w'\<lparr>plan := []\<rparr>) = (Inr kp, w'\<lparr>plan := []\<rparr>)"
proof -
  obtain kp where kp: "GenerateKeyPair demo_prims (Some 7) = Inr kp" by (simp add: GenerateKeyPair_def)
  then have f: "PrivateKey kp = Some 7" "PublicKey kp = ''P7''"
    by (auto simp: GenerateKeyPair_def demo_pub)
  have s: "SaveKeyPair demo_prims (Some kp) ''key'' (sample_world []) =
      ((True, None), \<lparr>files = [(''old'', ''x''), (''key'', key_file_bytes demo_prims 7 ''P7'')], plan = [], clock = 0\<rparr>)"
    by (simp add: SaveKeyPair_def PublishKeyFile_def f demo_parse kp demo_write)
  show ?thesis using key_file_roundtrip [OF demo_laws kp s] s by blast
qed

theorem published_key_file_consistent_witness:
  "\<exists>kp sk. ParseKeyPair demo_prims (key_file_bytes demo_prims 7 ''P7'') = Inr kp \<and>
    PrivateKey kp = Some sk \<and> PublicKey kp = mldsa_Public demo_prims sk \<and> Algorithm kp = SigAlg"
proof -
  obtain kp where kp: "GenerateKeyPair demo_prims (Some 7) = Inr kp" by (simp add: GenerateKeyPair_def)
  have p: "PublishKeyFile demo_prims (key_file_bytes demo_prims 7 ''P7'') ''key'' (sample_world []) =
      ((True, None), \<lparr>files = [(''old'', ''x''), (''key'', key_file_bytes demo_prims 7 ''P7'')], plan = [], clock = 0\<rparr>)"
    by (simp add: PublishKeyFile_def demo_parse kp demo_write)
  show ?thesis
    using published_key_file_consistent [OF p] by (simp add: contents_def sample_world_def)
qed

end
