(* ===== verification/Ledger_Event.thy ===== *)
theory Ledger_Event
  imports Go_Decode Crypto
begin

text \<open>
  One ledger record (\<open>internal/ledger/ledger.go\<close>): the \<open>Event\<close> struct, the entry bytes that are hashed
  and signed, the stored line, and reading a line back. The proofs here show that a line is read back
  as the event it was written from, and that the entry bytes determine the signed fields.
\<close>

datatype ledger_err =
    CanonicalErr canon_err | DecodeErr decode_err | ErrNotCanonical | NoPayload
  | ErrUnsignedRecord | InvalidSignatureEncoding | SignatureFailed crypto_err
  | IoErr io_err | ErrClosed | MalformedLine | ErrRecordUnreadable ledger_err | LineTooLong | GzipErr
  | ErrSegmentSet | ErrSegmentWithoutHead | ErrSealedWithoutWitness | ErrTailConflict
  | ErrWitnessKeyUnknown | HeadRefused | MissingNewline
  | ErrFrozen | ErrTailIntegrity ledger_err | ErrAppendUncertain | ErrEventTooLarge
  | ErrSealRecoveryRequired ledger_err | ErrModelIDOwned | PayloadNotObject | ModelIDNotString
  | TailTruncated | NotConsecutive | BrokenLink | ContentMismatch | StateDiverged
  | SealBeyondLast | SealAlreadySealed | UnexpectedRecord | TailEndsBefore
  | ErrRecordExists | ErrLedgerInUse | ErrStop | ErrCaptureRefused ledger_err | NoRecords | NotOpen | Refused

subsection \<open>Event types\<close>

type_synonym EventType = bytes

definition EventRing0Genesis :: EventType where "EventRing0Genesis = ''ring0.genesis''"
definition EventRelationshipUpsert :: EventType where "EventRelationshipUpsert = ''relationship.upsert''"
definition EventBeliefPromote :: EventType where "EventBeliefPromote = ''belief.promote''"
definition EventExperienceCreate :: EventType where "EventExperienceCreate = ''experience.create''"
definition EventBeliefUpsert :: EventType where "EventBeliefUpsert = ''belief.upsert''"
definition EventEdgeCreate :: EventType where "EventEdgeCreate = ''edge.create''"
definition EventSelfModelSynthesize :: EventType where "EventSelfModelSynthesize = ''self_model.synthesize''"
definition EventIntentionCreate :: EventType where "EventIntentionCreate = ''intention.create''"
definition EventIntentionStateChange :: EventType where "EventIntentionStateChange = ''intention.state_change''"
definition EventCommitmentPromised :: EventType where "EventCommitmentPromised = ''commitment.promised''"
definition EventCommitmentStateChange :: EventType where "EventCommitmentStateChange = ''commitment.state_change''"
definition EventBeliefArchive :: EventType where "EventBeliefArchive = ''belief.archive''"
definition EventBeliefSupersede :: EventType where "EventBeliefSupersede = ''belief.supersede''"
definition EventEdgeArchive :: EventType where "EventEdgeArchive = ''edge.archive''"
definition EventWorkingStyleUpsert :: EventType where "EventWorkingStyleUpsert = ''working_style.upsert''"
definition EventConsolidationRun :: EventType where "EventConsolidationRun = ''consolidation.run''"
definition EventDreamRun :: EventType where "EventDreamRun = ''dream.run''"
definition EventSystemWitnessed :: EventType where "EventSystemWitnessed = ''system.witnessed''"
definition EventTrustEpochAccepted :: EventType where "EventTrustEpochAccepted = ''trust.epoch_accepted''"
definition EventNetworkNameClaimed :: EventType where "EventNetworkNameClaimed = ''network.name_claimed''"

definition CanonicalRings :: "EventType \<Rightarrow> int list" where
  "CanonicalRings t =
    (if t = EventRing0Genesis then [0]
     else if t = EventRelationshipUpsert then [1]
     else if t = EventBeliefPromote then [2]
     else if t \<in> {EventExperienceCreate, EventBeliefUpsert, EventEdgeCreate,
       EventSelfModelSynthesize, EventIntentionCreate, EventIntentionStateChange,
       EventCommitmentPromised, EventCommitmentStateChange,
       EventWorkingStyleUpsert, EventBeliefArchive, EventBeliefSupersede,
       EventEdgeArchive, EventConsolidationRun, EventDreamRun} then [3]
     else if t = EventSystemWitnessed then [0]
     else if t = EventTrustEpochAccepted then [0]
     else if t = EventNetworkNameClaimed then [0]
     else [])"

definition AllEventTypes :: "EventType list" where
  "AllEventTypes = [
     EventRing0Genesis, EventRelationshipUpsert, EventBeliefPromote, EventExperienceCreate,
     EventBeliefUpsert, EventEdgeCreate, EventSelfModelSynthesize, EventIntentionCreate,
     EventIntentionStateChange, EventCommitmentPromised, EventCommitmentStateChange,
     EventWorkingStyleUpsert, EventConsolidationRun, EventDreamRun, EventBeliefArchive,
     EventBeliefSupersede, EventEdgeArchive, EventSystemWitnessed, EventTrustEpochAccepted,
     EventNetworkNameClaimed]"

subsection \<open>The record\<close>

text \<open>
  \<open>sealed\<close>, \<open>closing\<close> and \<open>container\<close> are set by the reader of a container; they are not part of the
  stored line.
\<close>

record Event =
  Seq :: uint64
  Prev :: bytes
  Timestamp :: bytes
  Type :: EventType
  Ring :: int
  Content :: bytes
  Payload :: bytes
  Sig :: bytes
  sealed :: bool
  closing :: bool
  container :: bytes

text \<open>
  \<open>jsonString\<close>: a Go string as \<open>encoding/json\<close> writes it without HTML escaping. Beside the canonical
  escapes it writes U+2028 and U+2029 as escapes and a byte that is no UTF-8 as \<open>\ufffd\<close>.
\<close>

definition json_rune :: "nat \<Rightarrow> bytes" where
  "json_rune r = (if r = 0x2028 then CHR 0x5C # ''u2028'' else if r = 0x2029 then CHR 0x5C # ''u2029''
     else emit_rune r)"

function json_body :: "bytes \<Rightarrow> bytes" where
  "json_body s = (if s = [] then []
     else (if DecodeRune s = (RuneError, 1) then CHR 0x5C # ''ufffd'' else json_rune (fst (DecodeRune s)))
       @ json_body (drop (snd (DecodeRune s)) s))"
  by pat_completeness auto
termination
  by (relation "measure length") (auto simp: DecodeRune_width)

declare json_body.simps [simp del]

definition jsonString :: "bytes \<Rightarrow> bytes" where
  "jsonString s = CHR 0x22 # json_body s @ [CHR 0x22]"

definition json_key :: "bytes \<Rightarrow> bytes" where
  "json_key k = CHR 0x22 # k @ [CHR 0x22, CHR '':'']"

definition EntryBytes :: "Event \<Rightarrow> bytes" where
  "EntryBytes e = CHR 0x7B # json_key ''content'' @ jsonString (Content e)
     @ CHR '','' # json_key ''prev'' @ jsonString (Prev e)
     @ CHR '','' # json_key ''ring'' @ format_int (Ring e)
     @ CHR '','' # json_key ''seq'' @ FormatUint (Seq e)
     @ CHR '','' # json_key ''ts'' @ jsonString (Timestamp e)
     @ CHR '','' # json_key ''type'' @ jsonString (Type e)
     @ [CHR 0x7D]"

definition entrySum :: "'sk prims \<Rightarrow> Event \<Rightarrow> bytes" where
  "entrySum P e = sha256 P (EntryBytes e)"

definition EntryHash :: "'sk prims \<Rightarrow> Event \<Rightarrow> bytes" where
  "EntryHash P e = hex_encode (entrySum P e)"

definition MarshalJSON :: "Event \<Rightarrow> ledger_err + bytes" where
  "MarshalJSON e = (if Payload e = [] then Inl NoPayload
     else Inr (CHR 0x7B # json_key ''entry'' @ EntryBytes e @ CHR '','' # json_key ''payload'' @ Payload e
       @ (if Sig e \<noteq> [] then CHR '','' # json_key ''sig'' @ jsonString (Sig e) else []) @ [CHR 0x7D]))"

text \<open>The two structs a line is decoded into.\<close>

record wireRecord =
  w_Entry :: bytes
  w_Payload :: bytes
  w_Sig :: bytes

definition decode_wireRecord :: "bytes \<Rightarrow> decode_err + wireRecord" where
  "decode_wireRecord raw = (case Decode_object raw of Inl e \<Rightarrow> Inl e
     | Inr None \<Rightarrow> Inr \<lparr>w_Entry = [], w_Payload = [], w_Sig = []\<rparr>
     | Inr (Some ms) \<Rightarrow> (case match_fields [''entry'', ''payload'', ''sig''] ms of Inl e \<Rightarrow> Inl e
         | Inr fs \<Rightarrow> (case scalar_field token_string [] ''sig'' fs of Inl e \<Rightarrow> Inl e
             | Inr sig \<Rightarrow> Inr \<lparr>w_Entry = raw_field ''entry'' fs, w_Payload = raw_field ''payload'' fs, w_Sig = sig\<rparr>)))"

record wireEntry =
  en_Content :: bytes
  en_Prev :: bytes
  en_Ring :: int
  en_Seq :: uint64
  en_Ts :: bytes
  en_Type :: bytes

definition wireEntry_fields :: "(bytes \<times> bytes) list \<Rightarrow> decode_err + wireEntry" where
  "wireEntry_fields fs =
    (case scalar_field token_string [] ''content'' fs of Inl e \<Rightarrow> Inl e | Inr c \<Rightarrow>
    (case scalar_field token_string [] ''prev'' fs of Inl e \<Rightarrow> Inl e | Inr p \<Rightarrow>
    (case scalar_field token_int 0 ''ring'' fs of Inl e \<Rightarrow> Inl e | Inr r \<Rightarrow>
    (case scalar_field token_uint64 0 ''seq'' fs of Inl e \<Rightarrow> Inl e | Inr s \<Rightarrow>
    (case scalar_field token_string [] ''ts'' fs of Inl e \<Rightarrow> Inl e | Inr ts \<Rightarrow>
    (case scalar_field token_string [] ''type'' fs of Inl e \<Rightarrow> Inl e | Inr t \<Rightarrow>
      Inr \<lparr>en_Content = c, en_Prev = p, en_Ring = r, en_Seq = s, en_Ts = ts, en_Type = t\<rparr>))))))"

definition decode_wireEntry :: "bytes \<Rightarrow> decode_err + wireEntry" where
  "decode_wireEntry raw = (case Decode_object raw of Inl e \<Rightarrow> Inl e
     | Inr None \<Rightarrow> Inr \<lparr>en_Content = [], en_Prev = [], en_Ring = 0, en_Seq = 0, en_Ts = [], en_Type = []\<rparr>
     | Inr (Some ms) \<Rightarrow> (case match_fields [''content'', ''prev'', ''ring'', ''seq'', ''ts'', ''type''] ms of
           Inl e \<Rightarrow> Inl e | Inr fs \<Rightarrow> wireEntry_fields fs))"

definition UnmarshalJSON :: "bytes \<Rightarrow> ledger_err + Event" where
  "UnmarshalJSON raw = (case decode_wireRecord raw of Inl e \<Rightarrow> Inl (DecodeErr e)
     | Inr w \<Rightarrow>
        if w_Entry w = [] \<or> w_Payload w = [] then Inl ErrNotCanonical
        else (case decode_wireEntry (w_Entry w) of Inl e \<Rightarrow> Inl (DecodeErr e)
          | Inr en \<Rightarrow>
             let ev = \<lparr>Seq = en_Seq en, Prev = en_Prev en, Timestamp = en_Ts en, Type = en_Type en,
               Ring = en_Ring en, Content = en_Content en, Payload = w_Payload w, Sig = w_Sig w,
               sealed = False, closing = False, container = []\<rparr> in
             if EntryBytes ev \<noteq> w_Entry w then Inl ErrNotCanonical
             else if w_Payload w = [] \<or> hd (w_Payload w) \<noteq> CHR 0x7B then Inl ErrNotCanonical
             else (case CanonicalizeV1 (w_Payload w) of Inl e \<Rightarrow> Inl (CanonicalErr e)
               | Inr canonical \<Rightarrow> if canonical \<noteq> w_Payload w then Inl ErrNotCanonical else Inr ev)))"

definition decodeEvent :: "bytes \<Rightarrow> ledger_err + Event" where
  "decodeEvent raw = (case CanonicalizeV1 raw of Inl e \<Rightarrow> Inl (CanonicalErr e) | Inr _ \<Rightarrow> UnmarshalJSON raw)"

subsection \<open>The identity's signature\<close>

definition goldSignatureTag :: bytes where "goldSignatureTag = ''AII-LEDGER-LINE-SIGNATURE-GOLD''"
definition goldArtifactKind :: bytes where "goldArtifactKind = ''aii.ledger.line''"
definition goldCanonicalization :: bytes where "goldCanonicalization = ''aii-canonical-json''"
definition goldSuiteID :: bytes where "goldSuiteID = ''aii-pq-mldsa87''"
definition goldRoleIdentity :: bytes where "goldRoleIdentity = ''identity''"

definition SignatureInputGold :: "bytes \<Rightarrow> bytes \<Rightarrow> bytes \<Rightarrow> bytes" where
  "SignatureInputGold alg keyID entryHash = goldSignatureTag @ [NL]
     @ ''artifact_kind:'' @ goldArtifactKind @ [NL]
     @ ''canonicalization:'' @ goldCanonicalization @ [NL]
     @ ''suite_id:'' @ goldSuiteID @ [NL]
     @ ''role:'' @ goldRoleIdentity @ [NL]
     @ ''alg:'' @ alg @ [NL]
     @ ''key_id:'' @ keyID @ [NL]
     @ ''entry_sha256:'' @ entryHash @ [NL]"

definition verifyEventSignature :: "'sk prims \<Rightarrow> Event \<Rightarrow> bytes \<Rightarrow> ledger_err option" where
  "verifyEventSignature P evt pubKey =
    (if Sig evt = [] then Some ErrUnsignedRecord
     else case b64_decode (Sig evt) of None \<Rightarrow> Some InvalidSignatureEncoding
     | Some sig \<Rightarrow>
        (case Verify P pubKey (SignatureInputGold SigAlg (PublicKeyFingerprint P pubKey) (EntryHash P evt)) sig of
           Some e \<Rightarrow> Some (SignatureFailed e) | None \<Rightarrow> None))"

subsection \<open>JSON strings read back\<close>

lemma json_body_Nil [simp]: "json_body [] = []"
  by (simp add: json_body.simps)

lemma json_body_rune: "scalar r \<Longrightarrow> json_body (EncodeRune r @ s) = json_rune r @ json_body s"
  using DecodeRune_EncodeRune [of r s] EncodeRune_not_error [of r]
  by (subst json_body.simps) auto

lemma json_body_encode: "list_all scalar rs \<Longrightarrow> json_body (encode_runes rs) = concat (map json_rune rs)"
  by (induction rs) (simp_all add: json_body_rune)

lemma hex4_separators:
  "hex4 (''2028'' @ s) = Some 0x2028" "hex4 (''2029'' @ s) = Some 0x2029"
  by (simp_all add: hex4_def hex_val_def)

lemma lex_json_rune:
  assumes "scalar r"
  shows "lex_string (json_rune r @ s) = map_option (\<lambda>(b, rest). (EncodeRune r @ b, rest)) (lex_string s)"
proof -
  have u: "unquote_u (''2028'' @ s) = Some (0x2028, 4)" "unquote_u (''2029'' @ s) = Some (0x2029, 4)"
    unfolding unquote_u_def hex4_separators by (simp_all add: surrogate_def)
  consider "r = 0x2028" | "r = 0x2029" | "r \<noteq> 0x2028" "r \<noteq> 0x2029" by blast
  then show ?thesis
  proof cases
    case 1
    show ?thesis unfolding json_rune_def 1 by (subst lex_string.simps) (use u(1) in simp)
  next
    case 2
    show ?thesis unfolding json_rune_def 2 by (subst lex_string.simps) (use u(2) in simp)
  next
    case 3
    then show ?thesis using lex_string_rune [OF assms] by (simp add: json_rune_def)
  qed
qed

lemma lex_json_body:
  assumes "utf8_valid s"
  shows "lex_string (json_body s @ CHR 0x22 # rest) = Some (s, rest)"
proof -
  obtain rs where rs: "list_all scalar rs" "s = encode_runes rs" using assms by (auto simp: utf8_valid_iff)
  have "lex_string (concat (map json_rune rs) @ CHR 0x22 # rest) = Some (encode_runes rs, rest)"
    using rs(1)
  proof (induction rs)
    case Nil
    show ?case by (subst lex_string.simps) simp
  next
    case (Cons r rs)
    then show ?case by (simp add: lex_json_rune)
  qed
  then show ?thesis using rs by (simp add: json_body_encode)
qed

lemma jsonString_prefix:
  assumes "utf8_valid a" "utf8_valid b" "jsonString a @ x = jsonString b @ y"
  shows "a = b \<and> x = y"
proof -
  have "json_body a @ CHR 0x22 # x = json_body b @ CHR 0x22 # y" using assms(3) by (simp add: jsonString_def)
  then have "Some (a, x) = Some (b, y)" using lex_json_body assms(1,2) by metis
  then show ?thesis by simp
qed

text \<open>Without the two separators this is the canonical form of the string.\<close>

definition plain_field :: "bytes \<Rightarrow> bool" where
  "plain_field s \<longleftrightarrow> utf8_valid s \<and> CHR 0x00 \<notin> set s \<and> 0x2028 \<notin> set (runes s) \<and> 0x2029 \<notin> set (runes s)"

lemma jsonString_plain:
  assumes "plain_field s"
  shows "jsonString s = emitCanonicalJSONString s"
proof -
  have v: "utf8_valid s" and p: "0x2028 \<notin> set (runes s)" "0x2029 \<notin> set (runes s)"
    using assms by (auto simp: plain_field_def)
  have rs: "list_all scalar (runes s)" "s = encode_runes (runes s)" using utf8_valid_runes [OF v] by auto
  have "json_body s = concat (map json_rune (runes s))" using json_body_encode [OF rs(1)] rs(2) by simp
  also have "map json_rune (runes s) = map emit_rune (runes s)" using p by (auto simp: json_rune_def)
  finally show ?thesis by (simp add: jsonString_def emitCanonicalJSONString_def)
qed

lemma plain_field_ascii: "list_all plain_char s \<Longrightarrow> plain_field s"
proof -
  assume s: "list_all plain_char s"
  then have a: "list_all (\<lambda>c. bval c < 0x80) s" by (rule list.pred_mono_strong) (simp add: plain_char_def)
  have "n < 0x80" if "n \<in> set (runes s)" for n using that a by (auto simp: runes_ascii list_all_iff)
  then have "0x2028 \<notin> set (runes s)" "0x2029 \<notin> set (runes s)" by force+
  with plain_valid [OF s] show ?thesis by (simp add: plain_field_def)
qed

subsection \<open>The entry bytes determine the signed fields\<close>

definition fields_valid :: "Event \<Rightarrow> bool" where
  "fields_valid e \<longleftrightarrow> utf8_valid (Content e) \<and> utf8_valid (Prev e) \<and> utf8_valid (Timestamp e) \<and> utf8_valid (Type e)"

lemma format_int_inj: "format_int a = format_int b \<Longrightarrow> a = b"
proof -
  have h: "format_nat n \<noteq> CHR ''-'' # s" for n s
    using set_format_nat [of "CHR ''-''" n] by (auto simp: is_digit_def)
  assume e: "format_int a = format_int b"
  show "a = b"
  proof (cases "a < 0"; cases "b < 0")
    assume "a < 0" "b < 0"
    then have "nat (- a) = nat (- b)" using e by (intro format_nat_inj) (simp add: format_int_def)
    then show ?thesis using \<open>a < 0\<close> \<open>b < 0\<close> by simp
  next
    assume "\<not> a < 0" "\<not> b < 0"
    then have "nat a = nat b" using e by (intro format_nat_inj) (simp add: format_int_def)
    then show ?thesis using \<open>\<not> a < 0\<close> \<open>\<not> b < 0\<close> by simp
  next
    assume "a < 0" "\<not> b < 0"
    then show ?thesis using e h [of "nat b" "format_nat (nat (- a))"] by (simp add: format_int_def)
  next
    assume "\<not> a < 0" "b < 0"
    then show ?thesis using e h [of "nat a" "format_nat (nat (- b))"] by (simp add: format_int_def)
  qed
qed

lemma set_format_int: "c \<in> set (format_int n) \<Longrightarrow> is_digit c \<or> c = CHR ''-''"
  by (auto simp: format_int_def split: if_splits dest: set_format_nat)

lemma set_FormatUint: "c \<in> set (FormatUint n) \<Longrightarrow> is_digit c"
  by (auto simp: FormatUint_def dest: set_format_nat)

lemma split_at_comma:
  assumes "CHR '','' \<notin> set a" "CHR '','' \<notin> set b" "a @ CHR '','' # x = b @ CHR '','' # y"
  shows "a = b \<and> x = y"
proof -
  have "Some (a, x) = cut_at (CHR '','') (a @ CHR '','' # x)" using assms(1) by simp
  also have "\<dots> = cut_at (CHR '','') (b @ CHR '','' # y)" by (simp only: assms(3))
  also have "\<dots> = Some (b, y)" using assms(2) by simp
  finally show ?thesis by simp
qed

lemma EntryBytes_inj:
  assumes "fields_valid a" "fields_valid b" "EntryBytes a = EntryBytes b"
  shows "Content a = Content b \<and> Prev a = Prev b \<and> Ring a = Ring b \<and> Seq a = Seq b
    \<and> Timestamp a = Timestamp b \<and> Type a = Type b"
proof -
  define T where "T e = json_key ''type'' @ jsonString (Type e) @ [CHR 0x7D]" for e :: Event
  define S where "S e = json_key ''ts'' @ jsonString (Timestamp e) @ CHR '','' # T e" for e :: Event
  define R where "R e = json_key ''seq'' @ FormatUint (Seq e) @ CHR '','' # S e" for e :: Event
  define Q where "Q e = json_key ''ring'' @ format_int (Ring e) @ CHR '','' # R e" for e :: Event
  define U where "U e = json_key ''prev'' @ jsonString (Prev e) @ CHR '','' # Q e" for e :: Event
  have num: "CHR '','' \<notin> set (format_int n)" "CHR '','' \<notin> set (FormatUint m)" for n m
    using set_format_int [of "CHR '',''" n] set_FormatUint [of "CHR '',''" m] by (auto simp: is_digit_def)
  have E: "EntryBytes e = CHR 0x7B # json_key ''content'' @ jsonString (Content e) @ CHR '','' # U e" for e :: Event
    by (simp add: EntryBytes_def U_def Q_def R_def S_def T_def)
  have v: "utf8_valid (Content a)" "utf8_valid (Content b)" "utf8_valid (Prev a)" "utf8_valid (Prev b)"
      "utf8_valid (Timestamp a)" "utf8_valid (Timestamp b)" "utf8_valid (Type a)" "utf8_valid (Type b)"
    using assms(1,2) by (simp_all add: fields_valid_def)
  have "jsonString (Content a) @ CHR '','' # U a = jsonString (Content b) @ CHR '','' # U b"
    using assms(3) by (simp only: E list.inject same_append_eq)
  from jsonString_prefix [OF v(1,2) this] have c: "Content a = Content b" "U a = U b" by auto
  have "jsonString (Prev a) @ CHR '','' # Q a = jsonString (Prev b) @ CHR '','' # Q b"
    using c(2) by (simp only: U_def same_append_eq)
  from jsonString_prefix [OF v(3,4) this] have p: "Prev a = Prev b" "Q a = Q b" by auto
  have "format_int (Ring a) @ CHR '','' # R a = format_int (Ring b) @ CHR '','' # R b"
    using p(2) by (simp only: Q_def same_append_eq)
  from split_at_comma [OF num(1) num(1) this] have r: "Ring a = Ring b" "R a = R b"
    using format_int_inj by auto
  have "FormatUint (Seq a) @ CHR '','' # S a = FormatUint (Seq b) @ CHR '','' # S b"
    using r(2) by (simp only: R_def same_append_eq)
  from split_at_comma [OF num(2) num(2) this] have s: "Seq a = Seq b" "S a = S b"
    using FormatUint_inj by auto
  have "jsonString (Timestamp a) @ CHR '','' # T a = jsonString (Timestamp b) @ CHR '','' # T b"
    using s(2) by (simp only: S_def same_append_eq)
  from jsonString_prefix [OF v(5,6) this] have t: "Timestamp a = Timestamp b" "T a = T b" by auto
  have "jsonString (Type a) @ [CHR 0x7D] = jsonString (Type b) @ [CHR 0x7D]"
    using t(2) by (simp only: T_def same_append_eq)
  from jsonString_prefix [OF v(7,8) this] have "Type a = Type b" by simp
  then show ?thesis using c p r s t by blast
qed

subsection \<open>Numbers in canonical form\<close>

lemma format_nat_head: "0 < n \<Longrightarrow> 49 \<le> bval (hd (format_nat n)) \<and> bval (hd (format_nat n)) \<le> 57"
proof (induction n rule: format_nat.induct)
  case (1 n)
  show ?case
  proof (cases "n < 10")
    case True
    then show ?thesis using "1.prems" by (subst (1 2) format_nat.simps) simp
  next
    case False
    then have "hd (format_nat n) = hd (format_nat (n div 10))"
      by (subst format_nat.simps) (simp add: hd_append)
    then show ?thesis using "1.IH" False by simp
  qed
qed

lemma number_body_format:
  assumes "0 < n"
  shows "number_body neg (format_nat n)"
proof -
  obtain c u where f: "format_nat n = c # u" by (cases "format_nat n") auto
  have c: "49 \<le> bval c" "bval c \<le> 57" using format_nat_head [OF assms] f by auto
  then have n0: "c \<noteq> CHR ''0''" by auto
  have d: "list_all isJSONDigit (c # u)" using format_nat_digits [of n] f by (simp add: digit_eq)
  then have t: "takeWhile isJSONDigit (c # u) = c # u" by (simp add: takeWhile_eq_all_conv list_all_iff)
  show ?thesis unfolding f using c n0 t by (auto simp: number_body_def Let_def)
qed

lemma canonical_format_nat: "canonicalJSONNumber (format_nat n)"
proof (cases "n = 0")
  case True
  then show ?thesis
    by (simp add: format_nat.simps digit_char_def canonicalJSONNumber_def number_body_def char_of_eq_iff)
next
  case False
  have d: "is_digit (hd (format_nat n))" "list_all is_digit (format_nat n)"
    using format_nat_digits [of n] by (cases "format_nat n"; simp)+
  then have "\<not> list_ex (\<lambda>c. c = CHR ''e'' \<or> c = CHR ''E'' \<or> c = CHR ''+'') (format_nat n)"
    by (auto simp: list_ex_iff list_all_iff is_digit_def)
  moreover have "hd (format_nat n) \<noteq> CHR ''-''" using d(1) by (auto simp: is_digit_def)
  ultimately show ?thesis using number_body_format False by (simp add: canonicalJSONNumber_def)
qed

lemma canonical_format_int: "canonicalJSONNumber (format_int i)"
proof (cases "i < 0")
  case True
  have "list_all is_digit (format_nat (nat (- i)))" by (rule format_nat_digits)
  then have "\<not> list_ex (\<lambda>c. c = CHR ''e'' \<or> c = CHR ''E'' \<or> c = CHR ''+'') (format_nat (nat (- i)))"
    by (auto simp: list_ex_iff list_all_iff is_digit_def)
  then show ?thesis using True number_body_format [of "nat (- i)" True] by (simp add: canonicalJSONNumber_def format_int_def)
next
  case False
  then show ?thesis using canonical_format_nat by (simp add: format_int_def)
qed

lemma ParseInt_format_int:
  assumes "- (2 ^ 63) \<le> i" "i < 2 ^ 63"
  shows "ParseInt (format_int i) = Some i"
proof (cases "i < 0")
  case True
  then show ?thesis using assms format_nat_digits [of "nat (- i)"] by (simp add: ParseInt_def format_int_def Let_def nat_le_iff)
next
  case False
  let ?s = "format_nat (nat i)"
  obtain c u where f: "?s = c # u" by (cases ?s) auto
  have "is_digit c" using format_nat_digits [of "nat i"] f by simp
  then have "c \<noteq> CHR ''-''" "c \<noteq> CHR ''+''" by (auto simp: is_digit_def)
  moreover have "digits_val (c # u) = nat i" using f [symmetric] by simp
  ultimately show ?thesis
    using False assms format_nat_digits [of "nat i"] by (simp add: ParseInt_def format_int_def f Let_def nat_less_iff)
qed

lemma canonical_FormatUint: "canonicalJSONNumber (FormatUint n)"
  by (simp add: FormatUint_def canonical_format_nat)

subsection \<open>The stored line as a canonical document\<close>

definition entry_doc :: "Event \<Rightarrow> json" where
  "entry_doc e = JObj [(''content'', JStr (Content e)), (''prev'', JStr (Prev e)), (''ring'', JNum (format_int (Ring e))),
     (''seq'', JNum (FormatUint (Seq e))), (''ts'', JStr (Timestamp e)), (''type'', JStr (Type e))]"

definition event_doc :: "Event \<Rightarrow> json \<Rightarrow> json" where
  "event_doc e v = JObj ([(''entry'', entry_doc e), (''payload'', v)]
     @ (if Sig e \<noteq> [] then [(''sig'', JStr (Sig e))] else []))"

text \<open>
  An event whose text fields are plain and whose payload is a canonical object: what the code itself
  writes.
\<close>

definition storable :: "Event \<Rightarrow> (bytes \<times> json) list \<Rightarrow> bool" where
  "storable e ms \<longleftrightarrow> plain_field (Content e) \<and> plain_field (Prev e) \<and> plain_field (Timestamp e) \<and> plain_field (Type e)
     \<and> plain_field (Sig e) \<and> - (2 ^ 63) \<le> Ring e \<and> Ring e < 2 ^ 63
     \<and> wf_json (JObj ms) \<and> Payload e = emitCanonicalJSONValue (JObj ms)"

lemma key_texts:
  "json_key k = emitCanonicalJSONString k @ [CHR '':'']" if "list_all plain_char k"
  using emit_plain [OF that] by (simp add: json_key_def)

lemma plain_keys:
  "list_all plain_char ''content''" "list_all plain_char ''prev''" "list_all plain_char ''ring''"
  "list_all plain_char ''seq''" "list_all plain_char ''ts''" "list_all plain_char ''type''"
  "list_all plain_char ''entry''" "list_all plain_char ''payload''" "list_all plain_char ''sig''"
  by (simp_all add: plain_char_def)

lemmas key_forms = plain_keys [THEN key_texts] 

lemma EntryBytes_members:
  "EntryBytes e = object_text [(''content'', jsonString (Content e)), (''prev'', jsonString (Prev e)),
     (''ring'', format_int (Ring e)), (''seq'', FormatUint (Seq e)),
     (''ts'', jsonString (Timestamp e)), (''type'', jsonString (Type e))]"
  by (simp add: EntryBytes_def object_text_def member_text_def key_forms)

lemma MarshalJSON_members:
  assumes "Payload e \<noteq> []"
  shows "MarshalJSON e = Inr (object_text ([(''entry'', EntryBytes e), (''payload'', Payload e)]
     @ (if Sig e \<noteq> [] then [(''sig'', jsonString (Sig e))] else [])))"
  using assms by (simp add: MarshalJSON_def object_text_def member_text_def key_forms)

lemma sorted_keys:
  "sorted [''content'', ''prev'', ''ring'', ''seq'', ''ts'', ''type'']"
  "sorted [''entry'', ''payload'']" "sorted [''entry'', ''payload'', ''sig'']"
  by (simp_all add: less_eq_char_def less_char_def)

lemma EntryBytes_canonical:
  assumes "storable e ms"
  shows "EntryBytes e = emitCanonicalJSONValue (entry_doc e)"
proof -
  have s: "sorted (map fst [(''content'', JStr (Content e)), (''prev'', JStr (Prev e)), (''ring'', JNum (format_int (Ring e))),
     (''seq'', JNum (FormatUint (Seq e))), (''ts'', JStr (Timestamp e)), (''type'', JStr (Type e))])"
    using sorted_keys(1) by (simp only: list.map fst_conv)
  show ?thesis
    unfolding entry_doc_def emit_sorted_members [OF s] EntryBytes_members
    using assms by (simp add: storable_def jsonString_plain)
qed

lemma wf_entry_doc: "storable e ms \<Longrightarrow> wf_json (entry_doc e)"
  using plain_keys [THEN plain_valid]
  by (simp add: entry_doc_def storable_def plain_field_def canonical_format_int canonical_FormatUint)

lemma wf_event_doc: "storable e ms \<Longrightarrow> wf_json (event_doc e (JObj ms))"
  using plain_keys [THEN plain_valid] wf_entry_doc [of e ms]
  by (simp add: event_doc_def storable_def plain_field_def)

lemma payload_nonempty: "storable e ms \<Longrightarrow> Payload e \<noteq> [] \<and> hd (Payload e) = CHR 0x7B"
  by (simp add: storable_def)

lemma MarshalJSON_canonical:
  assumes "storable e ms"
  shows "MarshalJSON e = Inr (emitCanonicalJSONValue (event_doc e (JObj ms)))"
proof -
  have p: "Payload e = emitCanonicalJSONValue (JObj ms)" using assms by (simp add: storable_def)
  show ?thesis
  proof (cases "Sig e = []")
    case True
    have s: "sorted (map fst [(''entry'', entry_doc e), (''payload'', JObj ms)])"
      using sorted_keys(2) by (simp only: list.map fst_conv)
    show ?thesis using payload_nonempty [OF assms] emit_sorted_members [OF s] True
      by (simp add: MarshalJSON_members event_doc_def EntryBytes_canonical [OF assms] p)
  next
    case False
    have s: "sorted (map fst [(''entry'', entry_doc e), (''payload'', JObj ms), (''sig'', JStr (Sig e))])"
      using sorted_keys(3) by (simp only: list.map fst_conv)
    have "jsonString (Sig e) = emitCanonicalJSONString (Sig e)"
      using assms by (simp add: storable_def jsonString_plain)
    then show ?thesis using payload_nonempty [OF assms] emit_sorted_members [OF s] False
      by (simp add: MarshalJSON_members event_doc_def EntryBytes_canonical [OF assms] p)
  qed
qed

subsection \<open>Reading a stored line back\<close>

lemma plain_scans: "plain_field s \<Longrightarrow> scans (jsonString s)"
  using jsonString_plain scans_string by (simp add: plain_field_def)

lemma plain_token: "plain_field s \<Longrightarrow> dec_Token (NewDecoder (jsonString s)) = Inr (TString s, dec_at [] TokTop [])"
  using jsonString_plain token_emit_string by (simp add: plain_field_def)

lemma decode_wireEntry_EntryBytes:
  assumes "storable e ms"
  shows "decode_wireEntry (EntryBytes e) = Inr \<lparr>en_Content = Content e, en_Prev = Prev e, en_Ring = Ring e,
    en_Seq = Seq e, en_Ts = Timestamp e, en_Type = Type e\<rparr>"
proof -
  let ?fs = "[(''content'', jsonString (Content e)), (''prev'', jsonString (Prev e)),
     (''ring'', format_int (Ring e)), (''seq'', FormatUint (Seq e)),
     (''ts'', jsonString (Timestamp e)), (''type'', jsonString (Type e))]"
  have p: "plain_field (Content e)" "plain_field (Prev e)" "plain_field (Timestamp e)" "plain_field (Type e)"
    and r: "- (2 ^ 63) \<le> Ring e" "Ring e < 2 ^ 63"
    using assms by (simp_all add: storable_def)
  have "list_all (\<lambda>(k, raw). utf8_valid k \<and> scans raw) ?fs"
    using p plain_keys [THEN plain_valid]
    by (simp add: plain_scans scans_number canonical_format_int canonical_FormatUint)
  from Decode_object_text [OF this, of "[]"] have d: "Decode_object (EntryBytes e) = Inr (Some ?fs)"
    by (simp add: EntryBytes_members)
  have m: "match_fields [''content'', ''prev'', ''ring'', ''seq'', ''ts'', ''type''] ?fs = Inr ?fs"
    by (rule match_fields_exact) simp
  have f: "field_raws ''content'' ?fs = [jsonString (Content e)]" "field_raws ''prev'' ?fs = [jsonString (Prev e)]"
    "field_raws ''ring'' ?fs = [format_int (Ring e)]" "field_raws ''seq'' ?fs = [FormatUint (Seq e)]"
    "field_raws ''ts'' ?fs = [jsonString (Timestamp e)]" "field_raws ''type'' ?fs = [jsonString (Type e)]"
    by (simp_all add: field_raws_def)
  have "scalar_field token_string [] ''content'' ?fs = Inr (Content e)"
    "scalar_field token_string [] ''prev'' ?fs = Inr (Prev e)"
    "scalar_field token_string [] ''ts'' ?fs = Inr (Timestamp e)"
    "scalar_field token_string [] ''type'' ?fs = Inr (Type e)"
    by (rule scalar_field_one [OF f(1) plain_token [OF p(1)]] scalar_field_one [OF f(2) plain_token [OF p(2)]]
        scalar_field_one [OF f(5) plain_token [OF p(3)]] scalar_field_one [OF f(6) plain_token [OF p(4)]]; simp)+
  moreover have "scalar_field token_int 0 ''ring'' ?fs = Inr (Ring e)"
    by (rule scalar_field_one [OF f(3) token_number [OF canonical_format_int]]) (simp_all only: token_int.simps ParseInt_format_int [OF r] token.simps not_False_eq_True)
  moreover have "scalar_field token_uint64 0 ''seq'' ?fs = Inr (Seq e)"
    by (rule scalar_field_one [OF f(4) token_number [OF canonical_FormatUint]]) simp_all
  ultimately show ?thesis by (simp only: decode_wireEntry_def d m sum.case option.case wireEntry_fields_def)
qed

lemma decode_wireRecord_line:
  assumes "storable e ms" "MarshalJSON e = Inr line"
  shows "decode_wireRecord line = Inr \<lparr>w_Entry = EntryBytes e, w_Payload = Payload e, w_Sig = Sig e\<rparr>"
proof -
  let ?fs = "[(''entry'', EntryBytes e), (''payload'', Payload e)] @ (if Sig e \<noteq> [] then [(''sig'', jsonString (Sig e))] else [])"
  have line: "line = object_text ?fs" using assms payload_nonempty [OF assms(1)] by (simp add: MarshalJSON_members)
  have s: "plain_field (Sig e)" "Payload e = emitCanonicalJSONValue (JObj ms)" "wf_json (JObj ms)"
    using assms(1) by (simp_all add: storable_def)
  have sc: "scans (EntryBytes e)" "scans (Payload e)"
    using scans_emit [OF wf_entry_doc [OF assms(1)]] scans_emit [OF s(3)]
    unfolding EntryBytes_canonical [OF assms(1)] s(2) .
  have "list_all (\<lambda>(k, raw). utf8_valid k \<and> scans raw) ?fs"
    using s(1) sc plain_keys [THEN plain_valid] by (simp add: plain_scans)
  from Decode_object_text [OF this, of "[]"] have d: "Decode_object line = Inr (Some ?fs)" by (simp add: line)
  have m: "match_fields [''entry'', ''payload'', ''sig''] ?fs = Inr ?fs" by (rule match_fields_exact) auto
  have r: "raw_field ''entry'' ?fs = EntryBytes e" "raw_field ''payload'' ?fs = Payload e"
    by (simp_all add: raw_field_def field_raws_def)
  have "scalar_field token_string [] ''sig'' ?fs = Inr (Sig e)"
  proof (cases "Sig e = []")
    case True
    then show ?thesis by (simp add: scalar_field_none field_raws_def)
  next
    case False
    then have "field_raws ''sig'' ?fs = [jsonString (Sig e)]" by (simp add: field_raws_def)
    then show ?thesis by (rule scalar_field_one [OF _ plain_token [OF s(1)]]) simp_all
  qed
  then show ?thesis by (simp only: decode_wireRecord_def d m r sum.case option.case)
qed

lemma decodeEvent_line:
  assumes "storable e ms" "MarshalJSON e = Inr line"
  shows "decodeEvent line = Inr (e\<lparr>sealed := False, closing := False, container := []\<rparr>)"
proof -
  let ?e = "e\<lparr>sealed := False, closing := False, container := []\<rparr>"
  have line: "line = emitCanonicalJSONValue (event_doc e (JObj ms))"
    using assms MarshalJSON_canonical by simp
  have c: "CanonicalizeV1 line = Inr line"
    unfolding line by (rule canonicalize_emit [OF wf_event_doc [OF assms(1)]])
  have s: "Payload e = emitCanonicalJSONValue (JObj ms)" "wf_json (JObj ms)" using assms(1) by (simp_all add: storable_def)
  have p: "CanonicalizeV1 (Payload e) = Inr (Payload e)" unfolding s(1) by (rule canonicalize_emit [OF s(2)])
  have ne: "EntryBytes e \<noteq> []" by (simp add: EntryBytes_def)
  have eb: "EntryBytes ?e = EntryBytes e" by (simp add: EntryBytes_def)
  have ev: "\<lparr>Seq = Seq e, Prev = Prev e, Timestamp = Timestamp e, Type = Type e, Ring = Ring e, Content = Content e,
      Payload = Payload e, Sig = Sig e, sealed = False, closing = False, container = []\<rparr> = ?e" by simp
  show ?thesis
    unfolding decodeEvent_def c UnmarshalJSON_def decode_wireRecord_line [OF assms]
    using payload_nonempty [OF assms(1)]
    by (simp add: decode_wireEntry_EntryBytes [OF assms(1)] ne ev eb p)
qed

text \<open>What an accepted line holds.\<close>

lemma scalar_field_string_valid:
  assumes "scalar_field token_string [] n fs = Inr s"
  shows "utf8_valid s"
proof -
  define step where "step = (\<lambda>acc raw. case acc of Inl e \<Rightarrow> Inl e
     | Inr (x::bytes) \<Rightarrow> (case dec_Token (NewDecoder raw) of Inl e \<Rightarrow> Inl (Malformed e)
         | Inr (TNull, _) \<Rightarrow> Inr x
         | Inr (tok, _) \<Rightarrow> (case token_string tok of None \<Rightarrow> Inl WrongType | Some y \<Rightarrow> Inr y)))"
  have one: "step acc raw = Inr y \<Longrightarrow> (\<And>x. acc = Inr x \<Longrightarrow> utf8_valid x) \<Longrightarrow> utf8_valid y" for acc raw y
    by (auto simp: step_def split: sum.splits prod.splits token.splits dest: dec_Token_string_valid)
  have "foldl step acc raws = Inr y \<Longrightarrow> (\<And>x. acc = Inr x \<Longrightarrow> utf8_valid x) \<Longrightarrow> utf8_valid y" for acc raws y
    by (induction raws arbitrary: acc) (auto intro: one)
  from this [of "Inr []" "field_raws n fs" s] show ?thesis
    using assms by (simp add: scalar_field_def step_def)
qed

lemma wireEntry_fields_valid:
  "wireEntry_fields fs = Inr en \<Longrightarrow> utf8_valid (en_Content en) \<and> utf8_valid (en_Prev en) \<and> utf8_valid (en_Ts en) \<and> utf8_valid (en_Type en)"
  by (auto simp: wireEntry_fields_def split: sum.splits dest: scalar_field_string_valid)

lemma decodeEvent_Inr:
  assumes "decodeEvent raw = Inr e"
  shows "fields_valid e \<and> \<not> sealed e \<and> Payload e \<noteq> [] \<and> CanonicalizeV1 (Payload e) = Inr (Payload e)"
proof -
  obtain w en where w: "decode_wireRecord raw = Inr w" "decode_wireEntry (w_Entry w) = Inr en"
    and e: "e = \<lparr>Seq = en_Seq en, Prev = en_Prev en, Timestamp = en_Ts en, Type = en_Type en,
               Ring = en_Ring en, Content = en_Content en, Payload = w_Payload w, Sig = w_Sig w,
               sealed = False, closing = False, container = []\<rparr>"
      "w_Payload w \<noteq> []" "CanonicalizeV1 (w_Payload w) = Inr (w_Payload w)"
    using assms by (auto simp: decodeEvent_def UnmarshalJSON_def Let_def split: sum.splits if_splits)
  have "utf8_valid (en_Content en) \<and> utf8_valid (en_Prev en) \<and> utf8_valid (en_Ts en) \<and> utf8_valid (en_Type en)"
    using w(2) by (auto simp: decode_wireEntry_def split: sum.splits option.splits dest: wireEntry_fields_valid)
  then show ?thesis using e by (simp add: fields_valid_def)
qed

subsection \<open>A stored line is one line\<close>

lemma EncodeRune_printable: "scalar r \<Longrightarrow> 0x20 \<le> r \<Longrightarrow> c \<in> set (EncodeRune r) \<Longrightarrow> 0x20 \<le> bval c"
  using EncodeRune_high [of r c] by (cases "r < 0x80") (auto simp: EncodeRune_ascii)

lemma emit_rune_printable:
  assumes "scalar r" "c \<in> set (emit_rune r)"
  shows "0x20 \<le> bval c"
proof (cases "r < 0x20")
  case True
  have "r div 16 < 16" using True by simp
  then have "0x20 \<le> bval (hex_digit (r div 16))" "0x20 \<le> bval (hex_digit (r mod 16))"
    using bval_hex_digit [of "r div 16"] bval_hex_digit [of "r mod 16"] by simp_all
  then show ?thesis using assms(2) True by (auto simp: emit_rune_def split: if_splits)
next
  case False
  then show ?thesis using assms EncodeRune_printable [of r c] by (auto simp: emit_rune_def split: if_splits)
qed

lemma emit_string_printable: "utf8_valid s \<Longrightarrow> c \<in> set (emitCanonicalJSONString s) \<Longrightarrow> 0x20 \<le> bval c"
  using utf8_valid_runes [of s] emit_rune_printable by (auto simp: emitCanonicalJSONString_def list_all_iff)

lemma set_join_comma: "c \<in> set (join_comma xs) \<Longrightarrow> c = CHR '','' \<or> (\<exists>x \<in> set xs. c \<in> set x)"
  by (induction xs rule: join_comma.induct) auto

lemma emit_printable: "wf_json v \<Longrightarrow> c \<in> set (emitCanonicalJSONValue v) \<Longrightarrow> 0x20 \<le> bval c"
proof (induction v rule: emitCanonicalJSONValue.induct)
  case (1 ms)
  have "0x20 \<le> bval c" if m: "(k, v) \<in> set ms" and c: "c \<in> set (emitCanonicalJSONString k @ CHR '':'' # emitCanonicalJSONValue v)" for k v
  proof -
    have "utf8_valid k" "wf_json v" using "1.prems"(1) m by (auto simp: list_all_iff)
    then show ?thesis using c "1.IH" [of "(k, v)"] m emit_string_printable by auto
  qed
  then show ?case using "1.prems"(2) by (auto dest!: set_join_comma)
next
  case (2 vs)
  then show ?case by (auto dest!: set_join_comma simp: list_all_iff)
next
  case (3 s)
  then show ?case using emit_string_printable by auto
next
  case (4 s)
  then show ?case using canonical_number_chars [of s c] by (auto simp: is_digit_def)
qed (auto split: if_splits)


lemma storable_line:
  assumes "storable e ms" "MarshalJSON e = Inr line"
  shows "\<forall>c \<in> set line. 0x20 \<le> bval c" "\<exists>mid. line = CHR 0x7B # mid @ [CHR 0x7D]"
proof -
  have line: "line = emitCanonicalJSONValue (event_doc e (JObj ms))"
    using assms MarshalJSON_canonical by simp
  show "\<forall>c \<in> set line. 0x20 \<le> bval c" unfolding line using emit_printable [OF wf_event_doc [OF assms(1)]] by blast
  show "\<exists>mid. line = CHR 0x7B # mid @ [CHR 0x7D]" unfolding line event_doc_def by simp
qed

lemmas event_type_defs = EventRing0Genesis_def EventRelationshipUpsert_def EventBeliefPromote_def
  EventExperienceCreate_def EventBeliefUpsert_def EventEdgeCreate_def EventSelfModelSynthesize_def
  EventIntentionCreate_def EventIntentionStateChange_def EventCommitmentPromised_def
  EventCommitmentStateChange_def EventBeliefArchive_def EventBeliefSupersede_def EventEdgeArchive_def
  EventWorkingStyleUpsert_def EventConsolidationRun_def EventDreamRun_def EventSystemWitnessed_def
  EventTrustEpochAccepted_def EventNetworkNameClaimed_def

subsection \<open>Properties\<close>

text \<open>
  C20. A stored record reads back as the event it was written from: for an event with plain text
  fields and a canonical payload object, the line \<open>MarshalJSON\<close> writes is in canonical form itself,
  holds no control byte (so no line break), and \<open>decodeEvent\<close> returns every field unchanged.
\<close>

theorem event_line_roundtrip:
  assumes "storable e ms" "MarshalJSON e = Inr line"
  shows "decodeEvent line = Inr (e\<lparr>sealed := False, closing := False, container := []\<rparr>)
    \<and> CanonicalizeV1 line = Inr line \<and> (\<forall>c \<in> set line. 0x20 \<le> bval c)"
proof -
  have "line = emitCanonicalJSONValue (event_doc e (JObj ms))" using assms MarshalJSON_canonical by simp
  then have "CanonicalizeV1 line = Inr line" using canonicalize_emit [OF wf_event_doc [OF assms(1)]] by simp
  then show ?thesis using decodeEvent_line [OF assms] storable_line(1) [OF assms] by simp
qed

text \<open>
  C21. The entry hash binds the signed fields: two records read from a ledger that have the same entry
  hash agree in content hash, predecessor, ring, sequence number, time and type, unless their entry
  bytes are a collision of SHA-256.
\<close>

theorem entry_hash_binds:
  assumes "decodeEvent raw = Inr a" "decodeEvent raw' = Inr b" "EntryHash P a = EntryHash P b"
  shows "(Content a = Content b \<and> Prev a = Prev b \<and> Ring a = Ring b \<and> Seq a = Seq b
      \<and> Timestamp a = Timestamp b \<and> Type a = Type b)
    \<or> (EntryBytes a \<noteq> EntryBytes b \<and> sha256 P (EntryBytes a) = sha256 P (EntryBytes b))"
  using EntryBytes_inj [of a b] decodeEvent_Inr [OF assms(1)] decodeEvent_Inr [OF assms(2)]
    hex_encode_inj [of "sha256 P (EntryBytes a)" "sha256 P (EntryBytes b)"] assms(3)
  by (auto simp: EntryHash_def entrySum_def)


subsection \<open>Witnesses\<close>

definition sample_event :: Event where
  "sample_event = \<lparr>Seq = 1, Prev = [], Timestamp = ''2026-01-01T00:00:00Z'', Type = EventRing0Genesis, Ring = 0,
     Content = replicate 64 (CHR ''a''), Payload = ''{}'', Sig = ''c2ln'', sealed = False, closing = False, container = []\<rparr>"

lemma sample_storable: "storable sample_event []" "storable (sample_event\<lparr>Ring := 1\<rparr>) []"
  by (simp_all add: storable_def sample_event_def plain_field_ascii plain_char_def EventRing0Genesis_def list_all_iff)

theorem event_line_roundtrip_witness:
  "\<exists>line. MarshalJSON sample_event = Inr line \<and> decodeEvent line = Inr sample_event"
proof -
  obtain line where l: "MarshalJSON sample_event = Inr line" by (simp add: MarshalJSON_def sample_event_def)
  show ?thesis using event_line_roundtrip [OF sample_storable(1) l] l by (simp add: sample_event_def)
qed

theorem entry_hash_binds_witness:
  "EntryBytes sample_event \<noteq> EntryBytes (sample_event\<lparr>Ring := 1\<rparr>) \<and>
   sha256 demo_prims (EntryBytes sample_event) = sha256 demo_prims (EntryBytes (sample_event\<lparr>Ring := 1\<rparr>))"
proof -
  obtain l1 l2 where l: "MarshalJSON sample_event = Inr l1" "MarshalJSON (sample_event\<lparr>Ring := 1\<rparr>) = Inr l2"
    by (simp add: MarshalJSON_def sample_event_def)
  have d: "decodeEvent l1 = Inr sample_event" "decodeEvent l2 = Inr (sample_event\<lparr>Ring := 1\<rparr>)"
    using decodeEvent_line [OF sample_storable(1) l(1)] decodeEvent_line [OF sample_storable(2) l(2)]
    by (simp_all add: sample_event_def)
  have h: "EntryHash demo_prims sample_event = EntryHash demo_prims (sample_event\<lparr>Ring := 1\<rparr>)"
    by (simp add: EntryHash_def entrySum_def demo_prims_def EntryBytes_members object_text_def member_text_def
        sample_event_def jsonString_plain [OF plain_field_ascii] emit_plain plain_char_def list_all_iff)
  show ?thesis using entry_hash_binds [OF d h] by (auto simp: sample_event_def)
qed

end
