(* ===== verification/Ledger_Chain.thy ===== *)
theory Ledger_Chain
  imports Ledger_Event
begin

text \<open>
  Verification of a chain of records (\<open>verifyChain\<close> of \<open>internal/ledger/ledger.go\<close> and
  \<open>verify_failure.go\<close>). A source of records is the list it would deliver and the error, if any, it
  ends with; the head verifier is a function with a state, behind the interface \<open>HeadVerifier\<close> of
  \<open>container.go\<close>; the visitor is a callback with a state.
\<close>

record Boundary =
  B_Seq :: uint64
  B_Hash :: bytes

datatype requirement = SeqMismatch | PrevMismatch | PayloadMismatch | Requires ledger_err | WitnessHead ledger_err

record VerifyFailure =
  Requirement :: requirement
  F_Seq :: uint64
  Container :: bytes
  Expected :: bytes
  Observed :: bytes
  NextSeq :: uint64
  Proved :: Boundary
  Traversed :: Boundary
  Err :: ledger_err

subsection \<open>The hashes kept for late heads\<close>

record recordsSince =
  first :: uint64
  sums :: "bytes list"

definition since_empty :: recordsSince where
  "since_empty = \<lparr>first = 0, sums = []\<rparr>"

definition hashAt :: "recordsSince \<Rightarrow> uint64 \<Rightarrow> bytes option" where
  "hashAt w seq = (if seq < first w \<or> of_nat (length (sums w)) \<le> seq - first w then None
     else Some (hex_encode (sums w ! unat (seq - first w))))"

definition keep :: "recordsSince \<Rightarrow> uint64 \<Rightarrow> bytes \<Rightarrow> recordsSince" where
  "keep w seq sm = w\<lparr>first := (if sums w = [] then seq else first w), sums := sums w @ [sm]\<rparr>"

definition forget :: "recordsSince \<Rightarrow> uint64 \<Rightarrow> recordsSince" where
  "forget w through = (if sums w = [] \<or> through < first w then w
     else let k = through - first w + 1 in
       if k < of_nat (length (sums w))
       then w\<lparr>first := through + 1, sums := drop (unat k) (sums w)\<rparr>
       else w\<lparr>sums := []\<rparr>)"

subsection \<open>The walk\<close>

type_synonym 'h verify_head = "'h \<Rightarrow> Event \<Rightarrow> (uint64 \<Rightarrow> bytes option) \<Rightarrow> (uint64 \<times> ledger_err option) \<times> 'h"

record ('h, 'v) walk =
  expectedPrev :: bytes
  expectedSeq :: uint64
  proved :: Boundary
  traversed :: Boundary
  since :: recordsSince
  counted :: nat
  heads :: "'h option"
  visitor :: 'v

datatype stop = VisitStopped ledger_err | Failure VerifyFailure

definition walk_start :: "'h option \<Rightarrow> 'v \<Rightarrow> ('h, 'v) walk" where
  "walk_start h v = \<lparr>expectedPrev = [], expectedSeq = 0, proved = \<lparr>B_Seq = 0, B_Hash = []\<rparr>,
     traversed = \<lparr>B_Seq = 0, B_Hash = []\<rparr>, since = since_empty, counted = 0, heads = h, visitor = v\<rparr>"

definition refuse :: "('h, 'v) walk \<Rightarrow> uint64 \<Rightarrow> Event \<Rightarrow> requirement \<Rightarrow> bytes \<Rightarrow> bytes \<Rightarrow> ledger_err \<Rightarrow> stop" where
  "refuse st seq evt requirement expected observed err = Failure
     \<lparr>Requirement = requirement, F_Seq = seq, Container = container evt, Expected = expected,
      Observed = observed, NextSeq = 0, Proved = proved st, Traversed = traversed st, Err = err\<rparr>"

text \<open>The three link checks, before the record counts as traversed.\<close>

definition check_links :: "'sk prims \<Rightarrow> ('h, 'v) walk \<Rightarrow> Event \<Rightarrow> stop option" where
  "check_links P st evt =
    (if Seq evt \<noteq> expectedSeq st then Some (refuse st (expectedSeq st) evt SeqMismatch
       (''record '' @ FormatUint (expectedSeq st)) (''a record numbered '' @ FormatUint (Seq evt)) Refused)
     else if Prev evt \<noteq> expectedPrev st then Some (refuse st (Seq evt) evt PrevMismatch (expectedPrev st) (Prev evt) Refused)
     else if ContentHash P (Payload evt) \<noteq> Content evt
     then Some (refuse st (Seq evt) evt PayloadMismatch (Content evt) (ContentHash P (Payload evt)) Refused)
     else None)"

text \<open>The identity's proof: a signature, or a place in a sealed segment under a head verifier.\<close>

definition check_proof :: "'sk prims \<Rightarrow> bytes \<Rightarrow> ('h, 'v) walk \<Rightarrow> Event \<Rightarrow> stop + ('h, 'v) walk" where
  "check_proof P pubKey st evt =
    (if sealed evt \<and> heads st = None
     then Inl (refuse st (Seq evt) evt (Requires ErrSealedWithoutWitness) [] [] ErrSealedWithoutWitness)
     else if Sig evt \<noteq> [] then
       (case verifyEventSignature P evt pubKey of
          Some e \<Rightarrow> Inl (refuse st (Seq evt) evt (Requires e) [] [] e)
        | None \<Rightarrow> Inr (st\<lparr>proved := traversed st\<rparr>))
     else if \<not> sealed evt then Inl (refuse st (Seq evt) evt (Requires ErrUnsignedRecord) [] [] ErrUnsignedRecord)
     else Inr st)"

text \<open>A witness head: an unknown key is let pass in the tail, any other refusal ends the walk.\<close>

definition check_head :: "'h verify_head \<Rightarrow> ('h, 'v) walk \<Rightarrow> Event \<Rightarrow> stop option \<times> ('h, 'v) walk" where
  "check_head VerifyHead st evt =
    (case heads st of None \<Rightarrow> (None, st)
     | Some h \<Rightarrow>
        if Type evt = EventSystemWitnessed then
          (case VerifyHead h evt (hashAt (since st)) of ((attested, err), h') \<Rightarrow>
             (case err of
                None \<Rightarrow> (None, st\<lparr>heads := Some h', since := forget (since st) attested\<rparr>)
              | Some e \<Rightarrow>
                 if \<not> sealed evt \<and> e = ErrWitnessKeyUnknown
                 then (None, st\<lparr>heads := Some h', since := forget (since st) attested\<rparr>)
                 else (Some (refuse st (Seq evt) evt (WitnessHead e) [] [] e), st\<lparr>heads := Some h'\<rparr>)))
        else (None, st))"

definition walk_step ::
  "'sk prims \<Rightarrow> bytes \<Rightarrow> 'h verify_head \<Rightarrow> (Event \<Rightarrow> 'v \<Rightarrow> ledger_err option \<times> 'v) option
     \<Rightarrow> ('h, 'v) walk \<Rightarrow> Event \<Rightarrow> stop option \<times> ('h, 'v) walk" where
  "walk_step P pubKey VerifyHead visit st0 evt = (let st1 = st0\<lparr>expectedSeq := expectedSeq st0 + 1\<rparr> in
    (case check_links P st1 evt of Some s \<Rightarrow> (Some s, st1)
     | None \<Rightarrow>
       let sm = entrySum P evt; entryHash = hex_encode sm;
           st2 = st1\<lparr>traversed := \<lparr>B_Seq = Seq evt, B_Hash = entryHash\<rparr>\<rparr> in
       (case check_proof P pubKey st2 evt of Inl s \<Rightarrow> (Some s, st2)
        | Inr st3 \<Rightarrow>
          (case check_head VerifyHead st3 evt of (Some s, st4) \<Rightarrow> (Some s, st4)
           | (None, st4) \<Rightarrow>
             (case (case visit of None \<Rightarrow> (None, visitor st4) | Some f \<Rightarrow> f evt (visitor st4)) of
                (Some e, v) \<Rightarrow> (Some (VisitStopped e), st4\<lparr>visitor := v\<rparr>)
              | (None, v) \<Rightarrow> (None, st4\<lparr>visitor := v,
                  since := (if heads st4 = None then since st4 else keep (since st4) (Seq evt) sm),
                  expectedPrev := entryHash, counted := counted st4 + 1\<rparr>))))))"

fun walk_events ::
  "'sk prims \<Rightarrow> bytes \<Rightarrow> 'h verify_head \<Rightarrow> (Event \<Rightarrow> 'v \<Rightarrow> ledger_err option \<times> 'v) option
     \<Rightarrow> ('h, 'v) walk \<Rightarrow> Event list \<Rightarrow> stop option \<times> ('h, 'v) walk" where
  "walk_events P pubKey VerifyHead visit st [] = (None, st)"
| "walk_events P pubKey VerifyHead visit st (e # es) =
    (case walk_step P pubKey VerifyHead visit st e of (Some s, st') \<Rightarrow> (Some s, st')
     | (None, st') \<Rightarrow> walk_events P pubKey VerifyHead visit st' es)"

text \<open>The error of a walk: a refusal, or an error that is passed on as it is, such as that of a visitor.\<close>

datatype verify_error = OtherError ledger_err | ChainFailure VerifyFailure

text \<open>
  The verdict, the final state of the walk beside it. A visitor that stops with \<open>ErrStop\<close> stops the
  source, which then reports no error: the walk ends well with what it counted.
\<close>

definition verifyChain ::
  "'sk prims \<Rightarrow> bytes \<Rightarrow> 'h verify_head \<Rightarrow> 'h option \<Rightarrow> (Event \<Rightarrow> 'v \<Rightarrow> ledger_err option \<times> 'v) option \<Rightarrow> 'v
     \<Rightarrow> Event list \<times> ledger_err option \<Rightarrow> (verify_error + nat) \<times> ('h, 'v) walk" where
  "verifyChain P pubKey VerifyHead h visit v source =
    (case walk_events P pubKey VerifyHead visit (walk_start h v) (fst source) of
       (Some (VisitStopped e), st) \<Rightarrow> (if e = ErrStop then Inr (counted st) else Inl (OtherError e), st)
     | (Some (Failure f), st) \<Rightarrow> (Inl (ChainFailure f), st)
     | (None, st) \<Rightarrow> (case snd source of None \<Rightarrow> (Inr (counted st), st)
         | Some e \<Rightarrow> (Inl (ChainFailure \<lparr>Requirement = Requires e, F_Seq = 0, Container = [], Expected = [],
             Observed = [], NextSeq = expectedSeq st + 1, Proved = proved st, Traversed = traversed st, Err = e\<rparr>), st)))"

subsection \<open>What an accepted chain is\<close>

fun linked :: "'sk prims \<Rightarrow> bytes \<Rightarrow> uint64 \<Rightarrow> Event list \<Rightarrow> bool" where
  "linked P prev n [] = True"
| "linked P prev n (e # es) = (Seq e = n + 1 \<and> Prev e = prev \<and> ContentHash P (Payload e) = Content e
     \<and> linked P (EntryHash P e) (n + 1) es)"

text \<open>A record stands on the identity's signature, or, unsigned, inside a sealed segment.\<close>

definition proof_ok :: "'sk prims \<Rightarrow> bytes \<Rightarrow> bool \<Rightarrow> Event \<Rightarrow> bool" where
  "proof_ok P pubKey witnessed e \<longleftrightarrow> (sealed e \<longrightarrow> witnessed) \<and>
     (if Sig e \<noteq> [] then verifyEventSignature P e pubKey = None else sealed e)"

definition chain_hash :: "'sk prims \<Rightarrow> bytes \<Rightarrow> Event list \<Rightarrow> bytes" where
  "chain_hash P prev es = (if es = [] then prev else EntryHash P (last es))"

lemma chain_hash_simps [simp]:
  "chain_hash P prev [] = prev" "chain_hash P prev (e # es) = chain_hash P (EntryHash P e) es"
  by (simp_all add: chain_hash_def)

lemma linked_append: "linked P prev n (xs @ ys) \<longleftrightarrow>
    linked P prev n xs \<and> linked P (chain_hash P prev xs) (n + of_nat (length xs)) ys"
  by (induction xs arbitrary: prev n) (auto simp: add.assoc add.commute)

lemma check_links_None: "check_links P st e = None \<longleftrightarrow>
    Seq e = expectedSeq st \<and> Prev e = expectedPrev st \<and> ContentHash P (Payload e) = Content e"
  by (simp add: check_links_def)

lemma check_proof_Inr:
  "check_proof P k st e = Inr st' \<longleftrightarrow> proof_ok P k (heads st \<noteq> None) e \<and>
     st' = (if Sig e \<noteq> [] then st\<lparr>proved := traversed st\<rparr> else st)"
  by (auto simp: check_proof_def proof_ok_def split: option.splits)

lemma check_head_keeps:
  assumes "check_head VH st e = (r, st')"
  shows "expectedPrev st' = expectedPrev st" "expectedSeq st' = expectedSeq st" "counted st' = counted st"
    "(heads st' = None) = (heads st = None)" "proved st' = proved st" "traversed st' = traversed st" "visitor st' = visitor st"
  using assms by (auto simp: check_head_def split: option.splits if_splits prod.splits)

lemma walk_step_NoneE:
  assumes "walk_step P k VH visit st e = (None, st')"
  obtains st3 st4 v where
    "Seq e = expectedSeq st + 1" "Prev e = expectedPrev st" "ContentHash P (Payload e) = Content e"
    "proof_ok P k (heads st \<noteq> None) e"
    "st3 = st\<lparr>expectedSeq := expectedSeq st + 1, traversed := \<lparr>B_Seq = Seq e, B_Hash = EntryHash P e\<rparr>,
       proved := (if Sig e \<noteq> [] then \<lparr>B_Seq = Seq e, B_Hash = EntryHash P e\<rparr> else proved st)\<rparr>"
    "check_head VH st3 e = (None, st4)"
    "(case visit of None \<Rightarrow> (None, visitor st4) | Some f \<Rightarrow> f e (visitor st4)) = (None, v)"
    "st' = st4\<lparr>visitor := v, since := (if heads st4 = None then since st4 else keep (since st4) (Seq e) (entrySum P e)),
       expectedPrev := EntryHash P e, counted := counted st4 + 1\<rparr>"
proof -
  let ?st1 = "st\<lparr>expectedSeq := expectedSeq st + 1\<rparr>"
  let ?b = "\<lparr>B_Seq = Seq e, B_Hash = hex_encode (entrySum P e)\<rparr>"
  have links: "check_links P ?st1 e = None"
    using assms by (auto simp: walk_step_def Let_def split: option.splits)
  obtain st3 where pr: "check_proof P k (?st1\<lparr>traversed := ?b\<rparr>) e = Inr st3"
    using assms links by (auto simp: walk_step_def Let_def split: sum.splits)
  obtain st4 where hd: "check_head VH st3 e = (None, st4)"
    using assms links pr by (auto simp: walk_step_def Let_def split: prod.splits option.splits)
  obtain v where vi: "(case visit of None \<Rightarrow> (None, visitor st4) | Some f \<Rightarrow> f e (visitor st4)) = (None, v)"
    "st' = st4\<lparr>visitor := v, since := (if heads st4 = None then since st4 else keep (since st4) (Seq e) (entrySum P e)),
       expectedPrev := hex_encode (entrySum P e), counted := counted st4 + 1\<rparr>"
    using assms unfolding walk_step_def Let_def links option.case pr sum.case hd prod.case
    by (auto split: prod.splits option.splits)
  show thesis
    by (rule that [OF _ _ _ _ _ hd vi(1)])
      (use links pr vi(2) in \<open>auto simp: check_links_None check_proof_Inr EntryHash_def\<close>)
qed

lemma walk_step_None:
  assumes "walk_step P k VH visit st e = (None, st')"
  shows "Seq e = expectedSeq st + 1" "Prev e = expectedPrev st" "ContentHash P (Payload e) = Content e"
    "proof_ok P k (heads st \<noteq> None) e" "expectedSeq st' = expectedSeq st + 1" "expectedPrev st' = EntryHash P e"
    "counted st' = counted st + 1" "(heads st' = None) = (heads st = None)"
    "traversed st' = \<lparr>B_Seq = Seq e, B_Hash = EntryHash P e\<rparr>"
    "proved st' = (if Sig e \<noteq> [] then traversed st' else proved st)"
  using assms by (rule walk_step_NoneE; use check_head_keeps in \<open>fastforce\<close>)+

lemma walk_events_None:
  assumes "walk_events P k VH visit st evs = (None, st')"
  shows "linked P (expectedPrev st) (expectedSeq st) evs"
    "list_all (proof_ok P k (heads st \<noteq> None)) evs"
    "counted st' = counted st + length evs"
    "expectedSeq st' = expectedSeq st + of_nat (length evs)"
    "expectedPrev st' = chain_hash P (expectedPrev st) evs"
proof -
  have "linked P (expectedPrev st) (expectedSeq st) evs \<and> list_all (proof_ok P k (heads st \<noteq> None)) evs
      \<and> counted st' = counted st + length evs \<and> expectedSeq st' = expectedSeq st + of_nat (length evs)
      \<and> expectedPrev st' = chain_hash P (expectedPrev st) evs"
    using assms
  proof (induction evs arbitrary: st)
    case (Cons e es)
    obtain st1 where s: "walk_step P k VH visit st e = (None, st1)" "walk_events P k VH visit st1 es = (None, st')"
      using Cons.prems by (auto split: prod.splits option.splits)
    show ?case using walk_step_None [OF s(1)] Cons.IH [OF s(2)] by (simp add: algebra_simps)
  qed simp
  then show "linked P (expectedPrev st) (expectedSeq st) evs" "list_all (proof_ok P k (heads st \<noteq> None)) evs"
    "counted st' = counted st + length evs" "expectedSeq st' = expectedSeq st + of_nat (length evs)"
    "expectedPrev st' = chain_hash P (expectedPrev st) evs" by simp_all
qed

lemma walk_none_never_stops: "walk_events P k VH None st es \<noteq> (Some (VisitStopped e), st')"
proof (induction es arbitrary: st)
  case (Cons x es)
  then show ?case
    by (auto simp: walk_step_def Let_def check_links_def refuse_def check_proof_def check_head_def
        split: prod.splits option.splits if_splits sum.splits)
qed simp

lemma verifyChain_Inr:
  assumes "fst (verifyChain P k VH h None v (evs, None)) = Inr n"
  shows "n = length evs \<and> linked P [] 0 evs \<and> list_all (proof_ok P k (h \<noteq> None)) evs"
proof -
  obtain r st where w: "walk_events P k VH None (walk_start h v) evs = (r, st)" by fastforce
  have "r = None \<and> counted st = n"
    using assms w walk_none_never_stops [of P k VH "walk_start h v" evs] by (auto simp: verifyChain_def split: option.splits stop.splits)
  then show ?thesis using walk_events_None [of P k VH None "walk_start h v" evs st] w by (simp add: walk_start_def)
qed

subsection \<open>Acceptance without a head verifier\<close>

lemma walk_step_plain:
  assumes "Seq e = expectedSeq st + 1" "Prev e = expectedPrev st" "ContentHash P (Payload e) = Content e"
    "proof_ok P k False e" "heads st = None"
  shows "\<exists>st'. walk_step P k VH None st e = (None, st') \<and> heads st' = None \<and>
    expectedSeq st' = expectedSeq st + 1 \<and> expectedPrev st' = EntryHash P e"
proof -
  let ?b = "\<lparr>B_Seq = Seq e, B_Hash = hex_encode (entrySum P e)\<rparr>"
  have l: "check_links P (st\<lparr>expectedSeq := expectedSeq st + 1\<rparr>) e = None"
    using assms by (simp add: check_links_None)
  obtain st3 where p: "check_proof P k (st\<lparr>expectedSeq := expectedSeq st + 1, traversed := ?b\<rparr>) e = Inr st3"
      "heads st3 = None" "expectedSeq st3 = expectedSeq st + 1"
    using assms check_proof_Inr [of P k "st\<lparr>expectedSeq := expectedSeq st + 1, traversed := ?b\<rparr>" e] by auto
  have h: "check_head VH st3 e = (None, st3)" using p(2) by (simp add: check_head_def)
  show ?thesis unfolding walk_step_def Let_def l option.case p(1) sum.case h prod.case
    by (simp add: p EntryHash_def)
qed

lemma walk_events_plain:
  assumes "linked P (expectedPrev st) (expectedSeq st) evs" "list_all (proof_ok P k False) evs" "heads st = None"
  shows "\<exists>st'. walk_events P k VH None st evs = (None, st')"
  using assms
proof (induction evs arbitrary: st)
  case (Cons e es)
  obtain st1 where s: "walk_step P k VH None st e = (None, st1)" "heads st1 = None"
      "expectedSeq st1 = expectedSeq st + 1" "expectedPrev st1 = EntryHash P e"
    using walk_step_plain [of e st P k VH] Cons.prems by auto
  show ?case using Cons.IH [of st1] Cons.prems s by simp
qed simp

lemma verifyChain_plain_iff:
  "fst (verifyChain P k VH None None v (evs, None)) = Inr n \<longleftrightarrow>
     n = length evs \<and> linked P [] 0 evs \<and> list_all (proof_ok P k False) evs"
proof
  assume "fst (verifyChain P k VH None None v (evs, None)) = Inr n"
  then show "n = length evs \<and> linked P [] 0 evs \<and> list_all (proof_ok P k False) evs"
    using verifyChain_Inr [of P k VH None v evs n] by simp
next
  assume a: "n = length evs \<and> linked P [] 0 evs \<and> list_all (proof_ok P k False) evs"
  then obtain st where w: "walk_events P k VH None (walk_start None v) evs = (None, st)"
    using walk_events_plain [of P "walk_start None v" evs k VH] by (auto simp: walk_start_def)
  then show "fst (verifyChain P k VH None None v (evs, None)) = Inr n"
    using walk_events_None(3) [OF w] a by (simp add: verifyChain_def walk_start_def)
qed

subsection \<open>Tamper evidence\<close>

text \<open>The part of a record the entry hash commits to, the payload through its content hash.\<close>

definition committed :: "Event \<Rightarrow> uint64 \<times> bytes \<times> bytes \<times> EventType \<times> int \<times> bytes \<times> bytes" where
  "committed e = (Seq e, Prev e, Timestamp e, Type e, Ring e, Content e, Payload e)"

text \<open>Two different byte strings among those hashed for the two records, with the same SHA-256.\<close>

definition collision :: "'sk prims \<Rightarrow> Event \<Rightarrow> Event \<Rightarrow> bool" where
  "collision P a b \<longleftrightarrow> (EntryBytes a \<noteq> EntryBytes b \<and> sha256 P (EntryBytes a) = sha256 P (EntryBytes b))
     \<or> (Payload a \<noteq> Payload b \<and> sha256 P (Payload a) = sha256 P (Payload b))"

lemma linked_snocD:
  assumes "linked P [] 0 (xs @ [a])"
  shows "linked P [] 0 xs" "Seq a = of_nat (length xs) + 1" "Prev a = chain_hash P [] xs" "ContentHash P (Payload a) = Content a"
  using assms by (simp_all add: linked_append)

lemma same_hash_same_record:
  assumes "fields_valid a" "fields_valid b" "EntryHash P a = EntryHash P b"
    "ContentHash P (Payload a) = Content a" "ContentHash P (Payload b) = Content b" "\<not> collision P a b"
  shows "committed a = committed b"
proof -
  have "sha256 P (EntryBytes a) = sha256 P (EntryBytes b)"
    using assms(3) by (auto simp: EntryHash_def entrySum_def dest: hex_encode_inj)
  then have "EntryBytes a = EntryBytes b" using assms(6) by (simp add: collision_def)
  note f = EntryBytes_inj [OF assms(1,2) this]
  then have "sha256 P (Payload a) = sha256 P (Payload b)"
    using assms(4,5) hex_encode_inj [of "sha256 P (Payload a)" "sha256 P (Payload b)"]
    by (simp add: ContentHash_def)
  then have "Payload a = Payload b" using assms(6) by (simp add: collision_def)
  with f show ?thesis by (simp add: committed_def)
qed

lemma linked_same_hash:
  assumes "linked P [] 0 xs" "linked P [] 0 ys" "list_all fields_valid xs" "list_all fields_valid ys"
    "length xs < 2 ^ 64" "length ys < 2 ^ 64" "xs \<noteq> []" "ys \<noteq> []"
    "EntryHash P (last xs) = EntryHash P (last ys)"
    "\<And>a b. a \<in> set xs \<Longrightarrow> b \<in> set ys \<Longrightarrow> \<not> collision P a b"
  shows "map committed xs = map committed ys"
  using assms
proof (induction xs arbitrary: ys rule: rev_induct)
  case (snoc a xs)
  obtain zs b where ys: "ys = zs @ [b]" using snoc.prems(8) by (cases ys rule: rev_cases) auto
  note la = linked_snocD [OF snoc.prems(1)] and lb = linked_snocD [OF snoc.prems(2) [unfolded ys]]
  have v: "fields_valid a" "fields_valid b" using snoc.prems(3,4) ys by auto
  have h: "EntryHash P a = EntryHash P b" using snoc.prems(9) ys by simp
  have "\<not> collision P a b" using snoc.prems(10) ys by simp
  from same_hash_same_record [OF v h la(4) lb(4) this] have eq: "committed a = committed b" .
  then have "(of_nat (length xs) :: uint64) = of_nat (length zs)" using la(2) lb(2) by (simp add: committed_def)
  then have len: "length xs = length zs"
    using snoc.prems(5,6) ys by (simp add: word_of_nat_eq_iff take_bit_nat_eq_self)
  have prev: "chain_hash P [] xs = chain_hash P [] zs" using eq la(3) lb(3) by (simp add: committed_def)
  have "map committed xs = map committed zs"
  proof (cases "xs = []")
    case True
    then show ?thesis using len by simp
  next
    case False
    then have "zs \<noteq> []" using len by auto
    then show ?thesis
      using snoc.IH [of zs] la(1) lb(1) snoc.prems False prev ys by (simp add: chain_hash_def)
  qed
  then show ?case using ys eq by simp
qed simp

subsection \<open>The window of kept hashes\<close>

lemma unat_u64: "n < 2 ^ 64 \<Longrightarrow> unat (of_nat n :: uint64) = n"
  by (simp add: unat_of_nat take_bit_nat_eq_self)

lemma u64_less: "a < 2 ^ 64 \<Longrightarrow> b < 2 ^ 64 \<Longrightarrow> (of_nat a :: uint64) < of_nat b \<longleftrightarrow> a < b"
  by (simp add: word_less_nat_alt unat_u64)

lemma u64_le: "a < 2 ^ 64 \<Longrightarrow> b < 2 ^ 64 \<Longrightarrow> (of_nat a :: uint64) \<le> of_nat b \<longleftrightarrow> a \<le> b"
  by (simp add: word_le_nat_alt unat_u64)

text \<open>\<open>w\<close> holds the sums of the records after the first \<open>c\<close>.\<close>

definition window :: "recordsSince \<Rightarrow> nat \<Rightarrow> bytes list \<Rightarrow> bool" where
  "window w c S \<longleftrightarrow> sums w = drop c S \<and> (sums w \<noteq> [] \<longrightarrow> first w = of_nat (c + 1)) \<and> c \<le> length S"

lemma window_empty: "window since_empty 0 []"
  by (simp add: window_def since_empty_def)

lemma window_keep:
  "window w c S \<Longrightarrow> n = length S \<Longrightarrow> window (keep w (of_nat n + 1) sm) c (S @ [sm])"
  by (auto simp: window_def keep_def)

lemma window_forget:
  assumes "window w c S" "c \<le> a" "a \<le> length S" "length S < 2 ^ 63"
  shows "window (forget w (of_nat a)) a S"
proof (cases "sums w = [] \<or> a = c")
  case True
  have "sums w = [] \<or> of_nat a < first w"
    using True assms u64_less [of a "c + 1"] by (auto simp: window_def)
  then have "forget w (of_nat a) = w" by (simp add: forget_def)
  then show ?thesis using True assms by (auto simp: window_def)
next
  case False
  then have f: "sums w \<noteq> []" "first w = of_nat (c + 1)" "c < a" using assms by (auto simp: window_def)
  have lt: "\<not> (of_nat a :: uint64) < first w" using f assms u64_less [of a "c + 1"] by simp
  have k: "(of_nat a :: uint64) - first w + 1 = of_nat (a - c)"
    using f(2,3) by (simp add: of_nat_diff)
  have lw: "length (sums w) = length S - c" using assms(1) by (simp add: window_def)
  have less: "(of_nat (a - c) :: uint64) < of_nat (length (sums w)) \<longleftrightarrow> a - c < length (sums w)"
    using assms lw by (intro u64_less) auto
  have ua: "unat (of_nat (a - c) :: uint64) = a - c" using assms by (intro unat_u64) auto
  show ?thesis
  proof (cases "a - c < length (sums w)")
    case True
    then have "forget w (of_nat a) = w\<lparr>first := of_nat a + 1, sums := drop (a - c) (sums w)\<rparr>"
      using lt f(1) k less ua by (simp add: forget_def Let_def)
    then show ?thesis using assms f(3) by (simp add: window_def)
  next
    case False
    then have "forget w (of_nat a) = w\<lparr>sums := []\<rparr>"
      using lt f(1) k less ua by (simp add: forget_def Let_def)
    moreover have "a = length S" using False assms lw by simp
    ultimately show ?thesis by (simp add: window_def)
  qed
qed

lemma hashAt_window:
  assumes "window w c S" "c < s" "s < 2 ^ 63" "length S < 2 ^ 63"
  shows "hashAt w (of_nat s) = (if s \<le> length S then Some (hex_encode (S ! (s - 1))) else None)"
proof (cases "sums w = []")
  case True
  have "hashAt w (of_nat s) = None" using True by (simp add: hashAt_def)
  moreover have "\<not> s \<le> length S" using True assms by (simp add: window_def)
  ultimately show ?thesis by simp
next
  case False
  then have f: "first w = of_nat (c + 1)" "sums w = drop c S" "c \<le> length S" using assms by (auto simp: window_def)
  have lt: "\<not> (of_nat s :: uint64) < first w" using f assms u64_less [of s "c + 1"] by simp
  have d: "(of_nat s :: uint64) - first w = of_nat (s - c - 1)"
    using f(1) assms(2) by (simp add: of_nat_diff)
  have le: "(of_nat (length (sums w)) :: uint64) \<le> of_nat (s - c - 1) \<longleftrightarrow> length (sums w) \<le> s - c - 1"
    using assms f by (intro u64_le) auto
  have u: "unat (of_nat (s - c - 1) :: uint64) = s - c - 1" using assms by (intro unat_u64) auto
  show ?thesis
    unfolding hashAt_def using lt le u f(2,3) assms(2) by (auto simp: d)
qed

lemma hashAt_zero:
  assumes "window w c S" "length S < 2 ^ 63"
  shows "hashAt w 0 = None"
proof (cases "sums w = []")
  case True
  then show ?thesis by (simp add: hashAt_def)
next
  case False
  then have "first w = of_nat (c + 1)" "c < length S" using assms by (auto simp: window_def)
  then have "0 < first w" using u64_less [of 0 "c + 1"] assms(2) by simp
  then show ?thesis by (simp add: hashAt_def)
qed

subsection \<open>The interface of a head verifier\<close>

text \<open>
  What \<open>verifyChain\<close> relies on in a \<open>HeadVerifier\<close>. \<open>chainAt h\<close> is the record the heads seen so far
  attest. A head moves it forward, never to its own record or beyond; the verifier reports it; and
  it asks for the hash of no record outside the stretch between the one and the other. \<open>inv\<close> is what
  the verifier keeps of its own state.
\<close>

locale head_verifier =
  fixes VerifyHead :: "'h verify_head" and chainAt :: "'h \<Rightarrow> nat" and inv :: "'h \<Rightarrow> bool"
  assumes attested: "VerifyHead h e f = ((a, err), h') \<Longrightarrow> a = of_nat (chainAt h')"
    and looks_between: "inv h \<Longrightarrow> (\<And>s. chainAt h < s \<Longrightarrow> s < unat (Seq e) \<Longrightarrow> f (of_nat s) = g (of_nat s)) \<Longrightarrow> f 0 = g 0
      \<Longrightarrow> chainAt h < unat (Seq e) \<Longrightarrow> unat (Seq e) < 2 ^ 63 \<Longrightarrow> VerifyHead h e f = VerifyHead h e g"
    and advances: "inv h \<Longrightarrow> VerifyHead h e f = ((a, err), h') \<Longrightarrow> err = None \<or> err = Some ErrWitnessKeyUnknown
      \<Longrightarrow> chainAt h < unat (Seq e) \<Longrightarrow> unat (Seq e) < 2 ^ 63
      \<Longrightarrow> inv h' \<and> chainAt h \<le> chainAt h' \<and> chainAt h' < unat (Seq e)"

text \<open>The same verifier, reporting nothing attested: the walk then forgets no hash.\<close>

definition keep_all :: "'h verify_head \<Rightarrow> 'h verify_head" where
  "keep_all VH h e f = (case VH h e f of ((a, err), h') \<Rightarrow> ((0, err), h'))"

lemma forget_zero: "window w 0 S \<Longrightarrow> forget w 0 = w"
  by (auto simp: forget_def window_def)

lemma check_links_since [simp]: "check_links P (st\<lparr>since := w\<rparr>) e = check_links P st e"
  by (simp add: check_links_def refuse_def)

lemma check_proof_since: "check_proof P k (st\<lparr>since := w\<rparr>) e =
    (case check_proof P k st e of Inl s \<Rightarrow> Inl s | Inr st' \<Rightarrow> Inr (st'\<lparr>since := w\<rparr>))"
  by (auto simp: check_proof_def refuse_def split: option.split)

context head_verifier
begin

definition sim :: "('h, 'v) walk \<Rightarrow> ('h, 'v) walk \<Rightarrow> bytes list \<Rightarrow> bool" where
  "sim st1 st2 S \<longleftrightarrow> (\<exists>h. heads st1 = Some h \<and> inv h \<and> window (since st1) (chainAt h) S \<and> window (since st2) 0 S
     \<and> expectedSeq st1 = of_nat (length S) \<and> st2 = st1\<lparr>since := since st2\<rparr>)"

lemma check_head_sim:
  assumes "heads st = Some h" "window (since st) (chainAt h) S" "window w 0 S"
    "Seq e = of_nat (length S + 1)" "length S + 1 < 2 ^ 63"
    "check_head VerifyHead st e = (r, st')" "inv h"
  shows "\<exists>w' h'. check_head (keep_all VerifyHead) (st\<lparr>since := w\<rparr>) e = (r, st'\<lparr>since := w'\<rparr>) \<and>
    (r = None \<longrightarrow> w' = w \<and> heads st' = Some h' \<and> inv h' \<and> window (since st') (chainAt h') S)"
proof (cases "Type e = EventSystemWitnessed")
  case False
  then show ?thesis using assms by (auto simp: check_head_def)
next
  case True
  have us: "unat (Seq e) = length S + 1" using assms(4,5) unat_u64 [of "length S + 1"] by simp
  have c: "chainAt h < unat (Seq e)" using assms(2) us by (simp add: window_def)
  have eq: "VerifyHead h e (hashAt (since st)) = VerifyHead h e (hashAt w)"
  proof (rule looks_between)
    fix s assume s: "chainAt h < s" "s < unat (Seq e)"
    then show "hashAt (since st) (of_nat s) = hashAt w (of_nat s)"
      using hashAt_window [OF assms(2) s(1)] hashAt_window [OF assms(3), of s] us assms(5) by simp
  next
    show "hashAt (since st) 0 = hashAt w 0"
      using hashAt_zero [OF assms(2)] hashAt_zero [OF assms(3)] assms(5) by simp
  qed (use c us assms(5,7) in auto)
  obtain a err h' where v: "VerifyHead h e (hashAt (since st)) = ((a, err), h')" by (metis prod.exhaust)
  have a: "a = of_nat (chainAt h')" by (rule attested [OF v])
  have ok: "inv h' \<and> window (forget (since st) a) (chainAt h') S" if "err = None \<or> err = Some ErrWitnessKeyUnknown"
    using advances [OF assms(7) v that c] us assms(5) window_forget [OF assms(2), of "chainAt h'"] a by simp
  have v': "keep_all VerifyHead h e (hashAt w) = ((0, err), h')"
    using v eq by (simp add: keep_all_def)
  show ?thesis
  proof (cases "err = None \<or> (\<not> sealed e \<and> err = Some ErrWitnessKeyUnknown)")
    case pass: True
    then have "check_head VerifyHead st e = (None, st\<lparr>heads := Some h', since := forget (since st) a\<rparr>)"
      "check_head (keep_all VerifyHead) (st\<lparr>since := w\<rparr>) e = (None, st\<lparr>heads := Some h', since := w\<rparr>)"
      using True assms(1) v v' forget_zero [OF assms(3)] by (auto simp: check_head_def)
    then show ?thesis using assms(6) ok pass by auto
  next
    case False
    then obtain x where x: "err = Some x" "\<not> (\<not> sealed e \<and> x = ErrWitnessKeyUnknown)" by auto
    then have "check_head VerifyHead st e = (Some (refuse st (Seq e) e (WitnessHead x) [] [] x), st\<lparr>heads := Some h'\<rparr>)"
      "check_head (keep_all VerifyHead) (st\<lparr>since := w\<rparr>) e
        = (Some (refuse st (Seq e) e (WitnessHead x) [] [] x), st\<lparr>heads := Some h', since := w\<rparr>)"
      using True assms(1) v v' by (auto simp: check_head_def refuse_def)
    then show ?thesis using assms(6) by auto
  qed
qed

lemma walk_step_sim:
  assumes "sim st1 st2 S" "length S + 1 < 2 ^ 63" "walk_step P k VerifyHead visit st1 e = (r, st1')"
  shows "\<exists>w. walk_step P k (keep_all VerifyHead) visit st2 e = (r, st1'\<lparr>since := w\<rparr>) \<and>
    (r = None \<longrightarrow> sim st1' (st1'\<lparr>since := w\<rparr>) (S @ [entrySum P e]))"
proof -
  obtain h w where h: "heads st1 = Some h" "window (since st1) (chainAt h) S" "window w 0 S"
      "expectedSeq st1 = of_nat (length S)" "inv h" and st2: "st2 = st1\<lparr>since := w\<rparr>"
    using assms(1) by (auto simp: sim_def)
  define t1 where "t1 = st1\<lparr>expectedSeq := expectedSeq st1 + 1\<rparr>"
  define t2 where "t2 = t1\<lparr>traversed := \<lparr>B_Seq = Seq e, B_Hash = hex_encode (entrySum P e)\<rparr>\<rparr>"
  have u: "st2\<lparr>expectedSeq := expectedSeq st2 + 1\<rparr> = t1\<lparr>since := w\<rparr>"
    "t1\<lparr>since := w, traversed := \<lparr>B_Seq = Seq e, B_Hash = hex_encode (entrySum P e)\<rparr>\<rparr> = t2\<lparr>since := w\<rparr>"
    by (simp_all add: st2 t1_def t2_def)
  note step = walk_step_def Let_def
  show ?thesis
  proof (cases "check_links P t1 e")
    case (Some s)
    have "walk_step P k VerifyHead visit st1 e = (Some s, t1)" using Some by (simp add: step t1_def)
    moreover have "walk_step P k (keep_all VerifyHead) visit st2 e = (Some s, t1\<lparr>since := w\<rparr>)"
      unfolding step u using Some by simp
    ultimately show ?thesis using assms(3) by auto
  next
    case links: None
    show ?thesis
    proof (cases "check_proof P k t2 e")
      case (Inl s)
      have "walk_step P k VerifyHead visit st1 e = (Some s, t2)" using links Inl by (simp add: step t1_def t2_def)
      moreover have "walk_step P k (keep_all VerifyHead) visit st2 e = (Some s, t2\<lparr>since := w\<rparr>)"
        unfolding step u using links Inl by (simp add: check_proof_since)
      ultimately show ?thesis using assms(3) by auto
    next
      case (Inr t3)
      have t3: "heads t3 = Some h" "since t3 = since st1" "expectedSeq t3 = of_nat (length S) + 1"
        using Inr h by (auto simp: check_proof_Inr t2_def t1_def split: if_splits)
      have seq: "Seq e = of_nat (length S + 1)" using links h(4) by (simp add: check_links_None t1_def)
      obtain q t4 where hd: "check_head VerifyHead t3 e = (q, t4)" by fastforce
      obtain w' h' where hd': "check_head (keep_all VerifyHead) (t3\<lparr>since := w\<rparr>) e = (q, t4\<lparr>since := w'\<rparr>)"
        and ok: "q = None \<longrightarrow> w' = w \<and> heads t4 = Some h' \<and> inv h' \<and> window (since t4) (chainAt h') S"
        using check_head_sim [OF t3(1) _ h(3) seq assms(2) hd h(5)] h(2) t3(2) by auto
      show ?thesis
      proof (cases q)
        case (Some s)
        have "walk_step P k VerifyHead visit st1 e = (Some s, t4)"
          using links Inr hd Some by (simp add: step t1_def t2_def)
        moreover have "walk_step P k (keep_all VerifyHead) visit st2 e = (Some s, t4\<lparr>since := w'\<rparr>)"
          unfolding step u using links Inr hd' Some by (simp add: check_proof_since)
        ultimately show ?thesis using assms(3) by auto
      next
        case None
        note ok' = ok [rule_format, OF None]
        obtain x v where vi: "(case visit of None \<Rightarrow> (None, visitor t4) | Some f \<Rightarrow> f e (visitor t4)) = (x, v)" by fastforce
        have vi': "(case visit of None \<Rightarrow> (None, visitor (t4\<lparr>since := w\<rparr>)) | Some f \<Rightarrow> f e (visitor (t4\<lparr>since := w\<rparr>))) = (x, v)"
          using vi by (cases visit) simp_all
        have 1: "walk_step P k VerifyHead visit st1 e = (case x of Some y \<Rightarrow> (Some (VisitStopped y), t4\<lparr>visitor := v\<rparr>)
            | None \<Rightarrow> (None, t4\<lparr>visitor := v, since := keep (since t4) (Seq e) (entrySum P e),
                 expectedPrev := hex_encode (entrySum P e), counted := counted t4 + 1\<rparr>))"
          using links Inr hd None vi ok' by (cases x) (simp_all add: step t1_def t2_def)
        have 2: "walk_step P k (keep_all VerifyHead) visit st2 e = (case x of Some y \<Rightarrow> (Some (VisitStopped y), t4\<lparr>since := w, visitor := v\<rparr>)
            | None \<Rightarrow> (None, t4\<lparr>visitor := v, since := keep w (Seq e) (entrySum P e),
                 expectedPrev := hex_encode (entrySum P e), counted := counted t4 + 1\<rparr>))"
          unfolding step u using links Inr hd' None vi' ok' by (cases x) (simp_all add: check_proof_since)
        have win: "window (keep (since t4) (Seq e) (entrySum P e)) (chainAt h') (S @ [entrySum P e])"
          "window (keep w (Seq e) (entrySum P e)) 0 (S @ [entrySum P e])"
          using window_keep [OF _ refl, of "since t4"] window_keep [OF _ refl, of w] ok' h(3) seq by (simp_all add: add.commute)
        have es: "expectedSeq t4 = of_nat (length S) + 1" using check_head_keeps(2) [OF hd] t3(3) by simp
        show ?thesis
        proof (cases x)
          case None
          then show ?thesis using assms(3) 1 2 win es ok'
            by (intro exI [of _ "keep w (Seq e) (entrySum P e)"]) (auto simp: sim_def)
        next
          case (Some y)
          then show ?thesis using assms(3) 1 2 by (intro exI [of _ w]) auto
        qed
      qed
    qed
  qed
qed

lemma walk_events_sim:
  assumes "sim st1 st2 S" "length S + length evs < 2 ^ 63" "walk_events P k VerifyHead visit st1 evs = (r, st1')"
  shows "\<exists>w. walk_events P k (keep_all VerifyHead) visit st2 evs = (r, st1'\<lparr>since := w\<rparr>)"
  using assms
proof (induction evs arbitrary: st1 st2 S)
  case Nil
  then show ?case by (auto simp: sim_def)
next
  case (Cons e es)
  obtain q t where s: "walk_step P k VerifyHead visit st1 e = (q, t)" by fastforce
  obtain w where w: "walk_step P k (keep_all VerifyHead) visit st2 e = (q, t\<lparr>since := w\<rparr>)"
      "q = None \<longrightarrow> sim t (t\<lparr>since := w\<rparr>) (S @ [entrySum P e])"
    using walk_step_sim [OF Cons.prems(1) _ s] Cons.prems(2) by auto
  show ?case
  proof (cases q)
    case None
    then show ?thesis using Cons.IH [OF w(2) [rule_format, OF None], of ] Cons.prems(2,3) s w(1) by auto
  next
    case (Some y)
    then show ?thesis using Cons.prems(3) s w(1) by auto
  qed
qed

text \<open>Forgetting hashes changes no verdict.\<close>

lemma forgetting_is_safe:
  assumes "chainAt h = 0" "length (fst source) < 2 ^ 63" "inv h"
  shows "fst (verifyChain P k VerifyHead (Some h) visit v source)
    = fst (verifyChain P k (keep_all VerifyHead) (Some h) visit v source)"
proof -
  obtain r st where w: "walk_events P k VerifyHead visit (walk_start (Some h) v) (fst source) = (r, st)" by fastforce
  have "sim (walk_start (Some h) v) (walk_start (Some h) v) []"
    using assms(1,3) window_empty by (simp add: sim_def walk_start_def)
  from walk_events_sim [OF this _ w] assms(2)
  obtain w' where "walk_events P k (keep_all VerifyHead) visit (walk_start (Some h) v) (fst source) = (r, st\<lparr>since := w'\<rparr>)"
    by auto
  then show ?thesis using w by (simp add: verifyChain_def split: option.split stop.split)
qed

end

subsection \<open>What a refusal reports\<close>

definition boundary :: "'sk prims \<Rightarrow> Event list \<Rightarrow> Boundary" where
  "boundary P xs = \<lparr>B_Seq = of_nat (length xs), B_Hash = chain_hash P [] xs\<rparr>"

text \<open>
  The two boundaries of a refusal are true of the records read: the links hold through the one,
  and the identity's signature was verified at the other.
\<close>

definition established :: "'sk prims \<Rightarrow> bytes \<Rightarrow> Event list \<Rightarrow> Boundary \<Rightarrow> Boundary \<Rightarrow> bool" where
  "established P pubKey evs p t \<longleftrightarrow> (\<exists>i j. j \<le> i \<and> i \<le> length evs \<and> linked P [] 0 (take i evs)
     \<and> t = boundary P (take i evs) \<and> p = boundary P (take j evs)
     \<and> (0 < j \<longrightarrow> verifyEventSignature P (evs ! (j - 1)) pubKey = None))"

definition walked :: "'sk prims \<Rightarrow> bytes \<Rightarrow> ('h, 'v) walk \<Rightarrow> Event list \<Rightarrow> bool" where
  "walked P pubKey st xs \<longleftrightarrow> linked P [] 0 xs \<and> expectedSeq st = of_nat (length xs) \<and> expectedPrev st = chain_hash P [] xs
     \<and> traversed st = boundary P xs \<and> (\<exists>j \<le> length xs. proved st = boundary P (take j xs)
       \<and> (0 < j \<longrightarrow> verifyEventSignature P (xs ! (j - 1)) pubKey = None))"

lemma walked_start: "walked P k (walk_start h v) []"
  by (simp add: walked_def walk_start_def boundary_def)

lemma walked_established: "walked P k st xs \<Longrightarrow> established P k (xs @ ys) (proved st) (traversed st)"
  unfolding walked_def established_def
  by (elim conjE exE, rule exI [of _ "length xs"], rule exI) (auto simp: nth_append)

lemma chain_hash_snoc [simp]: "chain_hash P prev (xs @ [e]) = EntryHash P e"
  by (simp add: chain_hash_def)

lemma walked_step:
  assumes "walked P k st xs" "walk_step P k VH visit st e = (None, st')"
  shows "walked P k st' (xs @ [e])"
proof -
  note s = walk_step_None [OF assms(2)]
  have w: "linked P [] 0 xs" "expectedSeq st = of_nat (length xs)" "expectedPrev st = chain_hash P [] xs"
    using assms(1) by (simp_all add: walked_def)
  obtain j where j: "j \<le> length xs" "proved st = boundary P (take j xs)"
      "0 < j \<longrightarrow> verifyEventSignature P (xs ! (j - 1)) k = None"
    using assms(1) by (auto simp: walked_def)
  have b: "traversed st' = boundary P (xs @ [e])" using s(1,9) w by (simp add: boundary_def)
  have "\<exists>j \<le> length (xs @ [e]). proved st' = boundary P (take j (xs @ [e]))
       \<and> (0 < j \<longrightarrow> verifyEventSignature P ((xs @ [e]) ! (j - 1)) k = None)"
  proof (cases "Sig e \<noteq> []")
    case True
    then show ?thesis using s(4,10) b by (intro exI [of _ "length xs + 1"]) (auto simp: proof_ok_def)
  next
    case False
    then show ?thesis using s(10) j by (intro exI [of _ j]) (auto simp: nth_append)
  qed
  then show ?thesis using s b w by (simp add: walked_def linked_append)
qed

lemma refuse_established:
  assumes "walk_step P k VH visit st e = (Some (Failure f), st')" "walked P k st xs"
  shows "established P k (xs @ e # ys) (Proved f) (Traversed f)"
proof -
  let ?t1 = "st\<lparr>expectedSeq := expectedSeq st + 1\<rparr>"
  let ?t2 = "?t1\<lparr>traversed := \<lparr>B_Seq = Seq e, B_Hash = hex_encode (entrySum P e)\<rparr>\<rparr>"
  have w: "linked P [] 0 xs" "expectedSeq st = of_nat (length xs)" "expectedPrev st = chain_hash P [] xs"
    using assms(2) by (simp_all add: walked_def)
  obtain j where j: "j \<le> length xs" "proved st = boundary P (take j xs)"
      "0 < j \<longrightarrow> verifyEventSignature P (xs ! (j - 1)) k = None"
    using assms(2) by (auto simp: walked_def)
  show ?thesis
  proof (cases "check_links P ?t1 e")
    case (Some s)
    then have "s = Failure f" using assms(1) by (simp add: walk_step_def Let_def)
    then have "Proved f = proved st" "Traversed f = traversed st"
      using Some by (auto simp: check_links_def refuse_def split: if_splits)
    then show ?thesis using walked_established [OF assms(2)] by simp
  next
    case None
    then have l: "Seq e = of_nat (length xs) + 1" "linked P [] 0 (xs @ [e])"
      using w by (auto simp: check_links_None linked_append)
    have b: "\<lparr>B_Seq = Seq e, B_Hash = hex_encode (entrySum P e)\<rparr> = boundary P (xs @ [e])"
      using l(1) by (simp add: boundary_def EntryHash_def)
    have old: "established P k (xs @ e # ys) (proved st) (boundary P (xs @ [e]))"
      unfolding established_def using l(2) j
      by (intro exI [of _ "length xs + 1"] exI [of _ j]) (auto simp: nth_append)
    have new: "established P k (xs @ e # ys) (boundary P (xs @ [e])) (boundary P (xs @ [e]))"
      if "verifyEventSignature P e k = None"
      unfolding established_def using l(2) that
      by (intro exI [of _ "length xs + 1"]) auto
    show ?thesis
    proof (cases "check_proof P k ?t2 e")
      case (Inl s)
      then have "s = Failure f" using assms(1) None by (simp add: walk_step_def Let_def)
      then have "Proved f = proved st" "Traversed f = boundary P (xs @ [e])"
        using Inl b by (auto simp: check_proof_def refuse_def split: if_splits option.splits)
      then show ?thesis using old by simp
    next
      case (Inr t3)
      have t3: "traversed t3 = boundary P (xs @ [e])" "proved t3 = (if Sig e \<noteq> [] then boundary P (xs @ [e]) else proved st)"
        "proof_ok P k (heads st \<noteq> None) e"
        using Inr b by (auto simp: check_proof_Inr split: if_splits)
      obtain t4 where "check_head VH t3 e = (Some (Failure f), t4)"
        using assms(1) None Inr by (auto simp: walk_step_def Let_def split: prod.splits option.splits)
      then have "Proved f = proved t3" "Traversed f = traversed t3"
        by (auto simp: check_head_def refuse_def split: option.splits prod.splits if_splits)
      then show ?thesis using t3 old new by (auto simp: proof_ok_def split: if_splits)
    qed
  qed
qed

lemma walk_events_established:
  assumes "walk_events P k VH visit st evs = (r, st')" "walked P k st xs"
  shows "(case r of Some (Failure f) \<Rightarrow> established P k (xs @ evs) (Proved f) (Traversed f)
    | Some (VisitStopped e) \<Rightarrow> True | None \<Rightarrow> established P k (xs @ evs) (proved st') (traversed st'))"
  using assms
proof (induction evs arbitrary: st xs)
  case Nil
  then show ?case using walked_established [OF Nil.prems(2), of "[]"] by auto
next
  case (Cons e es)
  obtain q t where s: "walk_step P k VH visit st e = (q, t)" by fastforce
  show ?case
  proof (cases q)
    case None
    then show ?thesis
      using Cons.IH [of t "xs @ [e]"] walked_step [OF Cons.prems(2)] s Cons.prems(1)
      by (simp split: option.splits stop.splits)
  next
    case (Some y)
    then show ?thesis
      using Cons.prems s refuse_established [OF _ Cons.prems(2)] by (auto split: stop.split)
  qed
qed

lemma verifyChain_refusal:
  assumes "fst (verifyChain P k VH h visit v source) = Inl (ChainFailure f)"
  shows "established P k (fst source) (Proved f) (Traversed f)"
proof -
  obtain r st where w: "walk_events P k VH visit (walk_start h v) (fst source) = (r, st)" by fastforce
  show ?thesis
    using walk_events_established [OF w walked_start] assms w
    by (auto simp: verifyChain_def split: option.splits stop.splits if_splits)
qed


lemma no_visit_error: "fst (verifyChain P k VH h None v source) \<noteq> Inl (OtherError e)"
proof -
  obtain r st where "walk_events P k VH None (walk_start h v) (fst source) = (r, st)" by fastforce
  moreover from this have "r \<noteq> Some (VisitStopped x)" for x using walk_none_never_stops by metis
  ultimately show ?thesis by (auto simp: verifyChain_def split: option.splits stop.splits)
qed

subsection \<open>Properties\<close>

text \<open>
  C5. Without a head verifier \<open>verifyChain\<close> accepts exactly the signed linked chains: it returns the
  number of records if and only if they are numbered from 1 without a gap, each names the entry hash
  of the one before it, each content hash is that of its payload, and each carries a signature of
  the identity's key that verifies; no record may be sealed.
\<close>

theorem chain_accepted_iff:
  "fst (verifyChain P pubKey VerifyHead None None v (evs, None)) = Inr n \<longleftrightarrow>
     n = length evs \<and> linked P [] 0 evs \<and>
     list_all (\<lambda>e. \<not> sealed e \<and> Sig e \<noteq> [] \<and> verifyEventSignature P e pubKey = None) evs"
proof -
  have "proof_ok P pubKey False = (\<lambda>e. \<not> sealed e \<and> Sig e \<noteq> [] \<and> verifyEventSignature P e pubKey = None)"
    by (auto simp: proof_ok_def fun_eq_iff)
  then show ?thesis by (simp add: verifyChain_plain_iff)
qed



subsection \<open>Witnesses\<close>

text \<open>A record of the identity with key 7, signed as the code signs, and the same with a wrong number.\<close>

definition demo_event :: "uint64 \<Rightarrow> Event" where
  "demo_event n = (let e = sample_event\<lparr>Seq := n, Content := ContentHash demo_prims ''{}''\<rparr> in
     e\<lparr>Sig := b64_encode (''7'' @ SignatureInputGold SigAlg (PublicKeyFingerprint demo_prims ''P7'') (EntryHash demo_prims e))\<rparr>)"

lemma demo_signed: "Sig (demo_event n) \<noteq> []" "verifyEventSignature demo_prims (demo_event n) ''P7'' = None"
  by (simp_all add: demo_event_def verifyEventSignature_def Verify_def demo_prims_def EntryHash_def entrySum_def EntryBytes_def)

lemma demo_seq: "Seq (demo_event n) = n"
  by (simp add: demo_event_def Let_def)

lemma demo_linked: "linked demo_prims [] 0 [demo_event 1]"
  by (simp add: demo_event_def sample_event_def)

lemma demo_accepted:
  "fst (verifyChain demo_prims ''P7'' VH None None () ([demo_event 1], None)) = Inr 1"
proof -
  have "\<not> sealed (demo_event 1)" by (simp add: demo_event_def sample_event_def)
  then show ?thesis
    unfolding verifyChain_plain_iff using demo_linked demo_signed by (simp add: proof_ok_def)
qed

lemma demo_refused:
  "\<exists>f. fst (verifyChain demo_prims ''P7'' VH None None () ([demo_event 1, demo_event 3], None)) = Inl (ChainFailure f)"
proof -
  let ?r = "fst (verifyChain demo_prims ''P7'' VH None None () ([demo_event 1, demo_event 3], None))"
  have "\<not> linked demo_prims [] 0 [demo_event 1, demo_event 3]" by (simp add: demo_seq)
  then have "?r \<noteq> Inr n" for n unfolding verifyChain_plain_iff by blast
  moreover have "?r \<noteq> Inl (OtherError e)" for e by (rule no_visit_error)
  ultimately show ?thesis by (metis sum.exhaust verify_error.exhaust)
qed



end
