(* ===== verification/Go_Time.thy ===== *)
theory Go_Time
  imports Prelude "HOL-Library.Monad_Syntax"
begin

text \<open>
  \<open>time.Parse(time.RFC3339, s)\<close> of Go's \<open>time\<close> package, and the order of instants. An instant is the
  number of nanoseconds since the start of year 1 in UTC, so the zero \<open>time.Time\<close> is 0. The parser
  is as liberal as Go's: an hour of one digit, a fraction after a period or a comma, and zone
  offsets up to 24 hours and 60 minutes are taken.
\<close>

definition digit_val :: "char \<Rightarrow> nat" where
  "digit_val c = bval c - 48"

fun getnum :: "bytes \<Rightarrow> bool \<Rightarrow> (nat \<times> bytes) option" where
  "getnum (a # b # s) fixed = (if \<not> is_digit a then None
     else if is_digit b then Some (digit_val a * 10 + digit_val b, s)
     else if fixed then None else Some (digit_val a, b # s))"
| "getnum [a] fixed = (if is_digit a \<and> \<not> fixed then Some (digit_val a, []) else None)"
| "getnum [] fixed = None"

fun expect_char :: "char \<Rightarrow> bytes \<Rightarrow> bytes option" where
  "expect_char c [] = None"
| "expect_char c (a # s) = (if a = c then Some s else None)"

definition guard :: "bool \<Rightarrow> unit option" where
  "guard b = (if b then Some () else None)"

definition get_year :: "bytes \<Rightarrow> (nat \<times> bytes) option" where
  "get_year s = (if 4 \<le> length s \<and> list_all is_digit (take 4 s) then Some (digits_val (take 4 s), drop 4 s) else None)"

text \<open>The optional fraction of a second, in nanoseconds; digits after the ninth are dropped.\<close>

definition get_fraction :: "bytes \<Rightarrow> nat \<times> bytes" where
  "get_fraction s = (case s of c # d # t \<Rightarrow>
       if (c = CHR ''.'' \<or> c = CHR '','') \<and> is_digit d then
         (let ds = takeWhile is_digit (d # t); used = take 9 ds in
          (digits_val used * 10 ^ (9 - length used), dropWhile is_digit (d # t)))
       else (0, s)
     | _ \<Rightarrow> (0, s))"

text \<open>The zone offset in seconds.\<close>

definition get_zone :: "bytes \<Rightarrow> (int \<times> bytes) option" where
  "get_zone s = (case s of [] \<Rightarrow> None
     | c # t \<Rightarrow> if c = CHR ''Z'' then Some (0, t)
       else if length s < 6 \<or> s ! 3 \<noteq> CHR '':'' then None
       else do {
         (hr, _) \<leftarrow> getnum (take 2 t) True;
         (mm, _) \<leftarrow> getnum (take 2 (drop 3 t)) True;
         guard (hr \<le> 24 \<and> mm \<le> 60);
         (if c = CHR ''+'' then Some (int (hr * 60 + mm) * 60, drop 5 t)
          else if c = CHR ''-'' then Some (- (int (hr * 60 + mm) * 60), drop 5 t) else None) })"

definition is_leap :: "nat \<Rightarrow> bool" where
  "is_leap y = (y mod 4 = 0 \<and> (y mod 100 \<noteq> 0 \<or> y mod 400 = 0))"

definition days_in :: "nat \<Rightarrow> nat \<Rightarrow> nat" where
  "days_in m y = (if m = 2 then (if is_leap y then 29 else 28) else if m \<in> {4, 6, 9, 11} then 30 else 31)"

definition days_before_year :: "nat \<Rightarrow> int" where
  "days_before_year y = (let p = int y - 1 in 365 * p + p div 4 - p div 100 + p div 400)"

definition days_before_month :: "nat \<Rightarrow> nat \<Rightarrow> nat" where
  "days_before_month m y = (\<Sum>k \<leftarrow> [1 ..< m]. days_in k y)"

definition ParseRFC3339 :: "bytes \<Rightarrow> int option" where
  "ParseRFC3339 s = do {
     (year, s) \<leftarrow> get_year s; s \<leftarrow> expect_char (CHR ''-'') s;
     (month, s) \<leftarrow> getnum s True; s \<leftarrow> expect_char (CHR ''-'') s;
     (day, s) \<leftarrow> getnum s True; s \<leftarrow> expect_char (CHR ''T'') s;
     (hour, s) \<leftarrow> getnum s False; s \<leftarrow> expect_char (CHR '':'') s;
     (minute, s) \<leftarrow> getnum s True; s \<leftarrow> expect_char (CHR '':'') s;
     (sec, s) \<leftarrow> getnum s True;
     let (nsec, s) = get_fraction s;
     (offset, s) \<leftarrow> get_zone s;
     guard (s = [] \<and> 1 \<le> month \<and> month \<le> 12 \<and> hour < 24 \<and> minute < 60 \<and> sec < 60
       \<and> 1 \<le> day \<and> day \<le> days_in month year);
     Some (((days_before_year year + int (days_before_month month year) + int day - 1) * 86400
       + int (hour * 3600 + minute * 60 + sec) - offset) * 1000000000 + int nsec) }"

definition IsZero :: "int \<Rightarrow> bool" where
  "IsZero t = (t = 0)"

definition Before :: "int \<Rightarrow> int \<Rightarrow> bool" where
  "Before t u = (t < u)"

lemmas time_eval = ParseRFC3339_def get_year_def get_fraction_def get_zone_def getnum.simps expect_char.simps
  guard_def digit_val_def digits_val_def is_digit_def is_leap_def days_in_def days_before_year_def
  days_before_month_def upt_rec Let_def

lemma ParseRFC3339_samples:
  "ParseRFC3339 ''0001-01-01T00:00:00Z'' = Some 0"
  "ParseRFC3339 ''1970-01-01T00:00:00Z'' = Some 62135596800000000000"
  "ParseRFC3339 ''2026-02-29T00:00:00Z'' = None"
  "ParseRFC3339 ''2024-02-29T00:00:00.5+01:00'' = Some 63844758000500000000"
  by (simp_all add: time_eval)

end
