(* ===== verification/Sigenvelope.thy ===== *)
theory Sigenvelope
  imports Go_Decode Go_Time Crypto
begin

text \<open>
  \<open>internal/sigenvelope/sigenvelope.go\<close>: signed bundles and public key envelopes. A bundle is accepted
  only with one valid signature of every algorithm its profile requires, over an input that names
  the artifact kind, the profile, the key and the digest of the canonical payload.
\<close>

record SignatureEntry =
  S_Alg :: bytes
  S_KeyID :: bytes
  S_PublicKeyFingerprint :: bytes
  S_SignatureInputSHA256 :: bytes
  S_SigB64 :: bytes

record Envelope =
  ArtifactKind :: bytes
  E_Payload :: bytes
  PayloadSHA256 :: bytes
  Canonicalization :: bytes
  SignatureProfile :: bytes
  Signatures :: "SignatureEntry list"

record PublicKeyMaterial =
  M_Alg :: bytes
  M_PublicKeyB64 :: bytes
  M_PublicKeyFingerprint :: bytes

record PublicKeyEnvelope =
  V :: int
  Kind :: bytes
  KeyID :: bytes
  KeyType :: bytes
  Profile :: bytes
  CreatedAt :: bytes
  NotBefore :: bytes
  ExpiresAt :: bytes
  Keys :: "PublicKeyMaterial list"

datatype env_err = ParseBundle canon_err | ParseBundleJson decode_err | WrongKind | UnsupportedCanonicalization
  | ProfileNotAccepted | NoSignatures | BadPayloadSHA256 | CanonicalizePayload canon_err | PayloadSHA256Mismatch
  | UnknownProfile | DuplicateSignature | AlgNotRequired | DuplicateKeyMaterial | MissingSignature
  | MissingPublicKey | KeyIDMismatch | FingerprintMismatch | SignatureInputMismatch | BadKeyEncoding
  | BadSignatureEncoding | MLDSAFailed crypto_err | SLHFailed crypto_err | UnsupportedAlgorithm
  | BadVersion | KeyIDRequired | NoKeys | NotBeforeUnparseable | ExpiresAtUnparseable | MissingKeyFields
  | ErrOutsideWindow

definition CanonicalizationV1 :: bytes where
  "CanonicalizationV1 = ''AIII-CANONICAL-JSON-V1''"

subsection \<open>Decoding\<close>

definition zero_SignatureEntry :: SignatureEntry where
  "zero_SignatureEntry = \<lparr>S_Alg = [], S_KeyID = [], S_PublicKeyFingerprint = [], S_SignatureInputSHA256 = [], S_SigB64 = []\<rparr>"

definition fill_SignatureEntry :: "SignatureEntry \<Rightarrow> (bytes \<times> bytes) list \<Rightarrow> decode_err + SignatureEntry" where
  "fill_SignatureEntry e fs =
    (case scalar_field token_string (S_Alg e) ''alg'' fs of Inl x \<Rightarrow> Inl x | Inr a \<Rightarrow>
    (case scalar_field token_string (S_KeyID e) ''key_id'' fs of Inl x \<Rightarrow> Inl x | Inr k \<Rightarrow>
    (case scalar_field token_string (S_PublicKeyFingerprint e) ''public_key_fingerprint'' fs of Inl x \<Rightarrow> Inl x | Inr f \<Rightarrow>
    (case scalar_field token_string (S_SignatureInputSHA256 e) ''signature_input_sha256'' fs of Inl x \<Rightarrow> Inl x | Inr i \<Rightarrow>
    (case scalar_field token_string (S_SigB64 e) ''sig_b64'' fs of Inl x \<Rightarrow> Inl x | Inr s \<Rightarrow>
      Inr \<lparr>S_Alg = a, S_KeyID = k, S_PublicKeyFingerprint = f, S_SignatureInputSHA256 = i, S_SigB64 = s\<rparr>)))))"

definition decode_SignatureEntry :: "SignatureEntry \<Rightarrow> bytes \<Rightarrow> decode_err + SignatureEntry" where
  "decode_SignatureEntry = nested_struct
     [''alg'', ''key_id'', ''public_key_fingerprint'', ''signature_input_sha256'', ''sig_b64''] fill_SignatureEntry"

definition fill_Envelope :: "(bytes \<times> bytes) list \<Rightarrow> decode_err + Envelope" where
  "fill_Envelope fs =
    (case scalar_field token_string [] ''artifact_kind'' fs of Inl x \<Rightarrow> Inl x | Inr a \<Rightarrow>
    (case scalar_field token_string [] ''payload_sha256'' fs of Inl x \<Rightarrow> Inl x | Inr p \<Rightarrow>
    (case scalar_field token_string [] ''canonicalization'' fs of Inl x \<Rightarrow> Inl x | Inr c \<Rightarrow>
    (case scalar_field token_string [] ''signature_profile'' fs of Inl x \<Rightarrow> Inl x | Inr r \<Rightarrow>
    (case slice_field decode_SignatureEntry zero_SignatureEntry ''signatures'' fs of Inl x \<Rightarrow> Inl x | Inr s \<Rightarrow>
      Inr \<lparr>ArtifactKind = a, E_Payload = raw_field ''payload'' fs, PayloadSHA256 = p, Canonicalization = c,
        SignatureProfile = r, Signatures = s\<rparr>)))))"

definition Unmarshal_Envelope :: "bytes \<Rightarrow> decode_err + Envelope" where
  "Unmarshal_Envelope raw = (case Unmarshal_object raw of Inl e \<Rightarrow> Inl e
     | Inr None \<Rightarrow> fill_Envelope []
     | Inr (Some ms) \<Rightarrow> fill_Envelope (known_fields
         [''artifact_kind'', ''payload'', ''payload_sha256'', ''canonicalization'', ''signature_profile'', ''signatures''] ms))"

subsection \<open>Operations\<close>

definition FindPublicKey :: "PublicKeyEnvelope \<Rightarrow> bytes \<Rightarrow> PublicKeyMaterial option" where
  "FindPublicKey e alg = find (\<lambda>k. M_Alg k = alg) (Keys e)"

definition profileAccepted :: "bytes \<Rightarrow> bytes list \<Rightarrow> bool" where
  "profileAccepted profile accepted = (profile \<in> set accepted)"

definition SHA256Prefixed :: "'sk prims \<Rightarrow> bytes \<Rightarrow> bytes" where
  "SHA256Prefixed P data = ''sha256:'' @ hex_encode (sha256 P data)"

definition env_PublicKeyFingerprint :: "'sk prims \<Rightarrow> bytes \<Rightarrow> bytes \<Rightarrow> bytes \<Rightarrow> bytes" where
  "env_PublicKeyFingerprint P alg keyID publicKeyB64 = SHA256Prefixed P
     (''AIII-PUBLIC-KEY-FINGERPRINT-V1'' @ [NL] @ ''alg:'' @ alg @ [NL] @ ''key_id:'' @ keyID @ [NL]
      @ ''public_key_b64:'' @ publicKeyB64 @ [NL])"

definition SignatureInput :: "bytes \<Rightarrow> bytes \<Rightarrow> bytes \<Rightarrow> bytes \<Rightarrow> bytes \<Rightarrow> bytes \<Rightarrow> bytes" where
  "SignatureInput artifactKind profile alg keyID fingerprint payloadSHA256 =
     ''AIII-SIGNATURE-V1'' @ [NL] @ ''artifact_kind:'' @ artifactKind @ [NL]
     @ ''canonicalization:'' @ CanonicalizationV1 @ [NL] @ ''signature_profile:'' @ profile @ [NL]
     @ ''alg:'' @ alg @ [NL] @ ''key_id:'' @ keyID @ [NL]
     @ ''public_key_fingerprint:'' @ fingerprint @ [NL] @ ''payload_sha256:'' @ payloadSHA256 @ [NL]"

definition ValidatePayloadSHA256 :: "bytes \<Rightarrow> bool" where
  "ValidatePayloadSHA256 value = (has_prefix value ''sha256:'' \<and>
     (let raw = trim_prefix value ''sha256:'' in length raw = 64 \<and> list_all (\<lambda>c. hex_val c \<noteq> None) raw))"

text \<open>One required algorithm: its signature entry and key must be there, agree and verify.\<close>

definition verify_required ::
  "'sk prims \<Rightarrow> Envelope \<Rightarrow> PublicKeyEnvelope \<Rightarrow> bytes \<Rightarrow> env_err option" where
  "verify_required P bundle pubkey alg =
    (case find (\<lambda>s. S_Alg s = alg) (Signatures bundle) of None \<Rightarrow> Some MissingSignature
     | Some sig \<Rightarrow>
    (case find (\<lambda>k. M_Alg k = alg) (Keys pubkey) of None \<Rightarrow> Some MissingPublicKey
     | Some pubKey \<Rightarrow>
        if S_KeyID sig \<noteq> KeyID pubkey then Some KeyIDMismatch
        else if S_PublicKeyFingerprint sig \<noteq> M_PublicKeyFingerprint pubKey then Some FingerprintMismatch
        else let sigInput = SignatureInput (ArtifactKind bundle) (SignatureProfile bundle) (S_Alg sig) (S_KeyID sig)
               (S_PublicKeyFingerprint sig) (PayloadSHA256 bundle) in
          if SHA256Prefixed P sigInput \<noteq> S_SignatureInputSHA256 sig then Some SignatureInputMismatch
          else (case b64_decode (M_PublicKeyB64 pubKey) of None \<Rightarrow> Some BadKeyEncoding
            | Some pubKeyBytes \<Rightarrow>
           (case b64_decode (S_SigB64 sig) of None \<Rightarrow> Some BadSignatureEncoding
            | Some sigBytes \<Rightarrow>
               if alg = SigAlg then map_option MLDSAFailed (Verify P pubKeyBytes sigInput sigBytes)
               else if alg = SLHAlg then map_option SLHFailed (VerifySLH P pubKeyBytes sigInput sigBytes)
               else Some UnsupportedAlgorithm))))"

fun first_error :: "('a \<Rightarrow> 'e option) \<Rightarrow> 'a list \<Rightarrow> 'e option" where
  "first_error f [] = None"
| "first_error f (x # xs) = (case f x of Some e \<Rightarrow> Some e | None \<Rightarrow> first_error f xs)"

definition verify_signatures ::
  "'sk prims \<Rightarrow> Envelope \<Rightarrow> PublicKeyEnvelope \<Rightarrow> env_err option" where
  "verify_signatures P bundle pubkey =
    (case RequiredAlgorithms (SignatureProfile bundle) of None \<Rightarrow> Some UnknownProfile
     | Some required \<Rightarrow>
        if \<not> distinct (map S_Alg (Signatures bundle)) then Some DuplicateSignature
        else if \<not> list_all (\<lambda>s. S_Alg s \<in> set required) (Signatures bundle) then Some AlgNotRequired
        else if \<not> distinct (map M_Alg (Keys pubkey)) then Some DuplicateKeyMaterial
        else first_error (verify_required P bundle pubkey) required)"

definition VerifyPayload ::
  "'sk prims \<Rightarrow> bytes \<Rightarrow> PublicKeyEnvelope \<Rightarrow> bytes \<Rightarrow> bytes list \<Rightarrow> env_err + bytes" where
  "VerifyPayload P bundleBytes pubkey expectedKind acceptedProfiles =
    (case CanonicalizeV1 bundleBytes of Inl e \<Rightarrow> Inl (ParseBundle e)
     | Inr _ \<Rightarrow>
    (case Unmarshal_Envelope bundleBytes of Inl e \<Rightarrow> Inl (ParseBundleJson e)
     | Inr bundle \<Rightarrow>
        if ArtifactKind bundle \<noteq> expectedKind then Inl WrongKind
        else if Canonicalization bundle \<noteq> CanonicalizationV1 then Inl UnsupportedCanonicalization
        else if \<not> profileAccepted (SignatureProfile bundle) acceptedProfiles then Inl ProfileNotAccepted
        else if Signatures bundle = [] then Inl NoSignatures
        else if \<not> ValidatePayloadSHA256 (PayloadSHA256 bundle) then Inl BadPayloadSHA256
        else (case CanonicalizeV1 (E_Payload bundle) of Inl e \<Rightarrow> Inl (CanonicalizePayload e)
          | Inr canonicalPayload \<Rightarrow>
             if SHA256Prefixed P canonicalPayload \<noteq> PayloadSHA256 bundle then Inl PayloadSHA256Mismatch
             else (case verify_signatures P bundle pubkey of Some e \<Rightarrow> Inl e
               | None \<Rightarrow> Inr (E_Payload bundle)))))"

definition ValidWindow :: "PublicKeyEnvelope \<Rightarrow> int \<Rightarrow> env_err option" where
  "ValidWindow env at =
    (let expires = (if ExpiresAt env = [] then None
       else case ParseRFC3339 (ExpiresAt env) of None \<Rightarrow> Some ExpiresAtUnparseable
         | Some exp \<Rightarrow> if \<not> Before at exp then Some ErrOutsideWindow else None) in
     if NotBefore env = [] then expires
     else case ParseRFC3339 (NotBefore env) of None \<Rightarrow> Some NotBeforeUnparseable
       | Some nb \<Rightarrow> if Before at nb then Some ErrOutsideWindow else expires)"

text \<open>The loop over the key entries; \<open>seen\<close> are the algorithms met so far.\<close>

fun check_keys :: "'sk prims \<Rightarrow> bytes \<Rightarrow> bytes list \<Rightarrow> PublicKeyMaterial list \<Rightarrow> env_err option" where
  "check_keys P keyID seen [] = None"
| "check_keys P keyID seen (k # ks) =
    (if M_Alg k \<in> set seen then Some DuplicateKeyMaterial
     else if M_Alg k = [] \<or> M_PublicKeyB64 k = [] \<or> M_PublicKeyFingerprint k = [] then Some MissingKeyFields
     else if M_PublicKeyFingerprint k \<noteq> env_PublicKeyFingerprint P (M_Alg k) keyID (M_PublicKeyB64 k)
     then Some FingerprintMismatch
     else check_keys P keyID (M_Alg k # seen) ks)"

definition ValidatePublicKeyEnvelopeShape :: "'sk prims \<Rightarrow> PublicKeyEnvelope \<Rightarrow> bytes list \<Rightarrow> env_err option" where
  "ValidatePublicKeyEnvelopeShape P env acceptedProfiles =
    (if V env \<noteq> 1 then Some BadVersion
     else if \<not> profileAccepted (Profile env) acceptedProfiles then Some ProfileNotAccepted
     else if KeyID env = [] then Some KeyIDRequired
     else if Keys env = [] then Some NoKeys
     else if NotBefore env \<noteq> [] \<and> ParseRFC3339 (NotBefore env) = None then Some NotBeforeUnparseable
     else if ExpiresAt env \<noteq> [] \<and> ParseRFC3339 (ExpiresAt env) = None then Some ExpiresAtUnparseable
     else check_keys P (KeyID env) [] (Keys env))"

definition ValidatePublicKeyEnvelope :: "'sk prims \<Rightarrow> PublicKeyEnvelope \<Rightarrow> bytes list \<Rightarrow> int \<Rightarrow> env_err option" where
  "ValidatePublicKeyEnvelope P env acceptedProfiles now =
    (case ValidatePublicKeyEnvelopeShape P env acceptedProfiles of Some e \<Rightarrow> Some e | None \<Rightarrow> ValidWindow env now)"

subsection \<open>Helper lemmas\<close>

lemma first_error_None: "first_error f xs = None \<longleftrightarrow> (\<forall>x \<in> set xs. f x = None)"
  by (induction xs) (auto split: option.splits)

text \<open>The verification call of one algorithm.\<close>

definition alg_verifies :: "'sk prims \<Rightarrow> bytes \<Rightarrow> bytes \<Rightarrow> bytes \<Rightarrow> bytes \<Rightarrow> bool" where
  "alg_verifies P alg pub message sig =
    (if alg = SigAlg then Verify P pub message sig = None
     else if alg = SLHAlg then VerifySLH P pub message sig = None else False)"

lemma verify_required_None:
  assumes "verify_required P bundle pubkey alg = None"
  shows "\<exists>sig key pub s. sig \<in> set (Signatures bundle) \<and> S_Alg sig = alg \<and> key \<in> set (Keys pubkey) \<and> M_Alg key = alg
    \<and> b64_decode (M_PublicKeyB64 key) = Some pub \<and> b64_decode (S_SigB64 sig) = Some s
    \<and> alg_verifies P alg pub (SignatureInput (ArtifactKind bundle) (SignatureProfile bundle) alg (KeyID pubkey)
        (M_PublicKeyFingerprint key) (PayloadSHA256 bundle)) s"
proof -
  obtain sig where s: "find (\<lambda>s. S_Alg s = alg) (Signatures bundle) = Some sig"
    using assms by (auto simp: verify_required_def split: option.splits)
  obtain key where k: "find (\<lambda>k. M_Alg k = alg) (Keys pubkey) = Some key"
    using assms s by (auto simp: verify_required_def split: option.splits)
  have in_s: "sig \<in> set (Signatures bundle)" "S_Alg sig = alg" using s by (auto simp: find_Some_iff in_set_conv_nth)
  have in_k: "key \<in> set (Keys pubkey)" "M_Alg key = alg" using k by (auto simp: find_Some_iff in_set_conv_nth)
  have f: "S_KeyID sig = KeyID pubkey" "S_PublicKeyFingerprint sig = M_PublicKeyFingerprint key"
    using assms s k by (auto simp: verify_required_def Let_def split: if_splits)
  obtain pub where pub: "b64_decode (M_PublicKeyB64 key) = Some pub"
    using assms s k by (auto simp: verify_required_def Let_def split: if_splits option.splits)
  obtain x where x: "b64_decode (S_SigB64 sig) = Some x"
    using assms s k pub by (auto simp: verify_required_def Let_def split: if_splits option.splits)
  have "alg_verifies P alg pub (SignatureInput (ArtifactKind bundle) (SignatureProfile bundle) alg (KeyID pubkey)
        (M_PublicKeyFingerprint key) (PayloadSHA256 bundle)) x"
    using assms s k f pub x in_s(2) unfolding alg_verifies_def
    by (auto simp: verify_required_def Let_def split: if_splits)
  then show ?thesis using in_s in_k pub x by blast
qed

lemma RequiredAlgorithms_Some: "RequiredAlgorithms p = Some r \<Longrightarrow> p = ProfileRoot \<and> r = [SigAlg, SLHAlg]"
  by (auto simp: RequiredAlgorithms_def split: if_splits)

lemma VerifyPayload_Inr:
  assumes "VerifyPayload P raw pubkey kind profiles = Inr payload"
  obtains "bundle" canonical where "Unmarshal_Envelope raw = Inr bundle" "payload = E_Payload bundle"
    "ArtifactKind bundle = kind" "SignatureProfile bundle = ProfileRoot" "ProfileRoot \<in> set profiles"
    "CanonicalizeV1 payload = Inr canonical" "PayloadSHA256 bundle = SHA256Prefixed P canonical"
    "map S_Alg (Signatures bundle) \<noteq> []" "distinct (map S_Alg (Signatures bundle))"
    "\<forall>alg \<in> {SigAlg, SLHAlg}. verify_required P bundle pubkey alg = None"
    "set (map S_Alg (Signatures bundle)) \<subseteq> {SigAlg, SLHAlg}"
proof -
  obtain "bundle" canonical where b: "Unmarshal_Envelope raw = Inr bundle" "payload = E_Payload bundle"
      "ArtifactKind bundle = kind" "SignatureProfile bundle \<in> set profiles" "Signatures bundle \<noteq> []"
      "CanonicalizeV1 payload = Inr canonical" "PayloadSHA256 bundle = SHA256Prefixed P canonical"
      "verify_signatures P bundle pubkey = None"
    using assms by (auto simp: VerifyPayload_def profileAccepted_def split: sum.splits if_splits option.splits)
  obtain required where r: "RequiredAlgorithms (SignatureProfile bundle) = Some required"
      "distinct (map S_Alg (Signatures bundle))" "list_all (\<lambda>s. S_Alg s \<in> set required) (Signatures bundle)"
      "first_error (verify_required P bundle pubkey) required = None"
    using b(8) by (auto simp: verify_signatures_def split: option.splits if_splits)
  note q = RequiredAlgorithms_Some [OF r(1)]
  show thesis
    by (rule that [OF b(1,2,3) _ _ b(6,7)])
      (use b(4,5) r(2,3) r(4) [unfolded first_error_None] q in \<open>auto simp: list_all_iff\<close>)
qed

text \<open>A field that ends at the first line feed.\<close>

lemma split_at_nl:
  assumes "NL \<notin> set a" "NL \<notin> set b" "a @ NL # x = b @ NL # y"
  shows "a = b \<and> x = y"
proof -
  have "Some (a, x) = cut_at NL (a @ NL # x)" using assms(1) by simp
  also have "\<dots> = cut_at NL (b @ NL # y)" by (simp only: assms(3))
  also have "\<dots> = Some (b, y)" using assms(2) by simp
  finally show ?thesis by simp
qed

lemma SignatureInput_inj:
  assumes "SignatureInput k p a i f d = SignatureInput k' p' a' i' f' d'"
    and "NL \<notin> set k" "NL \<notin> set p" "NL \<notin> set a" "NL \<notin> set i" "NL \<notin> set f" "NL \<notin> set d"
    and "NL \<notin> set k'" "NL \<notin> set p'" "NL \<notin> set a'" "NL \<notin> set i'" "NL \<notin> set f'" "NL \<notin> set d'"
  shows "k = k' \<and> p = p' \<and> a = a' \<and> i = i' \<and> f = f' \<and> d = d'"
proof -
  define t6 where "t6 d = ''payload_sha256:'' @ d @ [NL]" for d :: bytes
  define t5 where "t5 f d = ''public_key_fingerprint:'' @ f @ NL # t6 d" for f d :: bytes
  define t4 where "t4 i f d = ''key_id:'' @ i @ NL # t5 f d" for i f d :: bytes
  define t3 where "t3 a i f d = ''alg:'' @ a @ NL # t4 i f d" for a i f d :: bytes
  define t2 where "t2 p a i f d = ''canonicalization:'' @ CanonicalizationV1 @ NL # ''signature_profile:'' @ p @ NL # t3 a i f d"
    for p a i f d :: bytes
  have e: "SignatureInput k p a i f d = ''AIII-SIGNATURE-V1'' @ NL # ''artifact_kind:'' @ k @ NL # t2 p a i f d" for k p a i f d
    by (simp add: SignatureInput_def t2_def t3_def t4_def t5_def t6_def)
  have 1: "k @ NL # t2 p a i f d = k' @ NL # t2 p' a' i' f' d'" using assms(1) unfolding e by (simp only: same_append_eq list.inject)
  note s1 = split_at_nl [OF assms(2,8) 1]
  have 2: "p @ NL # t3 a i f d = p' @ NL # t3 a' i' f' d'" using s1 [THEN conjunct2] by (simp only: t2_def same_append_eq list.inject)
  note s2 = split_at_nl [OF assms(3,9) 2]
  have 3: "a @ NL # t4 i f d = a' @ NL # t4 i' f' d'" using s2 [THEN conjunct2] by (simp only: t3_def same_append_eq)
  note s3 = split_at_nl [OF assms(4,10) 3]
  have 4: "i @ NL # t5 f d = i' @ NL # t5 f' d'" using s3 [THEN conjunct2] by (simp only: t4_def same_append_eq)
  note s4 = split_at_nl [OF assms(5,11) 4]
  have 5: "f @ NL # t6 d = f' @ NL # t6 d'" using s4 [THEN conjunct2] by (simp only: t5_def same_append_eq)
  note s5 = split_at_nl [OF assms(6,12) 5]
  have "d = d'" using s5 by (simp add: t6_def)
  then show ?thesis using s1 s2 s3 s4 s5 by simp
qed

lemma hex_no_nl: "NL \<notin> set (hex_encode s)"
proof -
  have "NL \<noteq> hex_digit d" if "d < 16" for d
    using bval_hex_digit [OF that] that by (auto split: if_splits dest!: arg_cong [where f = "of_char :: char \<Rightarrow> nat"])
  moreover have "bval c div 16 < 16" for c using bval_less [of c] by linarith
  ultimately show ?thesis by (induction s) auto
qed

subsection \<open>Properties\<close>

text \<open>
  C22. A bundle is accepted only with both signatures: whenever \<open>VerifyPayload\<close> returns a payload, the
  bundle is of the expected kind and of the root profile, and for ML-DSA-87 as well as for
  SLH-DSA there is a signature entry that verifies, under the authority's own key of that
  algorithm, over the signature input naming the kind, the profile, the authority's key and the
  digest of the payload's canonical form.
\<close>

theorem accepted_bundle_is_signed:
  assumes "VerifyPayload P raw pubkey kind profiles = Inr payload" "alg = SigAlg \<or> alg = SLHAlg"
  shows "\<exists>bundle canonical sig key pub s. Unmarshal_Envelope raw = Inr bundle \<and> payload = E_Payload bundle
    \<and> CanonicalizeV1 payload = Inr canonical \<and> ProfileRoot \<in> set profiles
    \<and> sig \<in> set (Signatures bundle) \<and> S_Alg sig = alg \<and> key \<in> set (Keys pubkey) \<and> M_Alg key = alg
    \<and> b64_decode (M_PublicKeyB64 key) = Some pub \<and> b64_decode (S_SigB64 sig) = Some s
    \<and> alg_verifies P alg pub (SignatureInput kind ProfileRoot alg (KeyID pubkey)
        (M_PublicKeyFingerprint key) (SHA256Prefixed P canonical)) s"
proof -
  obtain "bundle" canonical where b: "Unmarshal_Envelope raw = Inr bundle" "payload = E_Payload bundle"
      "ArtifactKind bundle = kind" "SignatureProfile bundle = ProfileRoot" "ProfileRoot \<in> set profiles"
      "CanonicalizeV1 payload = Inr canonical" "PayloadSHA256 bundle = SHA256Prefixed P canonical"
      "\<forall>alg \<in> {SigAlg, SLHAlg}. verify_required P bundle pubkey alg = None"
    using VerifyPayload_Inr [OF assms(1)] by metis
  have "verify_required P bundle pubkey alg = None" using b(8) assms(2) by auto
  from verify_required_None [OF this] b show ?thesis by metis
qed


text \<open>
  The validity window is half open: an envelope whose two bounds parse is valid at an instant
  exactly from its \<open>not_before\<close> on and before its \<open>expires_at\<close>; an empty bound does not limit it, and a
  bound that does not parse is refused at every instant.
\<close>

lemma ValidWindow_iff:
  "ValidWindow env at = None \<longleftrightarrow>
    (NotBefore env = [] \<or> (\<exists>nb. ParseRFC3339 (NotBefore env) = Some nb \<and> nb \<le> at)) \<and>
    (ExpiresAt env = [] \<or> (\<exists>exp. ParseRFC3339 (ExpiresAt env) = Some exp \<and> at < exp))"
  by (auto simp: ValidWindow_def Before_def Let_def split: option.splits)

subsection \<open>Bundles as they are written\<close>

definition sig_doc :: "SignatureEntry \<Rightarrow> json" where
  "sig_doc s = JObj [(''alg'', JStr (S_Alg s)), (''key_id'', JStr (S_KeyID s)),
     (''public_key_fingerprint'', JStr (S_PublicKeyFingerprint s)), (''sig_b64'', JStr (S_SigB64 s)),
     (''signature_input_sha256'', JStr (S_SignatureInputSHA256 s))]"

definition bundle_doc :: "Envelope \<Rightarrow> json \<Rightarrow> json" where
  "bundle_doc b payload = JObj [(''artifact_kind'', JStr (ArtifactKind b)), (''canonicalization'', JStr (Canonicalization b)),
     (''payload'', payload), (''payload_sha256'', JStr (PayloadSHA256 b)), (''signature_profile'', JStr (SignatureProfile b)),
     (''signatures'', JArr (map sig_doc (Signatures b)))]"

definition text_ok :: "bytes \<Rightarrow> bool" where
  "text_ok s \<longleftrightarrow> utf8_valid s \<and> CHR 0x00 \<notin> set s"

definition sig_ok :: "SignatureEntry \<Rightarrow> bool" where
  "sig_ok s \<longleftrightarrow> text_ok (S_Alg s) \<and> text_ok (S_KeyID s) \<and> text_ok (S_PublicKeyFingerprint s)
     \<and> text_ok (S_SignatureInputSHA256 s) \<and> text_ok (S_SigB64 s)"

definition bundle_ok :: "Envelope \<Rightarrow> bool" where
  "bundle_ok b \<longleftrightarrow> text_ok (ArtifactKind b) \<and> text_ok (Canonicalization b) \<and> text_ok (PayloadSHA256 b)
     \<and> text_ok (SignatureProfile b) \<and> list_all sig_ok (Signatures b)"

lemma env_keys:
  "list_all plain_char ''alg''" "list_all plain_char ''key_id''" "list_all plain_char ''public_key_fingerprint''"
  "list_all plain_char ''sig_b64''" "list_all plain_char ''signature_input_sha256''" "list_all plain_char ''artifact_kind''"
  "list_all plain_char ''canonicalization''" "list_all plain_char ''payload''" "list_all plain_char ''payload_sha256''"
  "list_all plain_char ''signature_profile''" "list_all plain_char ''signatures''"
  by (simp_all add: plain_char_def)

lemma env_sorted:
  "sorted [''alg'', ''key_id'', ''public_key_fingerprint'', ''sig_b64'', ''signature_input_sha256'']"
  "sorted [''artifact_kind'', ''canonicalization'', ''payload'', ''payload_sha256'', ''signature_profile'', ''signatures'']"
  by (simp_all add: less_eq_char_def less_char_def)

lemma wf_sig_doc: "sig_ok s \<Longrightarrow> wf_json (sig_doc s)"
  using env_keys [THEN plain_valid] by (simp add: sig_doc_def sig_ok_def text_ok_def)

lemma wf_bundle_doc: "bundle_ok b \<Longrightarrow> wf_json p \<Longrightarrow> wf_json (bundle_doc b p)"
  using env_keys [THEN plain_valid] wf_sig_doc by (simp add: bundle_doc_def bundle_ok_def text_ok_def list_all_iff)

lemma scalar_text: "field_raws n fs = [emitCanonicalJSONString s] \<Longrightarrow> text_ok s \<Longrightarrow> scalar_field token_string z n fs = Inr s"
  by (rule scalar_field_one) (auto simp: text_ok_def token_emit_string)

lemma decode_sig_doc:
  assumes "sig_ok s"
  shows "decode_SignatureEntry z (emitCanonicalJSONValue (sig_doc s)) = Inr s"
proof -
  let ?ms = "[(''alg'', JStr (S_Alg s)), (''key_id'', JStr (S_KeyID s)),
     (''public_key_fingerprint'', JStr (S_PublicKeyFingerprint s)), (''sig_b64'', JStr (S_SigB64 s)),
     (''signature_input_sha256'', JStr (S_SignatureInputSHA256 s))]"
  let ?fs = "map (\<lambda>(k, v). (k, emitCanonicalJSONValue v)) ?ms"
  have so: "sorted (map fst ?ms)" using env_sorted(1) by (simp only: list.map fst_conv)
  have d: "Decode_object (emitCanonicalJSONValue (sig_doc s)) = Inr (Some ?fs)"
    unfolding sig_doc_def by (rule Decode_emit_object [OF wf_sig_doc [OF assms, unfolded sig_doc_def] so])
  have k: "known_fields [''alg'', ''key_id'', ''public_key_fingerprint'', ''signature_input_sha256'', ''sig_b64''] ?fs = ?fs"
    by (rule known_fields_exact) simp
  have f: "field_raws ''alg'' ?fs = [emitCanonicalJSONString (S_Alg s)]"
    "field_raws ''key_id'' ?fs = [emitCanonicalJSONString (S_KeyID s)]"
    "field_raws ''public_key_fingerprint'' ?fs = [emitCanonicalJSONString (S_PublicKeyFingerprint s)]"
    "field_raws ''signature_input_sha256'' ?fs = [emitCanonicalJSONString (S_SignatureInputSHA256 s)]"
    "field_raws ''sig_b64'' ?fs = [emitCanonicalJSONString (S_SigB64 s)]"
    by (simp_all add: field_raws_def)
  have "fill_SignatureEntry z ?fs = Inr s"
    unfolding fill_SignatureEntry_def using assms
    by (simp only: f [THEN scalar_text] sig_ok_def sum.case) simp
  then show ?thesis by (simp only: decode_SignatureEntry_def nested_struct_def d k sum.case option.case)
qed

lemma decode_slots_map:
  assumes "\<forall>x \<in> set xs. \<forall>z. dec z (f x) = Inr x"
  shows "decode_slots dec zero [] (map f xs) = Inr xs"
  using assms by (induction xs) simp_all

lemma slice_field_one:
  assumes "field_raws n fs = [raw]" "Decode_array raw = Inr (Some (map f xs))" "\<forall>x \<in> set xs. \<forall>z. dec z (f x) = Inr x"
  shows "slice_field dec zero n fs = Inr xs"
  using assms decode_slots_map [OF assms(3)] by (simp add: slice_field_def)

lemma Unmarshal_bundle_doc:
  assumes "bundle_ok b" "wf_json p" "E_Payload b = emitCanonicalJSONValue p"
  shows "Unmarshal_Envelope (emitCanonicalJSONValue (bundle_doc b p)) = Inr b"
proof -
  let ?ms = "[(''artifact_kind'', JStr (ArtifactKind b)), (''canonicalization'', JStr (Canonicalization b)),
     (''payload'', p), (''payload_sha256'', JStr (PayloadSHA256 b)), (''signature_profile'', JStr (SignatureProfile b)),
     (''signatures'', JArr (map sig_doc (Signatures b)))]"
  let ?fs = "map (\<lambda>(k, v). (k, emitCanonicalJSONValue v)) ?ms"
  note wf = wf_bundle_doc [OF assms(1,2)]
  have so: "sorted (map fst ?ms)" using env_sorted(2) by (simp only: list.map fst_conv)
  have "Decode_object (emitCanonicalJSONValue (bundle_doc b p)) = Inr (Some ?fs)"
    unfolding bundle_doc_def by (rule Decode_emit_object [OF wf [unfolded bundle_doc_def] so])
  then have d: "Unmarshal_object (emitCanonicalJSONValue (bundle_doc b p)) = Inr (Some ?fs)"
    by (simp only: Unmarshal_object_def only_value_emit [OF wf] if_True)
  have k: "known_fields [''artifact_kind'', ''payload'', ''payload_sha256'', ''canonicalization'',
      ''signature_profile'', ''signatures''] ?fs = ?fs"
    by (rule known_fields_exact) simp
  have f: "field_raws ''artifact_kind'' ?fs = [emitCanonicalJSONString (ArtifactKind b)]"
    "field_raws ''payload_sha256'' ?fs = [emitCanonicalJSONString (PayloadSHA256 b)]"
    "field_raws ''canonicalization'' ?fs = [emitCanonicalJSONString (Canonicalization b)]"
    "field_raws ''signature_profile'' ?fs = [emitCanonicalJSONString (SignatureProfile b)]"
    by (simp_all add: field_raws_def)
  have fp: "field_raws ''payload'' ?fs = [emitCanonicalJSONValue p]"
    "field_raws ''signatures'' ?fs = [emitCanonicalJSONValue (JArr (map sig_doc (Signatures b)))]"
    by (simp_all add: field_raws_def)
  have r: "raw_field ''payload'' ?fs = E_Payload b" using fp(1) assms(3) by (simp add: raw_field_def)
  have "wf_json (JArr (map sig_doc (Signatures b)))"
    using assms(1) wf_sig_doc by (simp add: bundle_ok_def list_all_iff)
  from Decode_emit_array [OF this] have s: "slice_field decode_SignatureEntry zero_SignatureEntry ''signatures'' ?fs = Inr (Signatures b)"
    using assms(1) decode_sig_doc
    by (intro slice_field_one [OF fp(2), of "\<lambda>x. emitCanonicalJSONValue (sig_doc x)"])
      (simp_all add: bundle_ok_def list_all_iff comp_def)
  have "fill_Envelope ?fs = Inr b"
    unfolding fill_Envelope_def using assms(1)
    by (simp only: f [THEN scalar_text] bundle_ok_def sum.case s r) simp
  then show ?thesis by (simp only: Unmarshal_Envelope_def d k sum.case option.case)
qed

lemma sha_text: "length (sha256 P x) = 32 \<Longrightarrow> ValidatePayloadSHA256 (SHA256Prefixed P x)"
proof -
  have h: "hex_val (hex_digit d) \<noteq> None" if "d < 16" for d using that by simp
  have "bval c div 16 < 16" for c using bval_less [of c] by linarith
  then have "list_all (\<lambda>c. hex_val c \<noteq> None) (hex_encode s)" for s using h by (induction s) simp_all
  moreover assume "length (sha256 P x) = 32"
  ultimately show ?thesis
    by (simp add: ValidatePayloadSHA256_def SHA256Prefixed_def has_prefix_def trim_prefix_def)
qed

lemma written_bundle:
  assumes "bundle_ok b" "wf_json p" "E_Payload b = emitCanonicalJSONValue p" "Canonicalization b = CanonicalizationV1"
    and "PayloadSHA256 b = SHA256Prefixed P (E_Payload b)" "length (sha256 P (E_Payload b)) = 32" "Signatures b \<noteq> []"
  shows "VerifyPayload P (emitCanonicalJSONValue (bundle_doc b p)) pubkey (ArtifactKind b) profiles
    = (if SignatureProfile b \<notin> set profiles then Inl ProfileNotAccepted
       else case verify_signatures P b pubkey of Some e \<Rightarrow> Inl e | None \<Rightarrow> Inr (E_Payload b))"
  using canonicalize_emit [OF wf_bundle_doc [OF assms(1,2)]] canonicalize_emit [OF assms(2)]
    Unmarshal_bundle_doc [OF assms(1-3)] sha_text [OF assms(6)] assms(3-7)
  by (simp add: VerifyPayload_def profileAccepted_def split: option.split)

text \<open>
  C24. No honest bundle is refused: a bundle written in canonical form, whose payload digest is that of
  its payload, is answered by its signatures alone. It is returned as it was written when both
  required signatures verify and its profile is accepted, and otherwise the error is the one of
  the signature check.
\<close>

theorem honest_bundle_accepted:
  assumes "bundle_ok b" "wf_json p" "E_Payload b = emitCanonicalJSONValue p" "Canonicalization b = CanonicalizationV1"
    and "PayloadSHA256 b = SHA256Prefixed P (E_Payload b)" "length (sha256 P (E_Payload b)) = 32" "Signatures b \<noteq> []"
    and "SignatureProfile b \<in> set profiles"
  shows "VerifyPayload P (emitCanonicalJSONValue (bundle_doc b p)) pubkey (ArtifactKind b) profiles
    = (case verify_signatures P b pubkey of Some e \<Rightarrow> Inl e | None \<Rightarrow> Inr (E_Payload b))"
  using written_bundle [OF assms(1-7)] assms(8) by simp

subsection \<open>Examples\<close>

definition demo_sig :: "bytes \<Rightarrow> bytes \<Rightarrow> SignatureEntry" where
  "demo_sig alg signer =
    (let input = SignatureInput ''catalog'' ProfileRoot alg ''k1'' ''f'' (SHA256Prefixed demo_prims ''true'') in
     \<lparr>S_Alg = alg, S_KeyID = ''k1'', S_PublicKeyFingerprint = ''f'',
      S_SignatureInputSHA256 = SHA256Prefixed demo_prims input, S_SigB64 = b64_encode (signer @ input)\<rparr>)"

definition demo_bundle :: Envelope where
  "demo_bundle = \<lparr>ArtifactKind = ''catalog'', E_Payload = ''true'', PayloadSHA256 = SHA256Prefixed demo_prims ''true'',
     Canonicalization = CanonicalizationV1, SignatureProfile = ProfileRoot,
     Signatures = [demo_sig SigAlg ''7'', demo_sig SLHAlg ''S'']\<rparr>"

definition demo_authority :: PublicKeyEnvelope where
  "demo_authority = \<lparr>V = 1, Kind = ''public_key'', KeyID = ''k1'', KeyType = ''root'', Profile = ProfileRoot,
     CreatedAt = [], NotBefore = [], ExpiresAt = [],
     Keys = [\<lparr>M_Alg = SigAlg, M_PublicKeyB64 = b64_encode ''P7'', M_PublicKeyFingerprint = ''f''\<rparr>,
       \<lparr>M_Alg = SLHAlg, M_PublicKeyB64 = b64_encode ''S'', M_PublicKeyFingerprint = ''f''\<rparr>]\<rparr>"

definition demo_bundle_text :: bytes where
  "demo_bundle_text = emitCanonicalJSONValue (bundle_doc demo_bundle (JBool True))"

lemma plain_text_ok: "list_all plain_char s \<Longrightarrow> text_ok s"
  by (simp add: text_ok_def plain_valid)

lemma b64_alphabet: "bval c \<noteq> 0x5C" if "c \<in> set (b64_encode s)"
proof -
  have "bval (b64_char n) \<noteq> 0x5C" if "n < 64" for n using bval_b64_char [OF that] that by (auto split: if_splits)
  then show ?thesis using that by (induction s rule: b64_encode.induct) (auto simp: b64_digits)
qed

lemma b64_plain: "list_all plain_char (b64_encode s)"
proof -
  have "plain_char c" if "c \<in> set (b64_encode s)" for c
    using set_b64_encode [OF that] b64_alphabet [OF that] by (auto simp: plain_char_def)
  then show ?thesis by (simp add: list_all_iff)
qed

lemma algs_differ: "SigAlg \<noteq> SLHAlg" "SLHAlg \<noteq> SigAlg"
  by (simp_all add: SigAlg_def SLHAlg_def)

lemma demo_bundle_ok: "bundle_ok demo_bundle"
proof -
  have "list_all plain_char ''catalog''" "list_all plain_char CanonicalizationV1" "list_all plain_char ProfileRoot"
    "list_all plain_char ''k1''" "list_all plain_char ''f''" "list_all plain_char SigAlg" "list_all plain_char SLHAlg"
    by (simp_all add: plain_char_def CanonicalizationV1_def ProfileRoot_def SigAlg_def SLHAlg_def)
  moreover have "list_all plain_char (SHA256Prefixed P x)" for P :: "uint64 prims" and x
    using hex_plain by (simp add: SHA256Prefixed_def plain_char_def)
  ultimately have "text_ok ''catalog''" "text_ok CanonicalizationV1" "text_ok ProfileRoot"
    "text_ok ''k1''" "text_ok ''f''" "text_ok SigAlg" "text_ok SLHAlg" "\<And>x. text_ok (SHA256Prefixed demo_prims x)"
    by (blast intro: plain_text_ok)+
  moreover have "text_ok (b64_encode x)" for x by (intro plain_text_ok b64_plain)
  ultimately show ?thesis
    by (simp add: bundle_ok_def demo_bundle_def sig_ok_def demo_sig_def Let_def del: b64_encode.simps)
qed

lemma demo_verify:
  "mldsa_PublicKeyOk demo_prims ''P7''" "mldsa_Verify demo_prims ''P7'' m (CHR ''7'' # m)"
  "slh_PublicKeyOk demo_prims k" "slh_SignatureOk demo_prims k" "slh_Verify demo_prims ''S'' m (CHR ''S'' # m)"
  by (simp_all add: demo_prims_def)

lemma demo_bundle_signed: "verify_signatures demo_prims demo_bundle demo_authority = None"
proof -
  have "find (\<lambda>s. S_Alg s = SigAlg) (Signatures demo_bundle) = Some (demo_sig SigAlg ''7'')"
    "find (\<lambda>s. S_Alg s = SLHAlg) (Signatures demo_bundle) = Some (demo_sig SLHAlg ''S'')"
    by (simp_all add: demo_bundle_def demo_sig_def Let_def algs_differ)
  then have "verify_required demo_prims demo_bundle demo_authority SigAlg = None"
    "verify_required demo_prims demo_bundle demo_authority SLHAlg = None"
    by (simp_all add: verify_required_def demo_authority_def algs_differ demo_sig_def Let_def demo_bundle_def
        Verify_def VerifySLH_def demo_verify del: b64_encode.simps)
  moreover have "SignatureProfile demo_bundle = ProfileRoot" "map S_Alg (Signatures demo_bundle) = [SigAlg, SLHAlg]"
      "list_all (\<lambda>s. S_Alg s \<in> {SigAlg, SLHAlg}) (Signatures demo_bundle)" "map M_Alg (Keys demo_authority) = [SigAlg, SLHAlg]"
    by (simp_all add: demo_bundle_def demo_authority_def demo_sig_def Let_def del: b64_encode.simps)
  ultimately show ?thesis
    unfolding verify_signatures_def RequiredAlgorithms_def
    by (simp only: refl if_True option.case first_error.simps not_True_eq_False if_False list.set) (simp add: algs_differ)
qed

lemma demo_bundle_accepted: "VerifyPayload demo_prims demo_bundle_text demo_authority ''catalog'' [ProfileRoot] = Inr ''true''"
  using written_bundle [OF demo_bundle_ok, of "JBool True" demo_prims demo_authority "[ProfileRoot]"] demo_bundle_signed
  by (simp add: demo_bundle_text_def demo_bundle_def) (simp add: demo_prims_def)

theorem honest_bundle_accepted_witness:
  "VerifyPayload demo_prims demo_bundle_text demo_authority (ArtifactKind demo_bundle) [ProfileRoot] =
    (case verify_signatures demo_prims demo_bundle demo_authority of Some e \<Rightarrow> Inl e | None \<Rightarrow> Inr (E_Payload demo_bundle))"
  unfolding demo_bundle_text_def
  by (rule honest_bundle_accepted [OF demo_bundle_ok]) (simp_all add: demo_bundle_def, simp add: demo_prims_def)

theorem accepted_bundle_is_signed_witness:
  "\<exists>bundle canonical sig. Unmarshal_Envelope demo_bundle_text = Inr bundle \<and> CanonicalizeV1 (E_Payload bundle) = Inr canonical
    \<and> sig \<in> set (Signatures bundle) \<and> S_Alg sig = SLHAlg"
  using accepted_bundle_is_signed [OF demo_bundle_accepted, of SLHAlg] by auto

lemma demo_collision: "sha256 demo_prims ''0'' = sha256 demo_prims []"
  by (simp add: demo_prims_def numeral_eq_Suc)


end
