(* ===== verification/Witness_Head.thy ===== *)
theory Witness_Head
  imports Ledger_Chain Sigenvelope
begin

text \<open>
  The heads of the ledger: \<open>internal/witness/headverify.go\<close>, the receipt of \<open>protocol.go\<close> and the tail
  check of \<open>tail.go\<close>. A head is a \<open>system.witnessed\<close> record whose payload carries a witness's signed
  receipt for an earlier record. The verifier follows the receipts through the chain; the tail
  check holds a chain to the receipt kept beside it.
\<close>

subsection \<open>Receipts\<close>

definition HashPrefixSHA256 :: bytes where "HashPrefixSHA256 = ''sha256:''"
definition ZeroLedgerHash :: bytes where "ZeroLedgerHash = replicate 64 (CHR ''0'')"
definition ProfileFast :: bytes where "ProfileFast = ''AIII-PQ-SIGNATURE-V1-FAST''"

record WitnessSignatureEntry =
  WS_SignatureProfile :: bytes
  WS_Alg :: bytes
  WS_KeyID :: bytes
  WS_PublicKeyFingerprint :: bytes
  WS_SignatureInputSHA256 :: bytes
  WS_SigB64 :: bytes

record WitnessReceipt =
  R_IdentityID :: bytes
  R_PreviousOrdinal :: int
  R_PreviousHash :: bytes
  R_LedgerOrdinal :: int
  R_LedgerHash :: bytes
  R_WitnessedAt :: bytes
  R_WitnessSignature :: WitnessSignatureEntry

definition zero_signature :: WitnessSignatureEntry where
  "zero_signature = \<lparr>WS_SignatureProfile = [], WS_Alg = [], WS_KeyID = [], WS_PublicKeyFingerprint = [],
     WS_SignatureInputSHA256 = [], WS_SigB64 = []\<rparr>"

definition ReceiptSignatureInput :: "WitnessReceipt \<Rightarrow> bytes" where
  "ReceiptSignatureInput r = ''AIII-WITNESS-RECEIPT'' @ [NL] @ ''identity_id:'' @ R_IdentityID r @ [NL]
     @ ''previous_witnessed_ledger_ordinal:'' @ format_int (R_PreviousOrdinal r) @ [NL]
     @ ''previous_witnessed_ledger_hash:'' @ R_PreviousHash r @ [NL]
     @ ''ledger_ordinal:'' @ format_int (R_LedgerOrdinal r) @ [NL] @ ''ledger_hash:'' @ R_LedgerHash r @ [NL]
     @ ''witnessed_at:'' @ R_WitnessedAt r @ [NL]"

text \<open>The receipt as a head's payload carries it.\<close>

record headReceipt =
  H_IdentityID :: bytes
  H_PreviousOrdinal :: int
  H_PreviousHash :: bytes
  H_LedgerOrdinal :: int
  H_LedgerHash :: bytes
  H_WitnessedAt :: bytes
  H_WitnessKeyID :: bytes
  H_WitnessSigB64 :: bytes

definition zero_headReceipt :: headReceipt where
  "zero_headReceipt = \<lparr>H_IdentityID = [], H_PreviousOrdinal = 0, H_PreviousHash = [], H_LedgerOrdinal = 0, H_LedgerHash = [],
     H_WitnessedAt = [], H_WitnessKeyID = [], H_WitnessSigB64 = []\<rparr>"

definition fill_headReceipt :: "headReceipt \<Rightarrow> (bytes \<times> bytes) list \<Rightarrow> decode_err + headReceipt" where
  "fill_headReceipt r fs =
    sum_bind (scalar_field token_string (H_IdentityID r) ''identity_id'' fs) (\<lambda>i.
    sum_bind (scalar_field token_int (H_PreviousOrdinal r) ''previous_witnessed_ledger_ordinal'' fs) (\<lambda>po.
    sum_bind (scalar_field token_string (H_PreviousHash r) ''previous_witnessed_ledger_hash'' fs) (\<lambda>ph.
    sum_bind (scalar_field token_int (H_LedgerOrdinal r) ''ledger_ordinal'' fs) (\<lambda>lo.
    sum_bind (scalar_field token_string (H_LedgerHash r) ''ledger_hash'' fs) (\<lambda>lh.
    sum_bind (scalar_field token_string (H_WitnessedAt r) ''witnessed_at'' fs) (\<lambda>w.
    sum_bind (scalar_field token_string (H_WitnessKeyID r) ''witness_key_id'' fs) (\<lambda>k.
    sum_bind (scalar_field token_string (H_WitnessSigB64 r) ''witness_sig_b64'' fs) (\<lambda>s.
      Inr \<lparr>H_IdentityID = i, H_PreviousOrdinal = po, H_PreviousHash = ph, H_LedgerOrdinal = lo, H_LedgerHash = lh,
        H_WitnessedAt = w, H_WitnessKeyID = k, H_WitnessSigB64 = s\<rparr>))))))))"

definition decode_headReceipt :: "bytes \<Rightarrow> decode_err + headReceipt" where
  "decode_headReceipt = strict_struct [''identity_id'', ''previous_witnessed_ledger_ordinal'',
     ''previous_witnessed_ledger_hash'', ''ledger_ordinal'', ''ledger_hash'', ''witnessed_at'', ''witness_key_id'',
     ''witness_sig_b64''] fill_headReceipt zero_headReceipt"

subsection \<open>The head verifier\<close>

record WitnessKeyMaterial =
  W_KeyID :: bytes
  W_Fingerprint :: bytes
  W_PublicKey :: bytes
  W_NotBefore :: int
  W_ExpiresAt :: int
  W_envelope :: PublicKeyEnvelope

record HeadVerifier =
  keys :: "(bytes \<times> WitnessKeyMaterial) list"
  prevOrdinal :: int
  prevHash :: bytes
  identityID :: bytes
  verified :: nat
  unverified :: nat
  footnotes :: nat
  attestedOrdinal :: int
  attestedHash :: bytes

definition NewHeadVerifier :: "(bytes \<times> WitnessKeyMaterial) list \<Rightarrow> HeadVerifier" where
  "NewHeadVerifier ks = \<lparr>keys = ks, prevOrdinal = -1, prevHash = ZeroLedgerHash, identityID = [], verified = 0,
     unverified = 0, footnotes = 0, attestedOrdinal = -1, attestedHash = []\<rparr>"

definition Attested :: "HeadVerifier \<Rightarrow> (uint64 \<times> bytes) option" where
  "Attested h = (if attestedOrdinal h < 0 then None else Some (of_int (attestedOrdinal h), attestedHash h))"

definition Summary :: "HeadVerifier \<Rightarrow> bytes" where
  "Summary h =
    (let reach = (case Attested h of Some (seq, hash) \<Rightarrow>
           ''witnessed through record '' @ FormatUint seq @ '' ('' @ take 12 hash @ '')''
         | None \<Rightarrow> ''no record witnessed'');
         line = format_nat (verified h) @ '' witness heads verified under '' @ format_nat (length (keys h))
           @ '' persisted keys, '' @ reach @ ''; '' @ format_nat (unverified h) @ '' tail heads unverified'' in
     if 0 < footnotes h then line @ ''; '' @ format_nat (footnotes h)
       @ '' footnote heads accepted with no receipt (re-wrapped: they stand on the identity''
       @ [CHR 0x27] @ ''s proof alone)''
     else line)"

definition chainAt :: "HeadVerifier \<Rightarrow> uint64" where
  "chainAt h = (if prevOrdinal h < 0 then 0 else of_int (prevOrdinal h))"

datatype head_err = NotAHead | HeadPayload decode_err | NoReceipt | BadReceipt decode_err
  | NotTheRecordBefore | LateHeadCloses | OrdinalOutOfPlace | HashNotAtHand | OtherHash | OtherIdentity
  | DoesNotContinue | WitnessKeyUnknown | WitnessedAtUnparseable | BeforeKeyValid | AfterKeyExpired
  | OutsideEnvelope env_err | WitnessSignatureEncoding | WitnessSignatureInvalid crypto_err

record headPlace =
  pl_seq :: uint64
  pl_prev :: bytes
  pl_sealed :: bool
  pl_closing :: bool

text \<open>
  The record a receipt attests: the one before the head, or, for a late head, one after the record
  the previous head attested. An \<open>int64\<close> is the signed reading of its word.
\<close>

definition attests :: "headPlace \<Rightarrow> (uint64 \<Rightarrow> bytes option) \<Rightarrow> headReceipt \<Rightarrow> int \<Rightarrow> head_err option" where
  "attests place look r previous =
    (if 0 < pl_seq place \<and> H_LedgerOrdinal r = sint (pl_seq place - 1) then
       (if H_LedgerHash r \<noteq> pl_prev place then Some NotTheRecordBefore else None)
     else if pl_closing place then Some LateHeadCloses
     else if H_LedgerOrdinal r \<le> previous \<or> sint (pl_seq place) \<le> H_LedgerOrdinal r then Some OrdinalOutOfPlace
     else (case look (of_int (H_LedgerOrdinal r)) of None \<Rightarrow> Some HashNotAtHand
       | Some hash \<Rightarrow> if H_LedgerHash r \<noteq> hash then Some OtherHash else None))"

definition receipt_of_head :: "headReceipt \<Rightarrow> WitnessReceipt" where
  "receipt_of_head r = \<lparr>R_IdentityID = H_IdentityID r, R_PreviousOrdinal = H_PreviousOrdinal r,
     R_PreviousHash = H_PreviousHash r, R_LedgerOrdinal = H_LedgerOrdinal r, R_LedgerHash = H_LedgerHash r,
     R_WitnessedAt = H_WitnessedAt r, R_WitnessSignature = zero_signature\<rparr>"

text \<open>The receipt under its key: the key's windows at the time of witnessing, and the signature.\<close>

definition verify_under :: "'sk prims \<Rightarrow> WitnessKeyMaterial \<Rightarrow> headReceipt \<Rightarrow> head_err option" where
  "verify_under P km r =
    (case ParseRFC3339 (H_WitnessedAt r) of None \<Rightarrow> Some WitnessedAtUnparseable
     | Some at \<Rightarrow>
        if \<not> IsZero (W_NotBefore km) \<and> Before at (W_NotBefore km) then Some BeforeKeyValid
        else if \<not> Before at (W_ExpiresAt km) then Some AfterKeyExpired
        else (case ValidWindow (W_envelope km) at of Some e \<Rightarrow> Some (OutsideEnvelope e)
         | None \<Rightarrow> (case b64_decode (H_WitnessSigB64 r) of None \<Rightarrow> Some WitnessSignatureEncoding
           | Some sig \<Rightarrow> map_option WitnessSignatureInvalid
               (Verify P (W_PublicKey km) (ReceiptSignatureInput (receipt_of_head r)) sig))))"

definition verifyReceipt ::
  "'sk prims \<Rightarrow> headPlace \<Rightarrow> (uint64 \<Rightarrow> bytes option) \<Rightarrow> headReceipt \<Rightarrow> HeadVerifier \<Rightarrow> head_err option \<times> HeadVerifier" where
  "verifyReceipt P place look r h =
    (case attests place look r (prevOrdinal h) of Some e \<Rightarrow> (Some e, h)
     | None \<Rightarrow>
        if identityID h \<noteq> [] \<and> H_IdentityID r \<noteq> identityID h then (Some OtherIdentity, h)
        else let h1 = (if identityID h = [] then h\<lparr>identityID := H_IdentityID r\<rparr> else h) in
          if H_PreviousOrdinal r \<noteq> prevOrdinal h1 \<or> H_PreviousHash r \<noteq> prevHash h1 then (Some DoesNotContinue, h1)
          else let h2 = h1\<lparr>prevOrdinal := H_LedgerOrdinal r, prevHash := H_LedgerHash r\<rparr> in
            (case map_of (keys h2) (H_WitnessKeyID r) of
               None \<Rightarrow> (Some WitnessKeyUnknown, if pl_sealed place then h2 else h2\<lparr>unverified := unverified h2 + 1\<rparr>)
             | Some km \<Rightarrow> (case verify_under P km r of Some e \<Rightarrow> (Some e, h2)
                 | None \<Rightarrow> (None, h2\<lparr>verified := verified h2 + 1,
                     attestedOrdinal := H_LedgerOrdinal r, attestedHash := H_LedgerHash r\<rparr>))))"

text \<open>The payload of a head: its receipt, and the receipt it had before it was wrapped again.\<close>

definition fill_headPayload :: "bytes \<times> bytes \<Rightarrow> (bytes \<times> bytes) list \<Rightarrow> decode_err + bytes \<times> bytes" where
  "fill_headPayload old fs = Inr (raw_field ''receipt'' fs, raw_field ''receipt_before_rewrap'' fs)"

definition head_check ::
  "'sk prims \<Rightarrow> HeadVerifier \<Rightarrow> Event \<Rightarrow> (uint64 \<Rightarrow> bytes option) \<Rightarrow> head_err option \<times> HeadVerifier" where
  "head_check P h evt look =
    (if Type evt \<noteq> EventSystemWitnessed then (Some NotAHead, h)
     else (case Unmarshal_struct [''receipt'', ''receipt_before_rewrap''] fill_headPayload ([], []) (Payload evt) of
       Inl e \<Rightarrow> (Some (HeadPayload e), h)
     | Inr (receipt, beforeRewrap) \<Rightarrow>
        if receipt = [] then
          (if beforeRewrap \<noteq> [] then (None, h\<lparr>footnotes := footnotes h + 1\<rparr>) else (Some NoReceipt, h))
        else (case decode_headReceipt receipt of Inl e \<Rightarrow> (Some (BadReceipt e), h)
          | Inr r \<Rightarrow> verifyReceipt P \<lparr>pl_seq = Seq evt, pl_prev = Prev evt, pl_sealed = sealed evt, pl_closing = closing evt\<rparr>
              look r h)))"

text \<open>
  \<open>VerifyHead\<close> as the chain walk calls it. Of its errors the walk tells one from the others, the
  unknown key.
\<close>

definition head_ledger_err :: "head_err \<Rightarrow> ledger_err" where
  "head_ledger_err e = (if e = WitnessKeyUnknown then ErrWitnessKeyUnknown else HeadRefused)"

definition VerifyHead :: "'sk prims \<Rightarrow> HeadVerifier verify_head" where
  "VerifyHead P h evt look = (case head_check P h evt look of
     (err, h') \<Rightarrow> ((chainAt h', map_option head_ledger_err err), h'))"

subsection \<open>The witness tail beside the ledger\<close>

record LocalTail =
  T_LedgerOrdinal :: int
  T_LedgerHash :: bytes
  T_WitnessedAt :: bytes
  T_WitnessKeyFingerprint :: bytes

record TailRefusal =
  Truncation :: bool
  RTail :: LocalTail
  LastSeq :: uint64
  RObserved :: bytes

record TailCheck =
  tail :: LocalTail
  lastSeq :: uint64
  observed :: bytes
  held :: bool

definition NewTailCheck :: "LocalTail option \<Rightarrow> TailCheck option" where
  "NewTailCheck t = map_option (\<lambda>t. \<lparr>tail = t, lastSeq = 0, observed = [], held = False\<rparr>) t"

definition TailCheck_Visit :: "'sk prims \<Rightarrow> Event \<Rightarrow> TailCheck option \<Rightarrow> ledger_err option \<times> TailCheck option" where
  "TailCheck_Visit P evt c = (None, map_option (\<lambda>c. let c1 = c\<lparr>lastSeq := Seq evt\<rparr> in
     if sint (Seq evt) = T_LedgerOrdinal (tail c1) then c1\<lparr>observed := EntryHash P evt\<rparr> else c1) c)"

definition Held :: "TailCheck option \<Rightarrow> TailRefusal option \<times> TailCheck option" where
  "Held c = (case c of None \<Rightarrow> (None, None)
     | Some c \<Rightarrow>
        if sint (lastSeq c) < T_LedgerOrdinal (tail c)
        then (Some \<lparr>Truncation = True, RTail = tail c, LastSeq = lastSeq c, RObserved = []\<rparr>, Some c)
        else if observed c \<noteq> T_LedgerHash (tail c)
        then (Some \<lparr>Truncation = False, RTail = tail c, LastSeq = lastSeq c, RObserved = observed c\<rparr>, Some c)
        else (None, Some (c\<lparr>held := True\<rparr>)))"

subsection \<open>What a checked receipt says\<close>

definition sound_state :: "HeadVerifier \<Rightarrow> bool" where
  "sound_state h \<longleftrightarrow> -1 \<le> prevOrdinal h"

definition chain_at :: "HeadVerifier \<Rightarrow> nat" where
  "chain_at h = nat (prevOrdinal h)"

lemma chainAt_nat: "chainAt h = of_nat (chain_at h)"
proof (cases "prevOrdinal h < 0")
  case True
  then show ?thesis by (simp add: chainAt_def chain_at_def)
next
  case False
  then have "(of_int (prevOrdinal h) :: uint64) = of_int (int (chain_at h))" by (simp add: chain_at_def)
  then show ?thesis using False by (simp add: chainAt_def del: of_int_of_nat_eq) simp
qed

lemma sint_small: "unat (n :: uint64) < 2 ^ 63 \<Longrightarrow> sint n = int (unat n)"
proof -
  assume "unat n < 2 ^ 63"
  then have "int (unat n) < int (2 ^ 63)" by (simp only: of_nat_less_iff)
  then have "uint n < 2 ^ 63" by simp
  moreover have "- (2 ^ 63) \<le> uint n" by (rule order_trans [OF _ uint_ge_0]) simp
  ultimately have "sint n = uint n" unfolding sint_uint by (intro signed_take_bit_int_eq_self) simp_all
  then show ?thesis by simp
qed

lemma sint_pred:
  assumes "0 < (n :: uint64)" "unat n < 2 ^ 63"
  shows "sint (n - 1) = int (unat n) - 1"
proof -
  have "unat (n - 1) = unat n - 1" using assms(1) by (simp add: unat_minus_one word_gt_0)
  moreover have "0 < unat n" using assms(1) by (simp add: word_gt_0 unat_gt_0)
  ultimately show ?thesis using sint_small [of "n - 1"] assms(2) by simp
qed

text \<open>The verifier steps on in one case only: the receipt attests its record and continues the last one.\<close>

lemma verifyReceipt_cases:
  assumes "verifyReceipt P place look r h = (err, h')"
  obtains (refused) e where "err = Some e" "e \<noteq> WitnessKeyUnknown"
      "prevOrdinal h' = prevOrdinal h" "prevHash h' = prevHash h" "keys h' = keys h"
      "attestedOrdinal h' = attestedOrdinal h" "attestedHash h' = attestedHash h"
  | (stepped) "attests place look r (prevOrdinal h) = None" "identityID h = [] \<or> H_IdentityID r = identityID h"
      "H_PreviousOrdinal r = prevOrdinal h" "H_PreviousHash r = prevHash h" "identityID h' = H_IdentityID r"
      "prevOrdinal h' = H_LedgerOrdinal r" "prevHash h' = H_LedgerHash r" "keys h' = keys h"
      "err = (case map_of (keys h) (H_WitnessKeyID r) of None \<Rightarrow> Some WitnessKeyUnknown | Some km \<Rightarrow> verify_under P km r)"
      "attestedOrdinal h' = (if err = None then H_LedgerOrdinal r else attestedOrdinal h)"
      "attestedHash h' = (if err = None then H_LedgerHash r else attestedHash h)"
proof (cases "attests place look r (prevOrdinal h)")
  case (Some e)
  then have "e \<noteq> WitnessKeyUnknown" by (auto simp: attests_def split: if_splits option.splits)
  moreover have "err = Some e" "h' = h" using assms Some by (simp_all add: verifyReceipt_def)
  ultimately show ?thesis using refused by blast
next
  case None
  have u: "verify_under P km r \<noteq> Some WitnessKeyUnknown" for km
    by (auto simp: verify_under_def split: option.splits if_splits)
  show ?thesis
  proof (cases "(identityID h \<noteq> [] \<and> H_IdentityID r \<noteq> identityID h) \<or> H_PreviousOrdinal r \<noteq> prevOrdinal h \<or> H_PreviousHash r \<noteq> prevHash h")
    case True
    then have "\<exists>e. err = Some e \<and> e \<noteq> WitnessKeyUnknown \<and> prevOrdinal h' = prevOrdinal h \<and> prevHash h' = prevHash h
        \<and> keys h' = keys h \<and> attestedOrdinal h' = attestedOrdinal h \<and> attestedHash h' = attestedHash h"
      using assms None by (auto simp: verifyReceipt_def Let_def split: if_splits)
    then show ?thesis using refused by blast
  next
    case False
    define h2 where "h2 = h\<lparr>identityID := H_IdentityID r, prevOrdinal := H_LedgerOrdinal r, prevHash := H_LedgerHash r\<rparr>"
    have i: "(if identityID h = [] then h\<lparr>identityID := H_IdentityID r\<rparr> else h) = h\<lparr>identityID := H_IdentityID r\<rparr>"
      using False by auto
    have v: "verifyReceipt P place look r h = (case map_of (keys h) (H_WitnessKeyID r) of
        None \<Rightarrow> (Some WitnessKeyUnknown, if pl_sealed place then h2 else h2\<lparr>unverified := unverified h + 1\<rparr>)
      | Some km \<Rightarrow> (case verify_under P km r of Some e \<Rightarrow> (Some e, h2)
          | None \<Rightarrow> (None, h2\<lparr>verified := verified h + 1, attestedOrdinal := H_LedgerOrdinal r, attestedHash := H_LedgerHash r\<rparr>)))"
    proof -
      have "\<not> (identityID h \<noteq> [] \<and> H_IdentityID r \<noteq> identityID h)" "H_PreviousOrdinal r = prevOrdinal h" "H_PreviousHash r = prevHash h"
        using False by auto
      then show ?thesis unfolding verifyReceipt_def i by (simp only: None option.case if_False Let_def) (simp add: h2_def split: option.split)
    qed
    have "prevOrdinal h' = H_LedgerOrdinal r \<and> prevHash h' = H_LedgerHash r \<and> keys h' = keys h \<and> identityID h' = H_IdentityID r
        \<and> err = (case map_of (keys h) (H_WitnessKeyID r) of None \<Rightarrow> Some WitnessKeyUnknown | Some km \<Rightarrow> verify_under P km r)
        \<and> attestedOrdinal h' = (if err = None then H_LedgerOrdinal r else attestedOrdinal h)
        \<and> attestedHash h' = (if err = None then H_LedgerHash r else attestedHash h)"
      using assms unfolding v by (auto simp: h2_def split: option.splits if_splits)
    then show ?thesis using stepped None False by blast
  qed
qed

lemma head_check_cases:
  assumes "head_check P h evt look = (err, h')"
  obtains (refused) e where "err = Some e" "e \<noteq> WitnessKeyUnknown"
      "prevOrdinal h' = prevOrdinal h" "prevHash h' = prevHash h" "keys h' = keys h"
      "attestedOrdinal h' = attestedOrdinal h" "attestedHash h' = attestedHash h"
  | (footnote) "err = None" "h' = h\<lparr>footnotes := footnotes h + 1\<rparr>"
  | (receipt) r where "verifyReceipt P \<lparr>pl_seq = Seq evt, pl_prev = Prev evt, pl_sealed = sealed evt, pl_closing = closing evt\<rparr>
      look r h = (err, h')"
  using assms by (auto simp: head_check_def split: if_splits sum.splits prod.splits)

text \<open>Where the attested record lies.\<close>

lemma attests_None:
  assumes "attests place look r p = None" "-1 \<le> p" "unat (pl_seq place) < 2 ^ 63" "nat p < unat (pl_seq place)"
  obtains n where "H_LedgerOrdinal r = int n" "n < unat (pl_seq place)" "nat p \<le> n"
    "H_LedgerHash r = pl_prev place \<and> n = unat (pl_seq place) - 1
      \<or> look (of_nat n) = Some (H_LedgerHash r) \<and> (n = 0 \<or> nat p < n)"
proof (cases "0 < pl_seq place \<and> H_LedgerOrdinal r = sint (pl_seq place - 1)")
  case True
  then have "H_LedgerOrdinal r = int (unat (pl_seq place) - 1)" using sint_pred assms(3,4) by simp
  moreover have "H_LedgerHash r = pl_prev place" using True assms(1) by (simp add: attests_def split: if_splits)
  moreover have "unat (pl_seq place) - 1 < unat (pl_seq place)" "nat p \<le> unat (pl_seq place) - 1" using assms(4) by linarith+
  ultimately show ?thesis using that by blast
next
  case False
  then have a: "p < H_LedgerOrdinal r" "H_LedgerOrdinal r < sint (pl_seq place)"
      "look (of_int (H_LedgerOrdinal r)) = Some (H_LedgerHash r)"
    using assms(1) by (auto simp: attests_def split: if_splits option.splits)
  define n where "n = nat (H_LedgerOrdinal r)"
  have n: "H_LedgerOrdinal r = int n" using a(1) assms(2) by (simp add: n_def)
  have "n = 0 \<or> nat p < n" "nat p \<le> n" using a(1) n by arith+
  then show ?thesis using that [of n] n a sint_small [OF assms(3)] by auto
qed

lemma attests_cong:
  assumes "-1 \<le> p" "unat (pl_seq place) < 2 ^ 63" "look 0 = look' 0"
    "\<And>s. nat p < s \<Longrightarrow> s < unat (pl_seq place) \<Longrightarrow> look (of_nat s) = look' (of_nat s)"
  shows "attests place look r p = attests place look' r p"
proof (cases "p < H_LedgerOrdinal r \<and> H_LedgerOrdinal r < sint (pl_seq place)")
  case True
  define n where "n = nat (H_LedgerOrdinal r)"
  have n: "H_LedgerOrdinal r = int n" using True assms(1) by (simp add: n_def)
  have "look (of_nat n) = look' (of_nat n)"
    using assms(3) assms(4) [of n] True n sint_small [OF assms(2)] by (cases "n = 0") auto
  then show ?thesis by (simp add: attests_def n)
next
  case False
  then show ?thesis by (auto simp: attests_def)
qed

lemma head_check_cong:
  assumes "sound_state h" "unat (Seq e) < 2 ^ 63" "look 0 = look' 0"
    "\<And>s. chain_at h < s \<Longrightarrow> s < unat (Seq e) \<Longrightarrow> look (of_nat s) = look' (of_nat s)"
  shows "head_check P h e look = head_check P h e look'"
proof -
  have "attests \<lparr>pl_seq = Seq e, pl_prev = Prev e, pl_sealed = sealed e, pl_closing = closing e\<rparr> look r (prevOrdinal h)
    = attests \<lparr>pl_seq = Seq e, pl_prev = Prev e, pl_sealed = sealed e, pl_closing = closing e\<rparr> look' r (prevOrdinal h)" for r
    using assms by (intro attests_cong) (simp_all add: sound_state_def chain_at_def)
  then show ?thesis by (simp add: head_check_def verifyReceipt_def split: sum.split prod.split)
qed

lemma head_check_advances:
  assumes "head_check P h e look = (err, h')" "sound_state h" "err = None \<or> err = Some WitnessKeyUnknown"
    "chain_at h < unat (Seq e)" "unat (Seq e) < 2 ^ 63"
  shows "sound_state h' \<and> chain_at h \<le> chain_at h' \<and> chain_at h' < unat (Seq e)"
  using assms(1)
proof (cases rule: head_check_cases)
  case (receipt r)
  then show ?thesis
  proof (cases rule: verifyReceipt_cases)
    case stepped
    obtain n where "H_LedgerOrdinal r = int n" "n < unat (Seq e)" "chain_at h \<le> n"
      using attests_None [OF stepped(1)] assms by (auto simp: sound_state_def chain_at_def)
    then show ?thesis using stepped(6) by (simp add: sound_state_def chain_at_def)
  qed (use assms in auto)
qed (use assms in \<open>auto simp: sound_state_def chain_at_def\<close>)

interpretation witness_head: head_verifier "VerifyHead P" chain_at sound_state
proof unfold_locales
  fix h and e :: Event and look a err h'
  assume "VerifyHead P h e look = ((a, err), h')"
  then show "a = of_nat (chain_at h')" by (auto simp: VerifyHead_def chainAt_nat split: prod.splits)
next
  fix h and e :: Event and look look' :: "uint64 \<Rightarrow> bytes option"
  assume "sound_state h" "\<And>s. chain_at h < s \<Longrightarrow> s < unat (Seq e) \<Longrightarrow> look (of_nat s) = look' (of_nat s)"
    "look 0 = look' 0" "chain_at h < unat (Seq e)" "unat (Seq e) < 2 ^ 63"
  then show "VerifyHead P h e look = VerifyHead P h e look'"
    using head_check_cong [of h e look look' P] by (simp add: VerifyHead_def)
next
  fix h and e :: Event and look a err h'
  assume a: "sound_state h" "VerifyHead P h e look = ((a, err), h')" "err = None \<or> err = Some ErrWitnessKeyUnknown"
    "chain_at h < unat (Seq e)" "unat (Seq e) < 2 ^ 63"
  obtain x where x: "head_check P h e look = (x, h')" "err = map_option head_ledger_err x"
    using a(2) by (auto simp: VerifyHead_def split: prod.splits)
  have "x = None \<or> x = Some WitnessKeyUnknown" using a(3) x(2) by (cases x) (auto simp: head_ledger_err_def split: if_splits)
  from head_check_advances [OF x(1) a(1) this a(4,5)]
  show "sound_state h' \<and> chain_at h \<le> chain_at h' \<and> chain_at h' < unat (Seq e)" .
qed

subsection \<open>The record the verifier reports as witnessed\<close>

definition carries :: "Event \<Rightarrow> headReceipt \<Rightarrow> bool" where
  "carries e r \<longleftrightarrow> Type e = EventSystemWitnessed \<and> (\<exists>raw old. decode_headReceipt raw = Inr r
     \<and> Unmarshal_struct [''receipt'', ''receipt_before_rewrap''] fill_headPayload ([], []) (Payload e) = Inr (raw, old))"

text \<open>\<open>n\<close> is a record of \<open>xs\<close>, and a receipt in \<open>xs\<close> that verifies under a known key attests it.\<close>

definition witnessed_at :: "'sk prims \<Rightarrow> (bytes \<times> WitnessKeyMaterial) list \<Rightarrow> Event list \<Rightarrow> nat \<Rightarrow> bytes \<Rightarrow> bool" where
  "witnessed_at P ks xs n hash \<longleftrightarrow> n \<le> length xs \<and> hash = chain_hash P [] (take n xs)
     \<and> (\<exists>e \<in> set xs. \<exists>r km. carries e r \<and> map_of ks (H_WitnessKeyID r) = Some km \<and> verify_under P km r = None
          \<and> H_LedgerOrdinal r = int n \<and> H_LedgerHash r = hash)"

definition heads_ok :: "'sk prims \<Rightarrow> (bytes \<times> WitnessKeyMaterial) list \<Rightarrow> (HeadVerifier, 'v) walk \<Rightarrow> Event list \<Rightarrow> bool" where
  "heads_ok P ks st xs \<longleftrightarrow> (\<exists>h. heads st = Some h \<and> sound_state h \<and> keys h = ks
     \<and> window (since st) (chain_at h) (map (entrySum P) xs)
     \<and> expectedSeq st = of_nat (length xs) \<and> expectedPrev st = chain_hash P [] xs
     \<and> (attestedOrdinal h < 0 \<or> (\<exists>n. attestedOrdinal h = int n \<and> witnessed_at P ks xs n (attestedHash h))))"

lemma witnessed_at_mono: "witnessed_at P ks xs n hash \<Longrightarrow> witnessed_at P ks (xs @ ys) n hash"
  by (auto simp: witnessed_at_def)

lemma chain_hash_take: "0 < n \<Longrightarrow> n \<le> length xs \<Longrightarrow> chain_hash P [] (take n xs) = hex_encode (map (entrySum P) xs ! (n - 1))"
  by (auto simp: chain_hash_def EntryHash_def last_conv_nth min_absorb2)

lemma head_check_receipt:
  assumes "head_check P h evt look = (err, h')" "attestedOrdinal h' \<noteq> attestedOrdinal h \<or> attestedHash h' \<noteq> attestedHash h"
  obtains r km where "carries evt r" "map_of (keys h) (H_WitnessKeyID r) = Some km" "verify_under P km r = None"
    "attests \<lparr>pl_seq = Seq evt, pl_prev = Prev evt, pl_sealed = sealed evt, pl_closing = closing evt\<rparr> look r (prevOrdinal h) = None"
    "attestedOrdinal h' = H_LedgerOrdinal r" "attestedHash h' = H_LedgerHash r"
proof -
  obtain raw old r where r: "Type evt = EventSystemWitnessed" "decode_headReceipt raw = Inr r"
      "Unmarshal_struct [''receipt'', ''receipt_before_rewrap''] fill_headPayload ([], []) (Payload evt) = Inr (raw, old)"
      and v: "verifyReceipt P \<lparr>pl_seq = Seq evt, pl_prev = Prev evt, pl_sealed = sealed evt, pl_closing = closing evt\<rparr> look r h = (err, h')"
    using assms by (auto simp: head_check_def split: if_splits sum.splits prod.splits)
  have c: "carries evt r" using r by (auto simp: carries_def)
  from v show ?thesis
  proof (cases rule: verifyReceipt_cases)
    case stepped
    then have n: "err = None" using assms(2) by (auto split: if_splits)
    then obtain km where "map_of (keys h) (H_WitnessKeyID r) = Some km" "verify_under P km r = None"
      using stepped(9) by (auto split: option.splits)
    then show ?thesis using that c stepped n by simp
  qed (use assms(2) in simp)
qed

lemma head_check_keys: "head_check P h evt look = (err, h') \<Longrightarrow> keys h' = keys h"
  by (erule head_check_cases) (auto elim!: verifyReceipt_cases)

lemma attested_in_chain:
  assumes "head_check P h e look = (err, h')" "sound_state h" "window w (chain_at h) (map (entrySum P) xs)" "look = hashAt w"
    "Seq e = of_nat (length xs) + 1" "Prev e = chain_hash P [] xs" "length xs + 1 < 2 ^ 63"
    "attestedOrdinal h < 0 \<or> (\<exists>n. attestedOrdinal h = int n \<and> witnessed_at P (keys h) xs n (attestedHash h))"
  shows "attestedOrdinal h' < 0 \<or> (\<exists>n. attestedOrdinal h' = int n \<and> witnessed_at P (keys h) (xs @ [e]) n (attestedHash h'))"
proof (cases "attestedOrdinal h' \<noteq> attestedOrdinal h \<or> attestedHash h' \<noteq> attestedHash h")
  case False
  then show ?thesis using assms(8) witnessed_at_mono by fastforce
next
  case True
  let ?place = "\<lparr>pl_seq = Seq e, pl_prev = Prev e, pl_sealed = sealed e, pl_closing = closing e\<rparr>"
  obtain r km where r: "carries e r" "map_of (keys h) (H_WitnessKeyID r) = Some km" "verify_under P km r = None"
      "attests ?place look r (prevOrdinal h) = None" "attestedOrdinal h' = H_LedgerOrdinal r" "attestedHash h' = H_LedgerHash r"
    by (rule head_check_receipt [OF assms(1) True])
  have u: "unat (Seq e) = length xs + 1" using assms(5,7) unat_u64 [of "length xs + 1"] by (simp add: add.commute)
  obtain n where n: "H_LedgerOrdinal r = int n" "n < length xs + 1"
      "H_LedgerHash r = Prev e \<and> n = length xs \<or> look (of_nat n) = Some (H_LedgerHash r) \<and> (n = 0 \<or> chain_at h < n)"
    using attests_None [OF r(4)] assms(2,3,7) u by (auto simp: sound_state_def chain_at_def window_def)
  have "H_LedgerHash r = chain_hash P [] (take n xs)"
    using n(3)
  proof
    assume l: "look (of_nat n) = Some (H_LedgerHash r) \<and> (n = 0 \<or> chain_at h < n)"
    then have pos: "0 < n" "chain_at h < n" using hashAt_zero [OF assms(3)] assms(4,7) by auto
    then show ?thesis
      using l hashAt_window [OF assms(3) pos(2)] assms(4,7) n(2) chain_hash_take [of n xs P] by simp
  qed (use assms(6) in simp)
  then have "witnessed_at P (keys h) (xs @ [e]) n (attestedHash h')"
    using n(1,2) r unfolding witnessed_at_def by (intro conjI bexI [of _ e] exI [of _ r] exI [of _ km]) auto
  then show ?thesis using r(5) n(1) by auto
qed

lemma heads_ok_step:
  assumes "heads_ok P ks st xs" "walk_step P k (VerifyHead P) visit st e = (None, st')" "length xs + 1 < 2 ^ 63"
  shows "heads_ok P ks st' (xs @ [e])"
proof -
  obtain h where h: "heads st = Some h" "sound_state h" "keys h = ks" "window (since st) (chain_at h) (map (entrySum P) xs)"
      "expectedSeq st = of_nat (length xs)" "expectedPrev st = chain_hash P [] xs"
      "attestedOrdinal h < 0 \<or> (\<exists>n. attestedOrdinal h = int n \<and> witnessed_at P ks xs n (attestedHash h))"
    using assms(1) by (auto simp: heads_ok_def)
  obtain st3 st4 v where w: "Seq e = expectedSeq st + 1" "Prev e = expectedPrev st" "check_head (VerifyHead P) st3 e = (None, st4)"
      and st3: "st3 = st\<lparr>expectedSeq := expectedSeq st + 1, traversed := \<lparr>B_Seq = Seq e, B_Hash = EntryHash P e\<rparr>,
       proved := (if Sig e \<noteq> [] then \<lparr>B_Seq = Seq e, B_Hash = EntryHash P e\<rparr> else proved st)\<rparr>"
      and st': "st' = st4\<lparr>visitor := v, since := (if heads st4 = None then since st4 else keep (since st4) (Seq e) (entrySum P e)),
       expectedPrev := EntryHash P e, counted := counted st4 + 1\<rparr>"
    using assms(2) by (rule walk_step_NoneE) blast
  have seq: "Seq e = of_nat (length xs) + 1" using w(1) h(5) by simp
  have u: "unat (Seq e) = length xs + 1" using seq assms(3) unat_u64 [of "length xs + 1"] by (simp add: add.commute)
  have lt: "chain_at h < unat (Seq e)" using h(4) u by (simp add: window_def)
  have "\<exists>h'. heads st4 = Some h' \<and> sound_state h' \<and> keys h' = ks \<and> window (since st4) (chain_at h') (map (entrySum P) xs)
     \<and> (attestedOrdinal h' < 0 \<or> (\<exists>n. attestedOrdinal h' = int n \<and> witnessed_at P ks (xs @ [e]) n (attestedHash h')))"
  proof (cases "Type e = EventSystemWitnessed")
    case False
    then have "st4 = st3" using w(3) h(1) st3 by (simp add: check_head_def)
    then show ?thesis using h st3 witnessed_at_mono by fastforce
  next
    case True
    obtain x h' where c: "head_check P h e (hashAt (since st)) = (x, h')" by fastforce
    have v: "VerifyHead P h e (hashAt (since st)) = ((of_nat (chain_at h'), map_option head_ledger_err x), h')"
      by (simp add: VerifyHead_def c chainAt_nat)
    have x: "(x = None \<or> x = Some WitnessKeyUnknown) \<and> st4 = st3\<lparr>heads := Some h', since := forget (since st) (of_nat (chain_at h'))\<rparr>"
      using w(3) True h(1) v st3 by (cases x) (auto simp: check_head_def head_ledger_err_def split: if_splits)
    have a: "sound_state h'" "chain_at h \<le> chain_at h'" "chain_at h' < unat (Seq e)"
      using head_check_advances [OF c h(2) _ lt] x u assms(3) by auto
    have "window (forget (since st) (of_nat (chain_at h'))) (chain_at h') (map (entrySum P) xs)"
      using window_forget [OF h(4) a(2)] a(3) u assms(3) by simp
    moreover have "attestedOrdinal h' < 0 \<or> (\<exists>n. attestedOrdinal h' = int n \<and> witnessed_at P ks (xs @ [e]) n (attestedHash h'))"
      using attested_in_chain [OF c h(2,4) refl seq _ assms(3)] w(2) h(3,6,7) by simp
    ultimately show ?thesis using x a(1) head_check_keys [OF c] h(3) by auto
  qed
  then obtain h' where h': "heads st4 = Some h'" "sound_state h'" "keys h' = ks" "window (since st4) (chain_at h') (map (entrySum P) xs)"
     "attestedOrdinal h' < 0 \<or> (\<exists>n. attestedOrdinal h' = int n \<and> witnessed_at P ks (xs @ [e]) n (attestedHash h'))"
    by blast
  have "window (keep (since st4) (Seq e) (entrySum P e)) (chain_at h') (map (entrySum P) (xs @ [e]))"
    using window_keep [OF h'(4) refl, of "entrySum P e"] seq by simp
  moreover have "expectedSeq st4 = of_nat (length xs) + 1" using check_head_keeps(2) [OF w(3)] st3 h(5) by simp
  ultimately show ?thesis using h' st' by (auto simp: heads_ok_def)
qed

lemma heads_ok_events:
  assumes "heads_ok P ks st xs" "walk_events P k (VerifyHead P) visit st evs = (None, st')" "length xs + length evs < 2 ^ 63"
  shows "heads_ok P ks st' (xs @ evs)"
  using assms
proof (induction evs arbitrary: st xs)
  case (Cons e es)
  obtain t where t: "walk_step P k (VerifyHead P) visit st e = (None, t)" "walk_events P k (VerifyHead P) visit t es = (None, st')"
    using Cons.prems(2) by (auto split: prod.splits option.splits)
  have "heads_ok P ks t (xs @ [e])" using heads_ok_step [OF Cons.prems(1) t(1)] Cons.prems(3) by simp
  from Cons.IH [OF this t(2)] show ?case using Cons.prems(3) by simp
qed simp

lemma heads_ok_start: "heads_ok P ks (walk_start (Some (NewHeadVerifier ks)) v) []"
  using window_empty by (auto simp: heads_ok_def walk_start_def NewHeadVerifier_def sound_state_def chain_at_def)

subsection \<open>Visitors that never stop\<close>

lemma walk_never_stops:
  assumes "\<And>e v. fst (f e v) = None"
  shows "fst (walk_step P k VH (Some f) st e) \<noteq> Some (VisitStopped x)"
    "fst (walk_events P k VH (Some f) st evs) \<noteq> Some (VisitStopped x)"
proof -
  have p: "f e v = (None, snd (f e v))" for e v using assms [of e v] by (metis prod.collapse)
  show s: "fst (walk_step P k VH (Some f) st e) \<noteq> Some (VisitStopped x)" for st e
  proof -
    have 1: "check_links P t e \<noteq> Some (VisitStopped x)" "check_proof P k t e \<noteq> Inl (VisitStopped x)"
      "fst (check_head VH t e) \<noteq> Some (VisitStopped x)" for t
      by (auto simp: check_links_def check_proof_def check_head_def refuse_def split: if_splits option.splits prod.splits)
    let ?t1 = "st\<lparr>expectedSeq := expectedSeq st + 1\<rparr>"
    let ?t2 = "?t1\<lparr>traversed := \<lparr>B_Seq = Seq e, B_Hash = hex_encode (entrySum P e)\<rparr>\<rparr>"
    show ?thesis
    proof (cases "check_links P ?t1 e")
      case (Some s)
      then show ?thesis using 1(1) [of ?t1] by (simp add: walk_step_def)
    next
      case None
      show ?thesis
      proof (cases "check_proof P k ?t2 e")
        case (Inl s)
        then show ?thesis using None 1(2) [of ?t2] by (simp add: walk_step_def Let_def)
      next
        case (Inr t3)
        obtain q t4 where h: "check_head VH t3 e = (q, t4)" by fastforce
        obtain u where u: "f e (visitor t4) = (None, u)" using p by blast
        show ?thesis using h None Inr 1(3) [of t3] by (cases q) (simp_all add: walk_step_def Let_def u)
      qed
    qed
  qed
  show "fst (walk_events P k VH (Some f) st evs) \<noteq> Some (VisitStopped x)"
  proof (induction evs arbitrary: st)
    case (Cons e es)
    then show ?case using s [of st e] by (auto split: prod.splits option.splits)
  qed simp
qed

lemma walk_visitor:
  assumes "walk_events P k VH (Some f) st evs = (None, st')"
  shows "visitor st' = fold (\<lambda>e v. snd (f e v)) evs (visitor st)"
  using assms
proof (induction evs arbitrary: st)
  case (Cons e es)
  obtain t where t: "walk_step P k VH (Some f) st e = (None, t)" "walk_events P k VH (Some f) t es = (None, st')"
    using Cons.prems by (auto split: prod.splits option.splits)
  have "visitor t = snd (f e (visitor st))"
    using t(1) by (rule walk_step_NoneE) (auto dest!: check_head_keeps(7))
  then show ?case using Cons.IH [OF t(2)] by simp
qed simp

lemma accepted_walk:
  assumes "verifyChain P k VH h (Some f) v (evs, None) = (Inr n, st)" "\<And>e v. fst (f e v) = None"
  shows "walk_events P k VH (Some f) (walk_start h v) evs = (None, st)" "n = length evs" "linked P [] 0 evs"
proof -
  obtain r s where w: "walk_events P k VH (Some f) (walk_start h v) evs = (r, s)" by fastforce
  have "r \<noteq> Some (VisitStopped x)" for x using walk_never_stops(2) [of f P k VH "walk_start h v" evs x] assms(2) w by simp
  then have "r = None \<and> s = st \<and> n = counted st"
    using assms(1) w by (auto simp: verifyChain_def split: option.splits stop.splits if_splits)
  then show w': "walk_events P k VH (Some f) (walk_start h v) evs = (None, st)" and "n = length evs" "linked P [] 0 evs"
    using w walk_events_None [of P k VH "Some f" "walk_start h v" evs st] by (auto simp: walk_start_def)
qed

subsection \<open>The tail check over an accepted chain\<close>

lemma TailCheck_never_stops: "fst (TailCheck_Visit P e c) = None"
  by (simp add: TailCheck_Visit_def)

definition tail_seen :: "'sk prims \<Rightarrow> LocalTail \<Rightarrow> Event list \<Rightarrow> TailCheck" where
  "tail_seen P t xs = \<lparr>tail = t, lastSeq = of_nat (length xs),
     observed = (if 1 \<le> T_LedgerOrdinal t \<and> T_LedgerOrdinal t \<le> int (length xs)
       then EntryHash P (xs ! (nat (T_LedgerOrdinal t) - 1)) else []), held = False\<rparr>"

lemma tail_seen_step:
  assumes "Seq e = of_nat (length xs + 1)" "length xs + 1 < 2 ^ 63"
  shows "snd (TailCheck_Visit P e (Some (tail_seen P t xs))) = Some (tail_seen P t (xs @ [e]))"
proof -
  have u: "unat (Seq e) = length xs + 1" using assms unat_u64 [of "length xs + 1"] by simp
  have s: "sint (Seq e) = int (length xs + 1)" using sint_small [of "Seq e"] u assms(2) by simp
  consider "T_LedgerOrdinal t = int (length xs + 1)" | "T_LedgerOrdinal t \<le> int (length xs)" | "T_LedgerOrdinal t > int (length xs + 1)"
    by linarith
  then show ?thesis
  proof cases
    case 1
    then have "nat (T_LedgerOrdinal t) - 1 = length xs" by simp
    then show ?thesis using 1 s assms(1) by (simp add: TailCheck_Visit_def tail_seen_def Let_def)
  next
    case 2
    then have "nat (T_LedgerOrdinal t) - 1 < length xs" if "1 \<le> T_LedgerOrdinal t" using that by linarith
    then show ?thesis using 2 s assms(1) by (auto simp: TailCheck_Visit_def tail_seen_def Let_def nth_append)
  next
    case 3
    then show ?thesis using s assms(1) by (simp add: TailCheck_Visit_def tail_seen_def Let_def)
  qed
qed

lemma tail_seen_fold:
  assumes "linked P prev (of_nat (length xs)) evs" "length xs + length evs < 2 ^ 63"
  shows "fold (\<lambda>e v. snd (TailCheck_Visit P e v)) evs (Some (tail_seen P t xs)) = Some (tail_seen P t (xs @ evs))"
  using assms
proof (induction evs arbitrary: xs prev)
  case (Cons e es)
  have "Seq e = of_nat (length xs + 1)" "linked P (EntryHash P e) (of_nat (length (xs @ [e]))) es"
    using Cons.prems(1) by (simp_all add: add.commute)
  then show ?case using Cons.IH [of "EntryHash P e" "xs @ [e]"] tail_seen_step [of e xs P t] Cons.prems(2) by simp
qed simp

lemma tail_after_walk:
  assumes "verifyChain P k VH h (Some (TailCheck_Visit P)) (NewTailCheck (Some t)) (evs, None) = (Inr n, st)" "length evs < 2 ^ 63"
  shows "visitor st = Some (tail_seen P t evs)" "linked P [] 0 evs"
proof -
  note a = accepted_walk [OF assms(1) TailCheck_never_stops]
  have "NewTailCheck (Some t) = Some (tail_seen P t [])" by (auto simp: NewTailCheck_def tail_seen_def)
  then show "visitor st = Some (tail_seen P t evs)"
    using walk_visitor [OF a(1)] tail_seen_fold [of P "[]" "[]" evs t] a(3) assms(2) by (simp add: walk_start_def)
  show "linked P [] 0 evs" by (rule a(3))
qed

lemma Held_tail_seen:
  assumes "1 \<le> T_LedgerOrdinal t" "length evs < 2 ^ 63"
  shows "fst (Held (Some (tail_seen P t evs))) =
    (if int (length evs) < T_LedgerOrdinal t
     then Some \<lparr>Truncation = True, RTail = t, LastSeq = of_nat (length evs), RObserved = []\<rparr>
     else let hash = EntryHash P (evs ! (nat (T_LedgerOrdinal t) - 1)) in
       if hash \<noteq> T_LedgerHash t then Some \<lparr>Truncation = False, RTail = t, LastSeq = of_nat (length evs), RObserved = hash\<rparr>
       else None)"
proof -
  have u: "unat (of_nat (length evs) :: uint64) = length evs" using assms(2) by (intro unat_u64) simp
  have "sint (of_nat (length evs) :: uint64) = int (length evs)" using sint_small [of "of_nat (length evs)"] u assms(2) by simp
  then show ?thesis using assms by (simp add: Held_def tail_seen_def Let_def)
qed

subsection \<open>Properties\<close>


text \<open>
  C7. The witness's word is about this chain: when a chain is accepted under the persisted witness
  keys, the record and hash the verifier reports as witnessed are a record of that chain and its
  entry hash, and the chain carries a head whose receipt for exactly that record verifies under one
  of the keys.
\<close>

theorem witnessed_record_stands:
  assumes "verifyChain P k (VerifyHead P) (Some (NewHeadVerifier ks)) (Some f) v (evs, None) = (Inr n, st)"
    and "\<And>e v. fst (f e v) = None" "length evs < 2 ^ 63" "heads st = Some h" "Attested h = Some (seq, hash)"
  shows "witnessed_at P ks evs (unat seq) hash"
proof -
  note a = accepted_walk [OF assms(1,2)]
  have "heads_ok P ks st evs" using heads_ok_events [OF heads_ok_start a(1)] assms(3) by simp
  then obtain m where m: "attestedOrdinal h = int m" "witnessed_at P ks evs m (attestedHash h)"
    using assms(4,5) by (auto simp: heads_ok_def Attested_def split: if_splits)
  moreover have "m < 2 ^ 63" using m(2) assms(3) by (simp add: witnessed_at_def)
  ultimately show ?thesis using assms(5) unat_u64 [of m] by (auto simp: Attested_def split: if_splits)
qed

text \<open>
  C12. The walk may forget: dropping the hashes of records already attested changes no verdict. The
  chain walk with the real head verifier answers, record for record and error for error, as it
  would if it kept every hash from the first record on.
\<close>

theorem forgetting_changes_no_verdict:
  assumes "length evs < 2 ^ 63"
  shows "fst (verifyChain P k (VerifyHead P) (Some (NewHeadVerifier ks)) visit v (evs, e))
    = fst (verifyChain P k (keep_all (VerifyHead P)) (Some (NewHeadVerifier ks)) visit v (evs, e))"
  using assms
  by (intro witness_head.forgetting_is_safe) (simp_all add: NewHeadVerifier_def chain_at_def sound_state_def)

text \<open>
  C18. Truncation and forks are told apart and neither is missed: over an accepted chain, the check
  against the tail kept beside the ledger refuses a truncation exactly when the chain ends before
  the attested record, refuses a fork exactly when that record has another hash, and holds
  otherwise.
\<close>

theorem tail_check_decides:
  assumes "verifyChain P k VH h (Some (TailCheck_Visit P)) (NewTailCheck (Some t)) (evs, None) = (Inr n, st)"
    and "length evs < 2 ^ 63" "1 \<le> T_LedgerOrdinal t"
  shows "fst (Held (visitor st)) =
    (if int n < T_LedgerOrdinal t
     then Some \<lparr>Truncation = True, RTail = t, LastSeq = of_nat n, RObserved = []\<rparr>
     else let hash = EntryHash P (evs ! (nat (T_LedgerOrdinal t) - 1)) in
       if hash \<noteq> T_LedgerHash t then Some \<lparr>Truncation = False, RTail = t, LastSeq = of_nat n, RObserved = hash\<rparr>
       else None)"
  unfolding tail_after_walk(1) [OF assms(1,2)] accepted_walk(2) [OF assms(1) TailCheck_never_stops]
  by (rule Held_tail_seen [OF assms(3,2)])


subsection \<open>Receipts as they are written\<close>

definition receipt_doc :: "headReceipt \<Rightarrow> json" where
  "receipt_doc r = JObj [(''identity_id'', JStr (H_IdentityID r)), (''ledger_hash'', JStr (H_LedgerHash r)),
     (''ledger_ordinal'', JNum (format_int (H_LedgerOrdinal r))),
     (''previous_witnessed_ledger_hash'', JStr (H_PreviousHash r)),
     (''previous_witnessed_ledger_ordinal'', JNum (format_int (H_PreviousOrdinal r))),
     (''witness_key_id'', JStr (H_WitnessKeyID r)), (''witness_sig_b64'', JStr (H_WitnessSigB64 r)),
     (''witnessed_at'', JStr (H_WitnessedAt r))]"

definition receipt_ok :: "headReceipt \<Rightarrow> bool" where
  "receipt_ok r \<longleftrightarrow> text_ok (H_IdentityID r) \<and> text_ok (H_LedgerHash r) \<and> text_ok (H_PreviousHash r)
     \<and> text_ok (H_WitnessKeyID r) \<and> text_ok (H_WitnessSigB64 r) \<and> text_ok (H_WitnessedAt r)
     \<and> - (2 ^ 63) \<le> H_LedgerOrdinal r \<and> H_LedgerOrdinal r < 2 ^ 63
     \<and> - (2 ^ 63) \<le> H_PreviousOrdinal r \<and> H_PreviousOrdinal r < 2 ^ 63"

lemma receipt_keys:
  "list_all plain_char ''identity_id''" "list_all plain_char ''ledger_hash''" "list_all plain_char ''ledger_ordinal''"
  "list_all plain_char ''previous_witnessed_ledger_hash''" "list_all plain_char ''previous_witnessed_ledger_ordinal''"
  "list_all plain_char ''witness_key_id''" "list_all plain_char ''witness_sig_b64''" "list_all plain_char ''witnessed_at''"
  "list_all plain_char ''receipt''"
  by (simp_all add: plain_char_def)

lemma receipt_sorted: "sorted [''identity_id'', ''ledger_hash'', ''ledger_ordinal'', ''previous_witnessed_ledger_hash'',
    ''previous_witnessed_ledger_ordinal'', ''witness_key_id'', ''witness_sig_b64'', ''witnessed_at'']"
  by (simp add: less_eq_char_def less_char_def)

lemma wf_receipt_doc: "receipt_ok r \<Longrightarrow> wf_json (receipt_doc r)"
  using receipt_keys [THEN plain_valid] by (simp add: receipt_doc_def receipt_ok_def text_ok_def canonical_format_int)

lemma scalar_int:
  assumes "field_raws n fs = [format_int i]" "- (2 ^ 63) \<le> i" "i < 2 ^ 63"
  shows "scalar_field token_int z n fs = Inr i"
  by (rule scalar_field_one [OF assms(1) token_number [OF canonical_format_int]])
    (simp_all only: token_int.simps ParseInt_format_int [OF assms(2,3)] token.simps not_False_eq_True)

lemma decode_receipt_doc:
  assumes "receipt_ok r"
  shows "decode_headReceipt (emitCanonicalJSONValue (receipt_doc r)) = Inr r"
proof -
  let ?ms = "[(''identity_id'', JStr (H_IdentityID r)), (''ledger_hash'', JStr (H_LedgerHash r)),
     (''ledger_ordinal'', JNum (format_int (H_LedgerOrdinal r))),
     (''previous_witnessed_ledger_hash'', JStr (H_PreviousHash r)),
     (''previous_witnessed_ledger_ordinal'', JNum (format_int (H_PreviousOrdinal r))),
     (''witness_key_id'', JStr (H_WitnessKeyID r)), (''witness_sig_b64'', JStr (H_WitnessSigB64 r)),
     (''witnessed_at'', JStr (H_WitnessedAt r))]"
  let ?fs = "map (\<lambda>(k, v). (k, emitCanonicalJSONValue v)) ?ms"
  have so: "sorted (map fst ?ms)" using receipt_sorted by (simp only: list.map fst_conv)
  have d: "Decode_object (emitCanonicalJSONValue (receipt_doc r)) = Inr (Some ?fs)"
    unfolding receipt_doc_def by (rule Decode_emit_object [OF wf_receipt_doc [OF assms, unfolded receipt_doc_def] so])
  have k: "match_fields [''identity_id'', ''previous_witnessed_ledger_ordinal'', ''previous_witnessed_ledger_hash'',
      ''ledger_ordinal'', ''ledger_hash'', ''witnessed_at'', ''witness_key_id'', ''witness_sig_b64''] ?fs = Inr ?fs"
    by (rule match_fields_exact) simp
  have f: "field_raws ''identity_id'' ?fs = [emitCanonicalJSONString (H_IdentityID r)]"
    "field_raws ''ledger_hash'' ?fs = [emitCanonicalJSONString (H_LedgerHash r)]"
    "field_raws ''previous_witnessed_ledger_hash'' ?fs = [emitCanonicalJSONString (H_PreviousHash r)]"
    "field_raws ''witness_key_id'' ?fs = [emitCanonicalJSONString (H_WitnessKeyID r)]"
    "field_raws ''witness_sig_b64'' ?fs = [emitCanonicalJSONString (H_WitnessSigB64 r)]"
    "field_raws ''witnessed_at'' ?fs = [emitCanonicalJSONString (H_WitnessedAt r)]"
    by (simp_all add: field_raws_def)
  have i: "field_raws ''ledger_ordinal'' ?fs = [format_int (H_LedgerOrdinal r)]"
    "field_raws ''previous_witnessed_ledger_ordinal'' ?fs = [format_int (H_PreviousOrdinal r)]"
    by (simp_all add: field_raws_def)
  have or: "scalar_field token_int 0 ''ledger_ordinal'' ?fs = Inr (H_LedgerOrdinal r)"
    "scalar_field token_int 0 ''previous_witnessed_ledger_ordinal'' ?fs = Inr (H_PreviousOrdinal r)"
    using scalar_int [OF i(1)] scalar_int [OF i(2)] assms by (simp_all only: receipt_ok_def)
  have z: "H_LedgerOrdinal zero_headReceipt = 0" "H_PreviousOrdinal zero_headReceipt = 0" by (simp_all add: zero_headReceipt_def)
  have "fill_headReceipt zero_headReceipt ?fs = Inr r"
    unfolding fill_headReceipt_def z or using assms
    by (simp only: f [THEN scalar_text] receipt_ok_def sum_bind_simps) simp
  then show ?thesis by (simp only: decode_headReceipt_def strict_struct_def d k sum.case option.case)
qed

lemma carries_receipt:
  assumes "receipt_ok r"
  shows "Unmarshal_struct [''receipt'', ''receipt_before_rewrap''] fill_headPayload ([], [])
      (emitCanonicalJSONValue (JObj [(''receipt'', receipt_doc r)])) = Inr (emitCanonicalJSONValue (receipt_doc r), [])"
proof -
  have wf: "wf_json (JObj [(''receipt'', receipt_doc r)])"
    using wf_receipt_doc [OF assms] receipt_keys(9) [THEN plain_valid] by simp
  have d: "Decode_object (emitCanonicalJSONValue (JObj [(''receipt'', receipt_doc r)]))
      = Inr (Some (map (\<lambda>(k, v). (k, emitCanonicalJSONValue v)) [(''receipt'', receipt_doc r)]))"
    by (rule Decode_emit_object [OF wf]) simp
  show ?thesis
    unfolding Unmarshal_struct_def nested_struct_def
    by (simp only: only_value_emit [OF wf] d if_True sum.case option.case list.map prod.case) (simp add: find_field_def fill_headPayload_def raw_field_def field_raws_def)
qed

subsection \<open>Examples\<close>

definition demo_key :: WitnessKeyMaterial where
  "demo_key = \<lparr>W_KeyID = ''w1'', W_Fingerprint = ''f'', W_PublicKey = ''P7'', W_NotBefore = 0, W_ExpiresAt = 10 ^ 21,
     W_envelope = demo_authority\<rparr>"

definition demo_receipt :: headReceipt where
  "demo_receipt = (let r = \<lparr>H_IdentityID = ''did'', H_PreviousOrdinal = -1, H_PreviousHash = ZeroLedgerHash, H_LedgerOrdinal = 1,
       H_LedgerHash = EntryHash demo_prims (demo_event 1), H_WitnessedAt = ''2026-01-01T00:00:00Z'',
       H_WitnessKeyID = ''w1'', H_WitnessSigB64 = []\<rparr> in
     r\<lparr>H_WitnessSigB64 := b64_encode (''7'' @ ReceiptSignatureInput (receipt_of_head r))\<rparr>)"

definition demo_payload :: bytes where
  "demo_payload = emitCanonicalJSONValue (JObj [(''receipt'', receipt_doc demo_receipt)])"

definition demo_head :: Event where
  "demo_head = (let e = sample_event\<lparr>Seq := 2, Prev := EntryHash demo_prims (demo_event 1), Type := EventSystemWitnessed,
       Payload := demo_payload, Content := ContentHash demo_prims demo_payload\<rparr> in
     e\<lparr>Sig := b64_encode (''7'' @ SignatureInputGold SigAlg (PublicKeyFingerprint demo_prims ''P7'') (EntryHash demo_prims e))\<rparr>)"

lemma demo_head_fields:
  "Seq demo_head = 2" "Prev demo_head = EntryHash demo_prims (demo_event 1)" "Type demo_head = EventSystemWitnessed"
  "Payload demo_head = demo_payload" "Content demo_head = ContentHash demo_prims demo_payload" "\<not> sealed demo_head"
  by (simp_all add: demo_head_def Let_def sample_event_def)

lemma demo_head_signed: "Sig demo_head \<noteq> []" "verifyEventSignature demo_prims demo_head ''P7'' = None"
  by (simp_all add: demo_head_def Let_def verifyEventSignature_def Verify_def demo_prims_def EntryHash_def entrySum_def EntryBytes_def)

lemma demo_receipt_ok: "receipt_ok demo_receipt"
proof -
  have "list_all plain_char ''did''" "list_all plain_char ''w1''" "list_all plain_char ''2026-01-01T00:00:00Z''"
    "list_all plain_char ZeroLedgerHash"
    by (simp_all add: plain_char_def ZeroLedgerHash_def list_all_iff)
  then show ?thesis
    using hex_plain b64_plain
    by (simp add: receipt_ok_def demo_receipt_def Let_def plain_text_ok EntryHash_def)
qed

lemma demo_verified: "verify_under demo_prims demo_key demo_receipt = None"
proof -
  have "ParseRFC3339 ''2026-01-01T00:00:00Z'' = Some 63902822400000000000" by (simp add: time_eval)
  then show ?thesis
    by (simp add: verify_under_def demo_receipt_def demo_key_def Let_def IsZero_def Before_def ValidWindow_def demo_authority_def
        Verify_def demo_verify receipt_of_head_def del: b64_encode.simps)
qed

definition demo_heads :: HeadVerifier where
  "demo_heads = (NewHeadVerifier [(''w1'', demo_key)])\<lparr>identityID := ''did'', prevOrdinal := 1,
     prevHash := EntryHash demo_prims (demo_event 1), verified := 1, attestedOrdinal := 1,
     attestedHash := EntryHash demo_prims (demo_event 1)\<rparr>"

lemma demo_head_check: "head_check demo_prims (NewHeadVerifier [(''w1'', demo_key)]) demo_head look = (None, demo_heads)"
proof -
  have f: "H_IdentityID demo_receipt = ''did''" "H_PreviousOrdinal demo_receipt = -1" "H_PreviousHash demo_receipt = ZeroLedgerHash"
      "H_LedgerOrdinal demo_receipt = 1" "H_LedgerHash demo_receipt = EntryHash demo_prims (demo_event 1)" "H_WitnessKeyID demo_receipt = ''w1''"
    by (simp_all add: demo_receipt_def Let_def)
  have "verifyReceipt demo_prims \<lparr>pl_seq = 2, pl_prev = EntryHash demo_prims (demo_event 1), pl_sealed = sealed demo_head,
      pl_closing = closing demo_head\<rparr> look demo_receipt (NewHeadVerifier [(''w1'', demo_key)]) = (None, demo_heads)"
    by (simp add: verifyReceipt_def attests_def f NewHeadVerifier_def demo_verified demo_heads_def)
  moreover have "emitCanonicalJSONValue (receipt_doc demo_receipt) \<noteq> []" by (simp add: receipt_doc_def)
  ultimately show ?thesis
    by (simp only: head_check_def demo_head_fields demo_payload_def carries_receipt [OF demo_receipt_ok]
        decode_receipt_doc [OF demo_receipt_ok] sum.case prod.case if_False not_True_eq_False simp_thms)
qed

definition demo_chain :: "Event list" where
  "demo_chain = [demo_event 1, demo_head]"

lemma demo_event_fields: "Prev (demo_event 1) = []" "Type (demo_event 1) \<noteq> EventSystemWitnessed" "\<not> sealed (demo_event 1)"
  "ContentHash demo_prims (Payload (demo_event 1)) = Content (demo_event 1)"
  by (simp_all add: demo_event_def Let_def sample_event_def EventRing0Genesis_def EventSystemWitnessed_def)

lemma demo_chain_accepted:
  "\<exists>st. verifyChain demo_prims ''P7'' (VerifyHead demo_prims) (Some (NewHeadVerifier [(''w1'', demo_key)]))
     (Some (TailCheck_Visit demo_prims)) c (demo_chain, None) = (Inr 2, st) \<and> heads st = Some demo_heads"
  by (simp add: verifyChain_def demo_chain_def walk_start_def walk_step_def Let_def check_links_def check_proof_def check_head_def
      demo_event_fields demo_seq demo_signed demo_head_fields demo_head_signed TailCheck_Visit_def VerifyHead_def demo_head_check
      EntryHash_def)

theorem forgetting_changes_no_verdict_witness:
  "fst (verifyChain demo_prims ''P7'' (VerifyHead demo_prims) (Some (NewHeadVerifier [(''w1'', demo_key)])) None () (demo_chain, None))
    = fst (verifyChain demo_prims ''P7'' (keep_all (VerifyHead demo_prims)) (Some (NewHeadVerifier [(''w1'', demo_key)])) None ()
        (demo_chain, None))"
  by (rule forgetting_changes_no_verdict) (simp add: demo_chain_def)

theorem witnessed_record_stands_witness:
  "witnessed_at demo_prims [(''w1'', demo_key)] demo_chain 1 (EntryHash demo_prims (demo_event 1))"
proof -
  obtain st where st: "verifyChain demo_prims ''P7'' (VerifyHead demo_prims) (Some (NewHeadVerifier [(''w1'', demo_key)]))
     (Some (TailCheck_Visit demo_prims)) None (demo_chain, None) = (Inr 2, st)" "heads st = Some demo_heads"
    using demo_chain_accepted by blast
  have "Attested demo_heads = Some (1, EntryHash demo_prims (demo_event 1))" by (simp add: Attested_def demo_heads_def)
  from witnessed_record_stands [OF st(1) TailCheck_never_stops _ st(2) this] show ?thesis by (simp add: demo_chain_def)
qed

definition demo_tail :: LocalTail where
  "demo_tail = \<lparr>T_LedgerOrdinal = 1, T_LedgerHash = EntryHash demo_prims (demo_event 1), T_WitnessedAt = [],
     T_WitnessKeyFingerprint = []\<rparr>"

theorem tail_check_decides_witness:
  "\<exists>st. verifyChain demo_prims ''P7'' (VerifyHead demo_prims) (Some (NewHeadVerifier [(''w1'', demo_key)]))
     (Some (TailCheck_Visit demo_prims)) (NewTailCheck (Some demo_tail)) (demo_chain, None) = (Inr 2, st) \<and> fst (Held (visitor st)) = None"
proof -
  obtain st where st: "verifyChain demo_prims ''P7'' (VerifyHead demo_prims) (Some (NewHeadVerifier [(''w1'', demo_key)]))
     (Some (TailCheck_Visit demo_prims)) (NewTailCheck (Some demo_tail)) (demo_chain, None) = (Inr 2, st)"
    using demo_chain_accepted by blast
  show ?thesis using st tail_check_decides [OF st] by (simp add: demo_chain_def demo_tail_def)
qed

lemma demo_chain_valid: "list_all fields_valid demo_chain"
proof -
  have h: "utf8_valid (hex_encode s)" for s using hex_plain [THEN plain_valid] by simp
  have "fields_valid (demo_event 1)"
    by (simp add: fields_valid_def demo_event_def sample_event_def utf8_valid_ascii EventRing0Genesis_def ContentHash_def h)
  moreover have "fields_valid demo_head"
    by (simp add: fields_valid_def demo_head_def Let_def sample_event_def utf8_valid_ascii EventSystemWitnessed_def ContentHash_def h
        EntryHash_def)
  ultimately show ?thesis by (simp add: demo_chain_def)
qed


end
