(* ===== verification/Fs_Replace.thy ===== *)
theory Fs_Replace
  imports Fs
begin

text \<open>
  Replacing a file, \<open>internal/atomicfile/replace_unix.go\<close>, \<open>remove.go\<close>, \<open>earlier.go\<close> and
  \<open>WriteReplace\<close> of \<open>write.go\<close>. A new version takes the old one's name by a swap of the two names where
  the system has one, and by a rename otherwise. In the modelled directory a file has one name, so
  a replaced file has none left and there is never an other name to empty.
\<close>

text \<open>\<open>os.Lstat\<close>, and opening a file that is there.\<close>

definition os_Lstat :: "bytes \<Rightarrow> unit io" where
  "os_Lstat path w = (case next_fault w of
      (Some _, w') \<Rightarrow> (Inl ErrIO, w')
    | (None, w') \<Rightarrow> (case contents w' path of None \<Rightarrow> (Inl ErrNotExist, w') | Some _ \<Rightarrow> (Inr (), w')))"

text \<open>
  \<open>renameat2\<close> with \<open>RENAME_EXCHANGE\<close>. A system or a file system without the call answers with one of
  the errors \<open>noExchange\<close> names, which \<open>ErrUnsupported\<close> stands for.
\<close>

definition os_Exchange :: "bytes \<Rightarrow> bytes \<Rightarrow> unit io" where
  "os_Exchange a b w = (case next_fault w of
      (Some n, w') \<Rightarrow> (Inl (if n = 0 then ErrUnsupported else ErrIO), w')
    | (None, w') \<Rightarrow> (case (contents w' a, contents w' b) of
          (Some s, Some t) \<Rightarrow> (Inr (), set_file b s (set_file a t w'))
        | _ \<Rightarrow> (Inl ErrNotExist, w')))"

definition noExchange :: "io_err \<Rightarrow> bool" where
  "noExchange e \<longleftrightarrow> e = ErrUnsupported \<or> e = ErrNotExist"

text \<open>
  \<open>openToEmpty\<close>: whether the file could be opened. A file that cannot be opened and has one name is
  left alone; only a stat of the opened file that fails is an error.
\<close>

definition openToEmpty :: "bytes \<Rightarrow> bool io" where
  "openToEmpty path w = (case os_Lstat path w of
      (Inr _, w1) \<Rightarrow> io_then os_touch (io_return True) w1
    | (Inl _, w1) \<Rightarrow> (Inr False, snd (os_Lstat path w1)))"

definition openEarlier :: "bytes \<Rightarrow> bytes \<Rightarrow> bool io" where
  "openEarlier oldPath newPath = io_bind (openToEmpty newPath) (\<lambda>f. if \<not> f then io_return False
     else io_then os_touch (\<lambda>w. case os_Lstat oldPath w of
         (Inr _, w') \<Rightarrow> (Inr (oldPath \<noteq> newPath), w') | (Inl _, w') \<Rightarrow> (Inr True, w')))"

text \<open>\<open>earlier.empty\<close>: the replaced file is asked for its other names, and has none.\<close>

definition earlier_empty :: "bool \<Rightarrow> unit io" where
  "earlier_empty before = (if before then os_touch else io_return ())"

definition replace :: publish where
  "replace oldPath newPath w = (case openEarlier oldPath newPath w of
      (Inl e, w1) \<Rightarrow> ((False, Some e), w1)
    | (Inr before, w1) \<Rightarrow> (case os_Rename oldPath newPath w1 of
        (Inl e, w2) \<Rightarrow> ((False, Some e), w2)
      | (Inr _, w2) \<Rightarrow> (case os_touch w2 of
          (Inl e, w3) \<Rightarrow> ((True, Some e), w3)
        | (Inr _, w3) \<Rightarrow> (case earlier_empty before w3 of
            (Inl e, w4) \<Rightarrow> ((True, Some e), w4)
          | (Inr _, w4) \<Rightarrow> ((True, None), w4)))))"

definition Replace :: publish where
  "Replace oldPath newPath w = (case os_touch w of
      (Inl e, w') \<Rightarrow> ((False, Some e), w') | (Inr _, w') \<Rightarrow> replace oldPath newPath w')"

text \<open>\<open>Remove\<close>: unlink a file, having asked for its names before and after.\<close>

definition fs_Remove :: "bytes \<Rightarrow> unit io" where
  "fs_Remove path = io_bind (openToEmpty path) (\<lambda>f.
     if f then io_then os_touch (io_then (os_Remove path) os_touch) else os_Remove path)"

text \<open>\<open>byExchange\<close>: \<open>None\<close> where it leaves the work to the rename (\<open>done = false\<close>).\<close>

definition byExchange :: "bytes \<Rightarrow> bytes \<Rightarrow> world \<Rightarrow> (bool \<times> io_err option) option \<times> world" where
  "byExchange oldPath newPath w = (case os_Lstat newPath w of
      (Inl _, w1) \<Rightarrow> (None, w1)
    | (Inr _, w1) \<Rightarrow> (case os_Lstat oldPath w1 of
        (Inl _, w2) \<Rightarrow> (None, w2)
      | (Inr _, w2) \<Rightarrow> if oldPath = newPath then (None, w2)
          else (case os_Exchange oldPath newPath w2 of
            (Inl e, w3) \<Rightarrow> (if noExchange e then None else Some (False, Some e), w3)
          | (Inr _, w3) \<Rightarrow> (case io_then os_touch (io_then (fs_Remove oldPath) os_touch) w3 of
              (Inl e, w4) \<Rightarrow> (Some (True, Some e), w4)
            | (Inr _, w4) \<Rightarrow> (Some (True, None), w4)))))"

definition replaceStagedWith :: publish where
  "replaceStagedWith staged newPath w = (case byExchange staged newPath w of
      (Some r, w') \<Rightarrow> (r, w')
    | (None, w') \<Rightarrow> replace staged newPath w')"

definition replaceStaged :: publish where
  "replaceStaged staged newPath w = (case os_touch w of
      (Inl e, w') \<Rightarrow> ((False, Some e), w') | (Inr _, w') \<Rightarrow> replaceStagedWith staged newPath w')"

definition WriteReplace :: "bytes \<Rightarrow> bytes \<Rightarrow> bool \<Rightarrow> world \<Rightarrow> (bool \<times> io_err option) \<times> world" where
  "WriteReplace = write_staged replaceStaged"

text \<open>\<open>publish\<close>: the rename alone, for an executable, whose other names keep the earlier image.\<close>

definition fs_publish :: publish where
  "fs_publish oldPath newPath w = (case io_then os_touch (os_Rename oldPath newPath) w of
      (Inl e, w1) \<Rightarrow> ((False, Some e), w1)
    | (Inr _, w1) \<Rightarrow> (case os_touch w1 of (Inl e, w2) \<Rightarrow> ((True, Some e), w2) | (Inr _, w2) \<Rightarrow> ((True, None), w2)))"

subsection \<open>What they change\<close>

lemma os_Lstat_contents: "os_Lstat p w = (r, w') \<Longrightarrow> contents w' = contents w"
  by (auto simp: os_Lstat_def split: list.splits option.splits)

lemma touching_Lstat [io_frame]: "touching A (os_Lstat p)"
  by (auto simp: touching_def dest: os_Lstat_contents intro: fun_cong [OF os_Lstat_contents [OF surjective_pairing]])

lemma openToEmpty_contents:
  assumes "openToEmpty p w = (r, w')"
  shows "contents w' = contents w"
proof -
  obtain q w1 where l: "os_Lstat p w = (q, w1)" by fastforce
  have 1: "contents w1 = contents w" by (rule os_Lstat_contents [OF l])
  show ?thesis
  proof (cases q)
    case (Inl e)
    then have "w' = snd (os_Lstat p w1)" using assms l by (simp add: openToEmpty_def)
    then show ?thesis using 1 os_Lstat_contents [of p w1] by (metis prod.collapse)
  next
    case (Inr x)
    then have "io_then os_touch (io_return True) w1 = (r, w')" using assms l by (simp add: openToEmpty_def)
    then show ?thesis using 1
      by (auto simp: io_then_def io_bind_def io_return_def dest: os_touch_contents split: prod.splits sum.splits)
  qed
qed

lemma openEarlier_contents:
  assumes "openEarlier a b w = (r, w')"
  shows "contents w' = contents w"
  using assms
  by (auto simp: openEarlier_def io_then_def io_bind_def io_return_def split: prod.splits sum.splits if_splits
      dest!: openToEmpty_contents os_touch_contents os_Lstat_contents)

lemma touching_openToEmpty [io_frame]: "touching A (openToEmpty p)"
  unfolding touching_def by (metis openToEmpty_contents prod.collapse)

lemma touching_fs_Remove [io_frame]: "p \<in> A \<Longrightarrow> touching A (fs_Remove p)"
  unfolding fs_Remove_def by (intro io_frame) (auto intro!: io_frame)

lemma fs_Remove_ok: "fs_Remove p w = (Inr x, w') \<Longrightarrow> contents w' p = None"
  by (auto simp: fs_Remove_def io_bind_Inr io_then_Inr split: if_splits
      dest!: openToEmpty_contents os_touch_contents os_Remove_ok)

lemma earlier_empty_contents: "earlier_empty b w = (r, w') \<Longrightarrow> contents w' = contents w"
  by (auto simp: earlier_empty_def split: if_splits dest: os_touch_contents)

definition publishes :: "bytes \<Rightarrow> bytes \<Rightarrow> bytes \<Rightarrow> bool \<times> io_err option \<Rightarrow> world \<Rightarrow> world \<Rightarrow> bool" where
  "publishes tmp path data r w w' \<longleftrightarrow> contents w' path = (if fst r then Some data else contents w path)
    \<and> (\<forall>p. p \<noteq> tmp \<longrightarrow> p \<noteq> path \<longrightarrow> contents w' p = contents w p)
    \<and> (snd r = None \<longrightarrow> fst r \<and> contents w' tmp = None)"

lemma publishes_cong: "contents v = contents w \<Longrightarrow> publishes tmp path data r v w' \<longleftrightarrow> publishes tmp path data r w w'"
  by (simp add: publishes_def)

lemma replace_spec:
  assumes "replace tmp path w = (r, w')" "contents w tmp = Some data" "tmp \<noteq> path"
  shows "publishes tmp path data r w w'"
proof -
  obtain q w1 where e: "openEarlier tmp path w = (q, w1)" by fastforce
  have 1: "contents w1 = contents w" by (rule openEarlier_contents [OF e])
  show ?thesis
  proof (cases q)
    case (Inl x)
    then show ?thesis using assms e 1 by (auto simp: replace_def publishes_def)
  next
    case (Inr b)
    obtain q2 w2 where n: "os_Rename tmp path w1 = (q2, w2)" by fastforce
    show ?thesis
    proof (cases q2)
      case (Inl x)
      then show ?thesis using assms e Inr n 1 os_Rename_fail [of tmp path w1 x w2] by (auto simp: replace_def publishes_def)
    next
      case I2: (Inr y)
      then have c: "contents w2 = (contents w)(tmp := None, path \<mapsto> data)"
        using os_Rename_ok [of tmp path w1 y w2] n assms(2,3) 1 by auto
      have "contents w' = contents w2 \<and> fst r"
        using assms(1) e Inr n I2
        by (auto simp: replace_def split: prod.splits sum.splits dest!: os_touch_contents earlier_empty_contents)
      then show ?thesis using c assms(2,3) by (auto simp: publishes_def)
    qed
  qed
qed

lemma os_Exchange_ok:
  "os_Exchange a b w = (Inr x, w') \<Longrightarrow> a \<noteq> b \<Longrightarrow>
    \<exists>s t. contents w a = Some s \<and> contents w b = Some t \<and> contents w' = (contents w)(a \<mapsto> t, b \<mapsto> s)"
  by (auto simp: os_Exchange_def split: list.splits option.splits)

lemma os_Exchange_fail: "os_Exchange a b w = (Inl e, w') \<Longrightarrow> contents w' = contents w"
  by (auto simp: os_Exchange_def split: list.splits option.splits if_splits)

lemma byExchange_spec:
  assumes "byExchange tmp path w = (r, w')" "contents w tmp = Some data" "tmp \<noteq> path"
  shows "case r of None \<Rightarrow> contents w' = contents w | Some p \<Rightarrow> publishes tmp path data p w w'"
proof -
  obtain q1 w1 where 1: "os_Lstat path w = (q1, w1)" by fastforce
  obtain q2 w2 where 2: "os_Lstat tmp w1 = (q2, w2)" by fastforce
  have c: "contents w1 = contents w" "contents w2 = contents w" using os_Lstat_contents 1 2 by auto
  obtain q3 w3 where 3: "os_Exchange tmp path w2 = (q3, w3)" by fastforce
  consider "q1 \<noteq> Inr ()" | "q1 = Inr ()" "q2 \<noteq> Inr ()" | e where "q1 = Inr ()" "q2 = Inr ()" "q3 = Inl e"
    | "q1 = Inr ()" "q2 = Inr ()" "q3 = Inr ()"
    by (cases q3) auto
  then show ?thesis
  proof cases
    case 4
    let ?m = "io_then os_touch (io_then (fs_Remove tmp) os_touch)"
    obtain q4 w4 where m: "?m w3 = (q4, w4)" by fastforce
    obtain t where x: "contents w3 = (contents w)(tmp \<mapsto> t, path \<mapsto> data)"
      using os_Exchange_ok [of tmp path w2 "()" w3] 3 4 assms(2,3) c by auto
    have f: "touching {tmp} ?m" by (intro io_frame) simp
    have "contents w4 p = contents w3 p" if "p \<noteq> tmp" for p using touchingD [OF f m] that by simp
    moreover have "contents w4 tmp = None" if "q4 = Inr y" for y
      using m that by (auto simp: io_then_Inr dest!: os_touch_contents fs_Remove_ok)
    moreover have "w' = w4 \<and> r = Some (True, case q4 of Inl e \<Rightarrow> Some e | Inr _ \<Rightarrow> None)"
      using assms(1,3) 1 2 3 4 m by (auto simp: byExchange_def split: sum.splits)
    ultimately show ?thesis using x assms(3) by (auto simp: publishes_def split: sum.splits)
  qed (use assms 1 2 3 c in \<open>auto simp: byExchange_def publishes_def split: sum.splits if_splits dest!: os_Exchange_fail\<close>)
qed

lemma replaceStaged_spec:
  assumes "replaceStaged tmp path w = (r, w')" "contents w tmp = Some data" "tmp \<noteq> path"
  shows "publishes tmp path data r w w'"
proof -
  obtain q w1 where t: "os_touch w = (q, w1)" by fastforce
  have c: "contents w1 = contents w" by (rule os_touch_contents [OF t])
  show ?thesis
  proof (cases q)
    case (Inl e)
    then show ?thesis using assms t c by (auto simp: replaceStaged_def publishes_def)
  next
    case (Inr u)
    obtain d w2 where b: "byExchange tmp path w1 = (d, w2)" by fastforce
    note s = byExchange_spec [OF b, of data]
    show ?thesis
    proof (cases d)
      case None
      then have "replace tmp path w2 = (r, w')" using assms t Inr b by (simp add: replaceStaged_def replaceStagedWith_def)
      from replace_spec [OF this, of data] show ?thesis using s None c assms by (simp add: publishes_def)
    next
      case (Some p)
      then show ?thesis using s c assms t Inr b
        by (auto simp: publishes_def replaceStaged_def replaceStagedWith_def)
    qed
  qed
qed

interpretation replacement: publisher replaceStaged False
  by unfold_locales (drule (2) replaceStaged_spec, auto simp: publishes_def split: if_splits)

text \<open>
  C29. \<open>WriteReplace\<close> is atomic: whatever calls fail, and wherever the process dies, a reader finds under
  the name either exactly the new bytes or exactly what was there before, and the returned flag
  says which. No other file that existed is changed, and after success nothing but the named file
  differs.
\<close>

theorem WriteReplace_atomic:
  assumes "WriteReplace path data ownerOnly w = ((published, err), w')"
  shows "contents w' path = (if published then Some data else contents w path)
    \<and> (\<forall>p. p \<noteq> path \<longrightarrow> contents w p \<noteq> None \<longrightarrow> contents w' p = contents w p)
    \<and> (err = None \<longrightarrow> published \<and> contents w' = (contents w)(path \<mapsto> data))"
  using replacement.write_staged_spec [OF assms [unfolded WriteReplace_def]] by (auto split: if_splits)

lemmas replace_eval = io_eval os_Lstat_def os_Exchange_def noExchange_def openToEmpty_def openEarlier_def earlier_empty_def
  replace_def fs_Remove_def byExchange_def replaceStagedWith_def replaceStaged_def WriteReplace_def

text \<open>The swap is not supported and the sync after the rename fails: published, not known to last.\<close>

theorem WriteReplace_atomic_witness:
  "\<exists>w'. WriteReplace ''old'' ''y'' False (sample_world (replicate 8 None @ [Some 0, None, None, None, None, None, Some 1]))
      = ((True, Some ErrIO), w') \<and> contents w' ''old'' = Some ''y''"
proof -
  let ?p = "replicate 8 None @ [Some 0, None, None, None, None, None, Some 1]"
  obtain w' where a: "WriteReplace ''old'' ''y'' False (sample_world ?p) = ((True, Some ErrIO), w')"
    by (simp add: replace_eval sample_world_def format_nat.simps digit_char_def numeral_eq_Suc)
  show ?thesis using a WriteReplace_atomic [OF a] by auto
qed

end
