(* ===== verification/Ledger_Lines.thy ===== *)
theory Ledger_Lines
  imports Ledger_Chain Fs_Replace
begin

text \<open>
  The lines of a container and the names of segments: \<open>scanLines\<close>, \<open>segmentName\<close>,
  \<open>parseSegmentName\<close>, \<open>segmentFiles\<close>, \<open>listSegments\<close> and \<open>sweepDebris\<close> of
  \<open>internal/ledger/container.go\<close>, and the windowed reading of the tail of \<open>ledger.go\<close>.
\<close>

subsection \<open>White space\<close>

text \<open>\<open>bytes.TrimSpace\<close>: the code points of \<open>unicode.IsSpace\<close>, taken off both ends.\<close>

definition space_runes :: "nat list" where
  "space_runes = [0x09, 0x0A, 0x0B, 0x0C, 0x0D, 0x20, 0x85, 0xA0, 0x1680, 0x2000, 0x2001, 0x2002, 0x2003, 0x2004, 0x2005,
     0x2006, 0x2007, 0x2008, 0x2009, 0x200A, 0x2028, 0x2029, 0x202F, 0x205F, 0x3000]"

definition space_codes :: "bytes list" where
  "space_codes = map EncodeRune space_runes"

lemma space_codes_eval: "space_codes =
  [[CHR 0x09], [CHR 0x0A], [CHR 0x0B], [CHR 0x0C], [CHR 0x0D], [CHR 0x20], [CHR 0xC2, CHR 0x85], [CHR 0xC2, CHR 0xA0],
   [CHR 0xE1, CHR 0x9A, CHR 0x80], [CHR 0xE2, CHR 0x80, CHR 0x80], [CHR 0xE2, CHR 0x80, CHR 0x81], [CHR 0xE2, CHR 0x80, CHR 0x82],
   [CHR 0xE2, CHR 0x80, CHR 0x83], [CHR 0xE2, CHR 0x80, CHR 0x84], [CHR 0xE2, CHR 0x80, CHR 0x85], [CHR 0xE2, CHR 0x80, CHR 0x86],
   [CHR 0xE2, CHR 0x80, CHR 0x87], [CHR 0xE2, CHR 0x80, CHR 0x88], [CHR 0xE2, CHR 0x80, CHR 0x89], [CHR 0xE2, CHR 0x80, CHR 0x8A],
   [CHR 0xE2, CHR 0x80, CHR 0xA8], [CHR 0xE2, CHR 0x80, CHR 0xA9], [CHR 0xE2, CHR 0x80, CHR 0xAF], [CHR 0xE2, CHR 0x81, CHR 0x9F],
   [CHR 0xE3, CHR 0x80, CHR 0x80]]"
  by (simp add: space_codes_def space_runes_def EncodeRune_def scalar_def char_of_eq_iff Let_def)

function trim_codes :: "bytes list \<Rightarrow> bytes \<Rightarrow> bytes" where
  "trim_codes codes s = (case find (\<lambda>w. w \<noteq> [] \<and> has_prefix s w) codes of None \<Rightarrow> s
     | Some w \<Rightarrow> trim_codes codes (drop (length w) s))"
  by pat_completeness auto
termination
proof (relation "measure (\<lambda>(codes, s). length s)", simp)
  fix codes s w assume "find (\<lambda>w. w \<noteq> [] \<and> has_prefix s w) codes = Some w"
  then have "w \<noteq> []" "has_prefix s w" by (auto simp: find_Some_iff)
  then have "s \<noteq> []" "0 < length w" by (auto simp: has_prefix_def)
  then show "((codes, drop (length w) s), (codes, s)) \<in> measure (\<lambda>(codes, s). length s)" by simp
qed

declare trim_codes.simps [simp del]

definition TrimSpace :: "bytes \<Rightarrow> bytes" where
  "TrimSpace s = rev (trim_codes (map rev space_codes) (rev (trim_codes space_codes s)))"

text \<open>A text whose first and last byte are no white space, before and after a line feed.\<close>

definition solid :: "char \<Rightarrow> bool" where
  "solid c \<longleftrightarrow> 0x21 \<le> bval c \<and> bval c < 0x80"

lemma solid_not_code:
  assumes "solid c" "w \<in> set space_codes"
  shows "\<not> has_prefix (c # s) w" "\<not> has_prefix (c # s) (rev w)" "w \<noteq> []"
  using assms by (auto simp: space_codes_eval solid_def has_prefix_def)

lemma trim_codes_solid: "solid c \<Longrightarrow> trim_codes space_codes (c # s) = c # s"
proof -
  assume "solid c"
  then have "find (\<lambda>w. w \<noteq> [] \<and> has_prefix (c # s) w) space_codes = None" using solid_not_code(1) by (auto simp: find_None_iff)
  then show ?thesis by (subst trim_codes.simps) simp
qed

lemma find_solid: "solid c \<Longrightarrow> find (\<lambda>w. w \<noteq> [] \<and> has_prefix (c # s) w) (map rev space_codes) = None"
  using solid_not_code(2) by (auto simp: find_None_iff)

lemma trim_codes_rev_solid: "solid c \<Longrightarrow> trim_codes (map rev space_codes) (c # s) = c # s"
  using find_solid by (subst trim_codes.simps) simp

lemma find_newline: "find (\<lambda>w. w \<noteq> [] \<and> has_prefix (NL # s) w) (map rev space_codes) = Some [NL]"
  by (simp add: space_codes_eval has_prefix_def)

lemma trim_codes_newline: "solid c \<Longrightarrow> trim_codes (map rev space_codes) (NL # c # s) = c # s"
  by (subst trim_codes.simps) (simp add: find_newline trim_codes_rev_solid)

lemma TrimSpace_solid:
  assumes "solid a" "solid z"
  shows "TrimSpace (a # mid @ [z]) = a # mid @ [z]" "TrimSpace (a # mid @ [z, NL]) = a # mid @ [z]"
  using assms by (simp_all add: TrimSpace_def trim_codes_solid trim_codes_rev_solid trim_codes_newline)

lemma TrimSpace_Nil [simp]: "TrimSpace [] = []"
proof -
  have "find (\<lambda>w. w \<noteq> [] \<and> has_prefix [] w) xs = None" for xs :: "bytes list" by (auto simp: find_None_iff has_prefix_def)
  then have "trim_codes xs [] = []" for xs by (subst trim_codes.simps) simp
  then show ?thesis by (simp add: TrimSpace_def)
qed

subsection \<open>Lines\<close>

text \<open>The tokens of the scanner: each line with its line feed, and an unterminated last piece.\<close>

fun tokens :: "bytes \<Rightarrow> bytes list" where
  "tokens [] = []"
| "tokens (c # s) = (if c = NL then [c] # tokens s
     else (case tokens s of [] \<Rightarrow> [[c]] | t # ts \<Rightarrow> (c # t) # ts))"

lemma tokens_line: "NL \<notin> set l \<Longrightarrow> tokens (l @ NL # s) = (l @ [NL]) # tokens s"
  by (induction l) auto

lemma tokens_concat: "concat (tokens s) = s"
  by (induction s rule: tokens.induct) (auto split: list.splits)

definition MaxEventLineBytes :: nat where
  "MaxEventLineBytes = 32 * 2 ^ 20"

text \<open>A token the scanner's buffer can hold; an unterminated one must leave a byte free.\<close>

definition fits :: "bytes \<Rightarrow> bool" where
  "fits tok = (if tok \<noteq> [] \<and> last tok = NL then length tok \<le> MaxEventLineBytes else length tok < MaxEventLineBytes)"

text \<open>
  \<open>scanLines\<close> over the bytes a reader delivers and the error it ends with. The callback is told the
  trimmed line, its offset, its size and its number, and may stop the scan with an error; \<open>'s\<close> is its state.
\<close>

type_synonym 's line_fn = "bytes \<Rightarrow> nat \<Rightarrow> nat \<Rightarrow> nat \<Rightarrow> 's \<Rightarrow> ledger_err option \<times> 's"

fun scan_tokens :: "'s line_fn \<Rightarrow> nat \<Rightarrow> nat \<Rightarrow> ledger_err option \<Rightarrow> bytes list \<Rightarrow> 's \<Rightarrow> ledger_err option \<times> 's" where
  "scan_tokens fn offset at err [] st = (err, st)"
| "scan_tokens fn offset at err (tok # toks) st =
    (if \<not> fits tok then (Some LineTooLong, st)
     else let line = TrimSpace tok in
       (case (if line = [] then (None, st) else fn line offset (length tok) (at + 1) st) of
          (Some e, st') \<Rightarrow> (Some e, st')
        | (None, st') \<Rightarrow> scan_tokens fn (offset + length tok) (at + 1) err toks st'))"

definition scanLines :: "bytes \<times> ledger_err option \<Rightarrow> 's line_fn \<Rightarrow> 's \<Rightarrow> ledger_err option \<times> 's" where
  "scanLines r fn st = scan_tokens fn 0 0 (snd r) (tokens (fst r)) st"

subsection \<open>The text of a run of records\<close>

text \<open>A record that can be stored, with the line it is stored as.\<close>

definition stored :: "Event \<Rightarrow> bytes \<Rightarrow> bool" where
  "stored e line \<longleftrightarrow> \<not> sealed e \<and> \<not> closing e \<and> container e = [] \<and> decodeEvent line = Inr e
     \<and> (\<exists>mid. line = CHR 0x7B # mid @ [CHR 0x7D]) \<and> NL \<notin> set line \<and> length line < MaxEventLineBytes"

definition text_of :: "bytes list \<Rightarrow> bytes" where
  "text_of ls = concat (map (\<lambda>l. l @ [NL]) ls)"

lemma text_of_simps [simp]: "text_of [] = []" "text_of (l # ls) = l @ NL # text_of ls" "text_of (ls @ ls') = text_of ls @ text_of ls'"
  by (simp_all add: text_of_def)

lemma tokens_text: "list_all (\<lambda>l. NL \<notin> set l) ls \<Longrightarrow> tokens (text_of ls @ s) = map (\<lambda>l. l @ [NL]) ls @ tokens s"
  by (induction ls) (simp_all add: tokens_line)

lemma stored_line:
  assumes "stored e line"
  shows "NL \<notin> set line" "TrimSpace (line @ [NL]) = line" "TrimSpace line = line" "fits (line @ [NL])" "line \<noteq> []" "decodeEvent line = Inr e"
proof -
  obtain mid where m: "line = CHR 0x7B # mid @ [CHR 0x7D]" using assms by (auto simp: stored_def)
  have s: "solid (CHR 0x7B)" "solid (CHR 0x7D)" by (simp_all add: solid_def)
  show "TrimSpace (line @ [NL]) = line" "TrimSpace line = line" using TrimSpace_solid [OF s, of mid] by (simp_all add: m)
  show "line \<noteq> []" by (simp add: m)
qed (use assms in \<open>simp_all add: stored_def fits_def\<close>)

lemma scan_stored:
  assumes "stored e l"
  shows "scan_tokens fn offset at err (map (\<lambda>l. l @ [NL]) (l # ls) @ toks) st = (case fn l offset (length l + 1) (at + 1) st of
      (Some e, st') \<Rightarrow> (Some e, st')
    | (None, st') \<Rightarrow> scan_tokens fn (offset + length l + 1) (at + 1) err (map (\<lambda>l. l @ [NL]) ls @ toks) st')"
  using stored_line [OF assms] by (simp split: prod.split option.split)

lemma storable_stored:
  assumes "storable e ms" "MarshalJSON e = Inr line" "\<not> sealed e" "\<not> closing e" "container e = []" "length line < MaxEventLineBytes"
  shows "stored e line"
proof -
  have "NL \<notin> set line" using storable_line(1) [OF assms(1,2)] by (auto simp: list_all_iff)
  moreover have "e\<lparr>sealed := False, closing := False, container := []\<rparr> = e" using assms(3-5) by simp
  ultimately show ?thesis
    using decodeEvent_line [OF assms(1,2)] storable_line(2) [OF assms(1,2)] assms(3-6) by (simp add: stored_def)
qed

subsection \<open>Segment names\<close>

definition segmentPrefix :: bytes where "segmentPrefix = ''segment-''"
definition segmentSuffix :: bytes where "segmentSuffix = ''.jsonl.gz''"
definition segmentTempPrefix :: bytes where "segmentTempPrefix = ''.segment-''"
definition tailTempPrefix :: bytes where "tailTempPrefix = ''.ledger.tail-''"
definition tempSuffix :: bytes where "tempSuffix = ''.tmp''"

record segment =
  s_first :: uint64
  s_last :: uint64
  s_path :: bytes

definition segmentName :: "uint64 \<Rightarrow> uint64 \<Rightarrow> bytes" where
  "segmentName lo hi = segmentPrefix @ FormatUint lo @ ''-'' @ FormatUint hi @ segmentSuffix"

definition parseSegmentName :: "bytes \<Rightarrow> (uint64 \<times> uint64) option" where
  "parseSegmentName name =
    (if \<not> has_prefix name segmentPrefix \<or> \<not> has_suffix name segmentSuffix then None
     else (case cut_at (CHR ''-'') (trim_suffix (trim_prefix name segmentPrefix) segmentSuffix) of None \<Rightarrow> None
       | Some (a, b) \<Rightarrow> (case ParseUint a of None \<Rightarrow> None
         | Some lo \<Rightarrow> if FormatUint lo \<noteq> a then None
             else (case ParseUint b of None \<Rightarrow> None
               | Some hi \<Rightarrow> if FormatUint hi \<noteq> b then None
                   else if lo = 0 \<or> hi < lo then None else Some (lo, hi)))))"

definition IsSegmentName :: "bytes \<Rightarrow> bool" where
  "IsSegmentName name = (parseSegmentName name \<noteq> None)"

lemma FormatUint_digits: "list_all (\<lambda>c. 48 \<le> bval c \<and> bval c \<le> 57) (FormatUint n)"
  using format_nat_digits [of "unat n"] by (auto simp: FormatUint_def list_all_iff is_digit_def)

lemma parse_segmentName:
  assumes "0 < lo" "lo \<le> hi"
  shows "parseSegmentName (segmentName lo hi) = Some (lo, hi)"
proof -
  let ?body = "FormatUint lo @ CHR ''-'' # FormatUint hi"
  have n: "segmentName lo hi = segmentPrefix @ ?body @ segmentSuffix" by (simp add: segmentName_def)
  have s: "segmentPrefix @ ?body @ segmentSuffix = (segmentPrefix @ ?body) @ segmentSuffix" by simp
  have p: "has_prefix (segmentName lo hi) segmentPrefix" "has_suffix (segmentName lo hi) segmentSuffix"
    unfolding n by (rule has_prefix_append, unfold s, rule has_suffix_append)
  have t: "trim_suffix (trim_prefix (segmentName lo hi) segmentPrefix) segmentSuffix = ?body"
    unfolding n trim_prefix_append by (rule trim_suffix_append)
  have "CHR ''-'' \<notin> set (FormatUint lo)" using FormatUint_digits [of lo] by (auto simp: list_all_iff)
  then have c: "cut_at (CHR ''-'') ?body = Some (FormatUint lo, FormatUint hi)" by simp
  show ?thesis using p assms unfolding parseSegmentName_def t c by (auto simp: not_less)
qed

lemma parseSegmentName_Some:
  assumes "parseSegmentName name = Some (lo, hi)"
  shows "name = segmentName lo hi \<and> 0 < lo \<and> lo \<le> hi"
proof -
  obtain body where b: "name = segmentPrefix @ body" using assms by (auto simp: parseSegmentName_def has_prefix_iff split: if_splits)
  have "has_suffix name segmentSuffix" using assms by (auto simp: parseSegmentName_def split: if_splits)
  obtain a c where ac: "cut_at (CHR ''-'') (trim_suffix body segmentSuffix) = Some (a, c)" "a = FormatUint lo" "c = FormatUint hi"
      "lo \<noteq> 0" "\<not> hi < lo"
    using assms unfolding b parseSegmentName_def trim_prefix_append by (auto split: if_splits option.splits)
  have ts: "trim_suffix body segmentSuffix = a @ CHR ''-'' # c" using cut_at_Some [OF ac(1)] by simp
  have "has_suffix body segmentSuffix"
  proof (rule ccontr)
    assume n: "\<not> has_suffix body segmentSuffix"
    then have body: "body = a @ CHR ''-'' # c" using ts by (simp add: trim_suffix_def)
    obtain t where t: "segmentPrefix @ body = t @ segmentSuffix" using \<open>has_suffix name segmentSuffix\<close> b by (auto simp: has_suffix_iff)
    have "last (segmentPrefix @ body) = CHR ''z''" unfolding t by (simp add: segmentSuffix_def)
    moreover have "last (segmentPrefix @ body) \<in> insert (CHR ''-'') (set c)" unfolding body by (cases c rule: rev_cases) auto
    ultimately show False using FormatUint_digits [of hi] ac(3) by (auto simp: list_all_iff)
  qed
  then obtain t where t: "body = t @ segmentSuffix" by (auto simp: has_suffix_iff)
  then have "t = a @ CHR ''-'' # c" using ts by simp
  then show ?thesis using t b ac(2-5) by (simp add: segmentName_def word_gt_0 not_less)
qed

text \<open>
  \<open>segmentFiles\<close> from the sorted names of the directory, and \<open>listSegments\<close>: the segments must be one
  run of records from the first on.
\<close>

definition segment_of :: "bytes \<Rightarrow> segment option" where
  "segment_of name = map_option (\<lambda>(a, b). \<lparr>s_first = a, s_last = b, s_path = name\<rparr>) (parseSegmentName name)"

definition segments_in :: "bytes list \<Rightarrow> segment list" where
  "segments_in names = sort_key s_first (List.map_filter segment_of names)"

fun contiguous :: "uint64 \<Rightarrow> segment list \<Rightarrow> bool" where
  "contiguous n [] = True"
| "contiguous n (s # ss) = (s_first s = n \<and> contiguous (s_last s + 1) ss)"

subsection \<open>The end of the tail\<close>

text \<open>
  \<open>readTailEvents\<close>: the last \<open>k + 1\<close> records, read from a window at the end of the file that doubles
  until it holds enough line feeds. A window of zero never occurs; it ends the loop in the model.
\<close>

function tail_window :: "bytes \<Rightarrow> nat \<Rightarrow> nat \<Rightarrow> bytes" where
  "tail_window s k win = (let buf = drop (length s - win) s in
     if length s \<le> win then s
     else if k + 2 \<le> count_list buf NL \<or> win = 0 then (case cut_at NL buf of Some (_, rest) \<Rightarrow> rest | None \<Rightarrow> buf)
     else tail_window s k (win * 2))"
  by pat_completeness auto
termination
  by (relation "measure (\<lambda>(s, k, win). length s - win)") auto

declare tail_window.simps [simp del]

fun split_nl :: "bytes \<Rightarrow> bytes list" where
  "split_nl [] = [[]]"
| "split_nl (c # s) = (if c = NL then [] # split_nl s else (case split_nl s of t # ts \<Rightarrow> (c # t) # ts | [] \<Rightarrow> [[c]]))"

definition tail_lines :: "nat \<Rightarrow> bytes \<Rightarrow> bytes list" where
  "tail_lines k buf = (let ls = filter (\<lambda>l. l \<noteq> []) (map TrimSpace (split_nl buf)) in
     if k + 1 < length ls then drop (length ls - k - 1) ls else ls)"

fun decode_all :: "bytes list \<Rightarrow> ledger_err + Event list" where
  "decode_all [] = Inr []"
| "decode_all (l # ls) = sum_bind (decodeEvent l) (\<lambda>e. sum_bind (decode_all ls) (\<lambda>es. Inr (e # es)))"

definition readTailEvents :: "bytes \<Rightarrow> nat \<Rightarrow> ledger_err + Event list" where
  "readTailEvents s k = (if s = [] then Inr [] else decode_all (tail_lines k (tail_window s k (512 * 1024))))"

lemma split_nl_line: "NL \<notin> set l \<Longrightarrow> split_nl (l @ NL # s) = l # split_nl s"
  by (induction l) auto

lemma split_nl_text: "list_all (\<lambda>l. NL \<notin> set l) ls \<Longrightarrow> split_nl (text_of ls) = ls @ [[]]"
  by (induction ls) (simp_all add: split_nl_line)

lemma tail_lines_text:
  assumes "list_all2 stored es ls"
  shows "tail_lines k (text_of ls) = drop (length ls - (k + 1)) ls"
proof -
  have s: "list_all (\<lambda>l. NL \<notin> set l \<and> TrimSpace l = l \<and> l \<noteq> []) ls"
    using assms by (induction rule: list_all2_induct) (simp_all add: stored_line)
  have "split_nl (text_of ls) = ls @ [[]]" by (rule split_nl_text, rule list.pred_mono_strong [OF s]) simp
  moreover have "filter (\<lambda>l. l \<noteq> []) (map TrimSpace ls) = ls" using s by (induction ls) auto
  ultimately show ?thesis by (simp add: tail_lines_def Let_def)
qed

lemma text_suffix:
  assumes "text_of ls = pre @ NL # rest" "list_all (\<lambda>l. NL \<notin> set l) ls"
  shows "\<exists>j. rest = text_of (drop j ls)"
  using assms
proof (induction ls arbitrary: pre)
  case (Cons l ls)
  show ?case
  proof (cases "length pre < length (l @ [NL])")
    case True
    then have "length pre = length l \<or> length pre < length l" by auto
    then show ?thesis
    proof
      assume "length pre = length l"
      then have "rest = text_of ls" using Cons.prems(1) by simp
      then show ?thesis by (intro exI [of _ 1]) simp
    next
      assume lt: "length pre < length l"
      have "(l @ NL # text_of ls) ! length pre = (pre @ NL # rest) ! length pre" using Cons.prems(1) by simp
      then have "l ! length pre = NL" using lt by (simp add: nth_append)
      then show ?thesis using Cons.prems(2) lt by (auto dest: nth_mem)
    qed
  next
    case False
    have "(l @ [NL]) @ text_of ls = pre @ (NL # rest)" using Cons.prems(1) by simp
    then obtain us where us: "l @ [NL] = pre @ us \<or> (l @ [NL]) @ us = pre" unfolding append_eq_append_conv2 by blast
    have "\<exists>p. pre = (l @ [NL]) @ p"
    proof (cases "(l @ [NL]) @ us = pre")
      case False
      then have e: "l @ [NL] = pre @ us" using us by blast
      then have "length (l @ [NL]) = length pre + length us" by (simp only: length_append)
      then have "us = []" using \<open>\<not> length pre < length (l @ [NL])\<close> by simp
      then show ?thesis using e by (intro exI [of _ "[]"]) simp
    qed blast
    then obtain p where p: "pre = (l @ [NL]) @ p" ..
    then have "text_of ls = p @ NL # rest" using Cons.prems(1) by simp
    with Cons.IH [OF this] Cons.prems(2) obtain j where "rest = text_of (drop j ls)" by auto
    then show ?thesis by (intro exI [of _ "Suc j"]) simp
  qed
qed simp

lemma count_text: "list_all (\<lambda>l. NL \<notin> set l) ls \<Longrightarrow> count_list (text_of ls) NL = length ls"
  by (induction ls) (simp_all add: count_notin)

lemma tail_window_text:
  assumes "list_all (\<lambda>l. NL \<notin> set l) ls" "0 < win"
  shows "\<exists>j. tail_window (text_of ls) k win = text_of (drop j ls) \<and> (j = 0 \<or> k + 1 \<le> length (drop j ls))"
  using assms(2)
proof (induction "text_of ls" k win rule: tail_window.induct)
  case (1 k win)
  let ?s = "text_of ls"
  let ?buf = "drop (length ?s - win) ?s"
  show ?case
  proof (cases "length ?s \<le> win")
    case True
    then show ?thesis by (intro exI [of _ 0]) (simp add: tail_window.simps [of ?s k win])
  next
    case False
    show ?thesis
    proof (cases "k + 2 \<le> count_list ?buf NL")
      case enough: True
      then obtain a rest where c: "cut_at NL ?buf = Some (a, rest)"
        by (cases "cut_at NL ?buf") (auto simp: cut_at_None count_notin)
      have b: "?buf = a @ NL # rest" "NL \<notin> set a" using cut_at_Some [OF c] by auto
      then have "?s = (take (length ?s - win) ?s @ a) @ NL # rest" by (metis append.assoc append_take_drop_id)
      then obtain j where j: "rest = text_of (drop j ls)" using text_suffix assms(1) by blast
      have "count_list rest NL = length (drop j ls)"
        unfolding j by (rule count_text) (use assms(1) in \<open>auto simp: list_all_iff dest: in_set_dropD\<close>)
      moreover have "k + 2 \<le> Suc (count_list rest NL)" using enough b by (simp add: count_notin)
      ultimately have "k + 1 \<le> length (drop j ls)" by simp
      then show ?thesis using False enough c j by (intro exI [of _ j]) (simp add: tail_window.simps [of ?s k win])
    next
      case more: False
      have "\<exists>j. tail_window ?s k (win * 2) = text_of (drop j ls) \<and> (j = 0 \<or> k + 1 \<le> length (drop j ls))"
        using "1.hyps" [OF refl] False more "1.prems" by simp
      moreover have "tail_window ?s k win = tail_window ?s k (win * 2)"
        using False more "1.prems" by (simp add: tail_window.simps [of ?s k win])
      ultimately show ?thesis by simp
    qed
  qed
qed

lemma decode_all_stored: "list_all2 stored es ls \<Longrightarrow> decode_all ls = Inr es"
  by (induction rule: list_all2_induct) (simp_all add: stored_line)

text \<open>The window is never too small: what is read are the last \<open>k + 1\<close> records of the whole file.\<close>

lemma readTailEvents_text:
  assumes "list_all2 stored es ls"
  shows "readTailEvents (text_of ls) k = Inr (drop (length es - (k + 1)) es)"
proof (cases "ls = []")
  case True
  then show ?thesis using assms by (simp add: readTailEvents_def)
next
  case False
  have n: "list_all (\<lambda>l. NL \<notin> set l) ls" using assms by (induction rule: list_all2_induct) (simp_all add: stored_line)
  obtain j where j: "tail_window (text_of ls) k (512 * 1024) = text_of (drop j ls)" "j = 0 \<or> k + 1 \<le> length (drop j ls)"
    using tail_window_text [OF n, of "512 * 1024" k] by auto
  have d: "list_all2 stored (drop j es) (drop j ls)" using assms by (rule list_all2_dropI)
  have len: "length es = length ls" using assms by (rule list_all2_lengthD)
  have "drop (length (drop j ls) - (k + 1)) (drop j ls) = drop (length ls - (k + 1)) ls"
    using j(2) by (auto simp: add.commute)
  then have "decode_all (tail_lines k (text_of (drop j ls))) = decode_all (drop (length ls - (k + 1)) ls)"
    using tail_lines_text [OF d] by simp
  also have "\<dots> = Inr (drop (length es - (k + 1)) es)" using decode_all_stored [OF list_all2_dropI [OF assms]] len by simp
  finally show ?thesis using False j(1) by (cases ls) (simp_all add: readTailEvents_def)
qed

text \<open>
  \<open>completeTailEnd\<close>: where the complete lines end. A last line without its line feed is torn, unless
  it is nothing but white space.
\<close>

definition completeTailEnd :: "bytes \<Rightarrow> nat" where
  "completeTailEnd s = (if s = [] \<or> last s = NL then length s
     else let e = length s - length (takeWhile (\<lambda>c. c \<noteq> NL) (rev s)) in
       if list_all (\<lambda>r. r \<in> set space_runes) (runes (drop e s)) then length s else e)"

lemma text_ends: "text_of ls = [] \<or> last (text_of ls) = NL"
  by (induction ls rule: rev_induct) simp_all

lemma completeTailEnd_text: "completeTailEnd (text_of ls) = length (text_of ls)"
  using text_ends [of ls] by (auto simp: completeTailEnd_def)

lemma completeTailEnd_torn:
  assumes "NL \<notin> set (c # torn)" "solid c"
  shows "completeTailEnd (text_of ls @ c # torn) = length (text_of ls)"
proof -
  let ?s = "text_of ls @ c # torn"
  have l: "last ?s \<noteq> NL" using assms(1) by (metis last_appendR last_in_set list.distinct(1))
  have a: "takeWhile (\<lambda>c. c \<noteq> NL) (rev (c # torn)) = rev (c # torn)"
    using assms(1) by (intro takeWhile_eq_all_conv [THEN iffD2]) auto
  have "takeWhile (\<lambda>c. c \<noteq> NL) (rev ?s) = rev (c # torn)"
  proof (cases "ls = []")
    case True
    then show ?thesis using a by simp
  next
    case False
    then have "text_of ls \<noteq> []" by (cases ls) simp_all
    then have "\<exists>t. rev (text_of ls) = NL # t" using text_ends [of ls] by (cases "text_of ls" rule: rev_cases) auto
    then obtain t where t: "rev (text_of ls) = NL # t" ..
    have "takeWhile (\<lambda>c. c \<noteq> NL) (rev (c # torn) @ rev (text_of ls)) = rev (c # torn) @ takeWhile (\<lambda>c. c \<noteq> NL) (rev (text_of ls))"
      using assms(1) by (intro takeWhile_append2) auto
    then show ?thesis by (simp add: t)
  qed
  then have e: "length ?s - length (takeWhile (\<lambda>c. c \<noteq> NL) (rev ?s)) = length (text_of ls)" by simp
  have "runes (c # torn) = bval c # runes torn" using assms(2) by (subst runes.simps) (simp add: solid_def DecodeRune_ascii)
  moreover have "bval c \<notin> set space_runes" using assms(2) by (auto simp: solid_def space_runes_def)
  ultimately show ?thesis using l e by (simp add: completeTailEnd_def Let_def)
qed

subsection \<open>Properties\<close>

text \<open>
  C38. Segment names are read exactly as they are written: a file name is taken for the segment of the
  records \<open>lo\<close> to \<open>hi\<close> if and only if it is the name the sealer gives that segment, and the range is a
  range of records. No second spelling of a name is ever accepted.
\<close>

theorem segment_name_exact:
  "parseSegmentName name = Some (lo, hi) \<longleftrightarrow> name = segmentName lo hi \<and> 0 < lo \<and> lo \<le> hi"
  using parse_segmentName parseSegmentName_Some by blast

text \<open>
  C37. The window at the end of the file is never too small: on a tail of stored records
  \<open>readTailEvents\<close>, which reads backwards in windows that double, returns exactly the last \<open>k + 1\<close>
  records of the whole file, or all of them when there are fewer.
\<close>

theorem tail_window_reads_last:
  assumes "list_all2 stored es ls"
  shows "readTailEvents (text_of ls) k = Inr (drop (length es - (k + 1)) es)"
  using assms by (rule readTailEvents_text)

definition sample_line :: bytes where
  "sample_line = (case MarshalJSON sample_event of Inr line \<Rightarrow> line | Inl _ \<Rightarrow> [])"

lemma sample_stored: "stored sample_event sample_line"
proof -
  obtain line where l: "MarshalJSON sample_event = Inr line" by (simp add: MarshalJSON_def sample_event_def)
  have "length line < 2000"
  proof -
    have "jsonString s = CHR 0x22 # s @ [CHR 0x22]" if "list_all plain_char s" for s
      using jsonString_plain [OF plain_field_ascii [OF that]] emit_plain [OF that] by simp
    then show ?thesis using l by (auto simp: MarshalJSON_def sample_event_def EntryBytes_def json_key_def plain_char_def list_all_iff
          format_int_def FormatUint_def format_nat.simps EventRing0Genesis_def)
  qed
  then show ?thesis using storable_stored [OF sample_storable(1) l] l
    by (simp add: sample_line_def sample_event_def MaxEventLineBytes_def)
qed

theorem tail_window_reads_last_witness:
  "readTailEvents (text_of [sample_line, sample_line]) 0 = Inr [sample_event]"
  using tail_window_reads_last [of "[sample_event, sample_event]" "[sample_line, sample_line]" 0] sample_stored by simp

end
