(* ===== verification/Ledger_Segment.thy ===== *)
theory Ledger_Segment
  imports Ledger_Lines "HOL-Library.Multiset"
begin

text \<open>
  Reading the containers of a ledger: \<open>streamSegment\<close>, \<open>overlapChecker\<close>, \<open>streamTail\<close>,
  \<open>segmentEnd\<close> of \<open>internal/ledger/container.go\<close> and \<open>streamLines\<close> of \<open>ledger.go\<close>. The
  records are those of the sealed segments, one after the other, and of the tail; a tail that still
  repeats the newest segment, after a seal that was interrupted, is checked against it record by
  record and delivered from where the segment ends.

  Gzip is a parameter: compression, and decompression to the bytes it yields and whether it ended
  well; \<open>None\<close> is a header it does not take. What is relied on is that the two are inverse.
\<close>

record gz =
  gzip :: "bytes \<Rightarrow> bytes"
  gunzip :: "bytes \<Rightarrow> (bytes \<times> bool) option"

definition gzip_laws :: "gz \<Rightarrow> bool" where
  "gzip_laws G \<longleftrightarrow> (\<forall>x. gunzip G (gzip G x) = Some (x, True))"

text \<open>
  Opening a file to read it line by line. A fault is a failed open, or a read that breaks off after a
  number of lines: a line that is cut short gives the reader no record either, only another error.
\<close>

definition os_Open :: "bytes \<Rightarrow> (bytes \<times> nat option) io" where
  "os_Open path w = (case next_fault w of (f, w') \<Rightarrow>
     if f = Some 0 then (Inl ErrIO, w')
     else (case contents w' path of None \<Rightarrow> (Inl ErrNotExist, w') | Some s \<Rightarrow> (Inr (s, map_option (\<lambda>n. n - 1) f), w')))"

definition lines_read :: "bytes \<Rightarrow> nat option \<Rightarrow> ledger_err option \<Rightarrow> bytes \<times> ledger_err option" where
  "lines_read s brk err = (case brk of None \<Rightarrow> (s, err) | Some m \<Rightarrow> (concat (take m (tokens s)), Some (IoErr ErrIO)))"

text \<open>The callback on a record: the event, its line and the line's number.\<close>

type_synonym 's event_fn = "Event \<Rightarrow> bytes \<Rightarrow> nat \<Rightarrow> 's \<Rightarrow> ledger_err option \<times> 's"

subsection \<open>Segments\<close>

definition segment_line :: "segment \<Rightarrow> 's event_fn \<Rightarrow> (Event option \<times> 's) line_fn" where
  "segment_line seg fn line offset sz at s = (case s of (lst, st) \<Rightarrow>
    (case decodeEvent line of Inl e \<Rightarrow> (Some e, s)
     | Inr evt0 \<Rightarrow>
       let evt = evt0\<lparr>sealed := True, closing := (Seq evt0 = s_last seg), container := s_path seg\<rparr> in
       if lst = None \<and> Seq evt \<noteq> s_first seg then (Some ErrSegmentSet, s)
       else (case fn evt line at st of (err, st') \<Rightarrow> (err, (Some evt, st')))))"

text \<open>Opening a segment: the file, the gzip header, and the lines behind it.\<close>

definition open_segment :: "gz \<Rightarrow> segment \<Rightarrow> world \<Rightarrow> (ledger_err + bytes \<times> ledger_err option) \<times> world" where
  "open_segment G seg w = (case os_Open (s_path seg) w of
      (Inl e, w') \<Rightarrow> (Inl (IoErr e), w')
    | (Inr (data, brk), w') \<Rightarrow> (case gunzip G data of None \<Rightarrow> (Inl GzipErr, w')
      | Some (text, ok) \<Rightarrow> (Inr (lines_read text brk (if ok then None else Some GzipErr)), w')))"

text \<open>What must hold of the last record of a segment.\<close>

definition segment_closes :: "segment \<Rightarrow> Event option \<Rightarrow> ledger_err option" where
  "segment_closes seg l = (case l of None \<Rightarrow> Some ErrSegmentWithoutHead
     | Some e \<Rightarrow> if Seq e \<noteq> s_last seg then Some ErrSegmentSet
        else if Type e \<noteq> EventSystemWitnessed \<or> Sig e = [] then Some ErrSegmentWithoutHead else None)"

definition streamSegment :: "gz \<Rightarrow> segment \<Rightarrow> 's event_fn \<Rightarrow> 's \<Rightarrow> world \<Rightarrow> (ledger_err option \<times> 's) \<times> world" where
  "streamSegment G seg fn st w = (case open_segment G seg w of
      (Inl e, w') \<Rightarrow> ((Some e, st), w')
    | (Inr r, w') \<Rightarrow> (case scanLines r (segment_line seg fn) (None, st) of
            (Some e, (_, st')) \<Rightarrow> ((Some e, st'), w')
          | (None, (l, st')) \<Rightarrow> ((segment_closes seg l, st'), w')))"

definition segmentEnd :: "gz \<Rightarrow> segment \<Rightarrow> 'sk prims \<Rightarrow> world \<Rightarrow> (ledger_err + uint64 \<times> bytes) \<times> world" where
  "segmentEnd G seg P w = (case streamSegment G seg (\<lambda>evt _ _ _. (None, (Seq evt, EntryHash P evt))) (0, []) w of
     ((Some e, _), w') \<Rightarrow> (Inl e, w') | ((None, r), w') \<Rightarrow> (Inr r, w'))"

text \<open>\<open>segmentFiles\<close> and \<open>listSegments\<close> on the directory.\<close>

definition segmentFiles :: "world \<Rightarrow> (ledger_err + segment list) \<times> world" where
  "segmentFiles w = (case os_ReadDir w of (Inl e, w') \<Rightarrow> (if e = ErrNotExist then Inr [] else Inl (IoErr e), w')
     | (Inr names, w') \<Rightarrow> (Inr (segments_in names), w'))"

definition listSegments :: "world \<Rightarrow> (ledger_err + segment list) \<times> world" where
  "listSegments w = (case segmentFiles w of (Inl e, w') \<Rightarrow> (Inl e, w')
     | (Inr segs, w') \<Rightarrow> (if contiguous 1 segs then Inr segs else Inl ErrSegmentSet, w'))"

text \<open>\<open>RecordArtifact\<close>: the file that shows a record exists; the empty name when there is none.\<close>

definition RecordArtifact :: "bytes \<Rightarrow> world \<Rightarrow> (ledger_err + bytes) \<times> world" where
  "RecordArtifact path w = (case os_Lstat path w of
      (Inr _, w1) \<Rightarrow> (Inr path, w1)
    | (Inl e, w1) \<Rightarrow> if e \<noteq> ErrNotExist then (Inl (IoErr e), w1)
        else (case listSegments w1 of (Inl e, w2) \<Rightarrow> (Inl e, w2)
          | (Inr segs, w2) \<Rightarrow> (Inr (case segs of [] \<Rightarrow> [] | s # _ \<Rightarrow> s_path s), w2)))"

text \<open>\<open>sweepDebris\<close> removes what an interrupted seal left under the names of temporary files.\<close>

definition is_debris :: "bytes \<Rightarrow> bool" where
  "is_debris n \<longleftrightarrow> has_suffix n tempSuffix \<and> (has_prefix n segmentTempPrefix \<or> has_prefix n tailTempPrefix)"

fun sweep_names :: "bytes list \<Rightarrow> world \<Rightarrow> io_err option \<times> world" where
  "sweep_names [] w = (None, w)"
| "sweep_names (n # ns) w = (if is_debris n then (case os_Remove n w of
        (Inl e, w') \<Rightarrow> if e = ErrNotExist then sweep_names ns w' else (Some e, w')
      | (Inr _, w') \<Rightarrow> sweep_names ns w')
     else sweep_names ns w)"

definition sweepDebris :: "world \<Rightarrow> ledger_err option \<times> world" where
  "sweepDebris w = (case os_ReadDir w of
      (Inl e, w') \<Rightarrow> (if e = ErrNotExist then None else Some (IoErr e), w')
    | (Inr names, w') \<Rightarrow> (case sweep_names names w' of (err, w'') \<Rightarrow> (map_option IoErr err, w'')))"

subsection \<open>The overlap of a tail with the newest segment\<close>

record overlapChecker =
  oc_toks :: "bytes list"
  oc_end :: "ledger_err option"
  oc_seg :: segment
  oc_next :: uint64
  oc_pending :: "Event option"

fun oc_read_toks :: "ledger_err option \<Rightarrow> bytes list \<Rightarrow> (ledger_err + Event option) \<times> bytes list" where
  "oc_read_toks err [] = (case err of None \<Rightarrow> Inr None | Some e \<Rightarrow> Inl e, [])"
| "oc_read_toks err (tok # toks) = (if \<not> fits tok then (Inl LineTooLong, [])
     else let line = TrimSpace tok in if line = [] then oc_read_toks err toks
       else (map_sum id Some (decodeEvent line), toks))"

definition oc_read :: "overlapChecker \<Rightarrow> (ledger_err + Event option) \<times> overlapChecker" where
  "oc_read oc = (case oc_pending oc of Some e \<Rightarrow> (Inr (Some e), oc\<lparr>oc_pending := None\<rparr>)
     | None \<Rightarrow> (case oc_read_toks (oc_end oc) (oc_toks oc) of (r, toks) \<Rightarrow> (r, oc\<lparr>oc_toks := toks\<rparr>)))"

text \<open>The loop of \<open>newOverlapChecker\<close>: read up to the record before \<open>from\<close>.\<close>

fun oc_seek :: "uint64 \<Rightarrow> ledger_err option \<Rightarrow> bytes list \<Rightarrow> ledger_err + Event option \<times> bytes list" where
  "oc_seek from err [] = Inl (case err of None \<Rightarrow> ErrSegmentSet | Some e \<Rightarrow> e)"
| "oc_seek from err (tok # toks) = (if \<not> fits tok then Inl LineTooLong
     else let line = TrimSpace tok in if line = [] then oc_seek from err toks
       else (case decodeEvent line of Inl e \<Rightarrow> Inl e
         | Inr evt \<Rightarrow> if Seq evt + 1 = from then Inr (None, toks)
             else if from \<le> Seq evt then (if Seq evt = from then Inr (Some evt, toks) else Inl ErrSegmentSet)
             else oc_seek from err toks))"

definition newOverlapChecker :: "gz \<Rightarrow> segment \<Rightarrow> uint64 \<Rightarrow> world \<Rightarrow> (ledger_err + overlapChecker) \<times> world" where
  "newOverlapChecker G seg from w = (case open_segment G seg w of
      (Inl e, w') \<Rightarrow> (Inl e, w')
    | (Inr (text, err), w') \<Rightarrow>
         (map_sum id (\<lambda>(pending, toks). \<lparr>oc_toks = toks, oc_end = err, oc_seg = seg, oc_next = from, oc_pending = pending\<rparr>)
            (oc_seek from err (tokens text)), w'))"

definition oc_check :: "'sk prims \<Rightarrow> Event \<Rightarrow> overlapChecker \<Rightarrow> (ledger_err + bool) \<times> overlapChecker" where
  "oc_check P tail oc = (if Seq tail \<noteq> oc_next oc then (Inl ErrTailConflict, oc)
     else (case oc_read oc of
        (Inl e, oc') \<Rightarrow> (Inl e, oc')
      | (Inr None, oc') \<Rightarrow> (Inl ErrSegmentSet, oc')
      | (Inr (Some kept), oc') \<Rightarrow>
          if Seq kept \<noteq> Seq tail \<or> EntryHash P kept \<noteq> EntryHash P tail then (Inl ErrTailConflict, oc')
          else (Inr (Seq tail = s_last (oc_seg oc')), oc'\<lparr>oc_next := oc_next oc' + 1\<rparr>)))"

subsection \<open>The tail\<close>

record tail_state =
  ts_world :: world
  ts_oc :: "overlapChecker option"
  ts_newest :: "segment option"
  ts_n :: nat

definition overlap_step :: "'sk prims \<Rightarrow> Event \<Rightarrow> overlapChecker \<Rightarrow> tail_state \<Rightarrow> ledger_err option \<times> tail_state" where
  "overlap_step P evt oc t = (case oc_check P evt oc of
      (Inl e, oc') \<Rightarrow> (Some e, t\<lparr>ts_oc := Some oc'\<rparr>)
    | (Inr finished, oc') \<Rightarrow>
        (None, if finished then t\<lparr>ts_oc := None, ts_newest := None\<rparr> else t\<lparr>ts_oc := Some oc'\<rparr>))"

definition tail_line :: "'sk prims \<Rightarrow> gz \<Rightarrow> bytes \<Rightarrow> 's event_fn \<Rightarrow> (tail_state \<times> 's) line_fn" where
  "tail_line P G path fn line offset sz at s = (case s of (t0, st) \<Rightarrow>
    (case decodeEvent line of Inl e \<Rightarrow> (Some (ErrRecordUnreadable e), s)
     | Inr evt0 \<Rightarrow>
       let evt = evt0\<lparr>container := path\<rparr>; t = t0\<lparr>ts_n := ts_n t0 + 1\<rparr> in
       (case ts_newest t of
          Some newest \<Rightarrow>
            if Seq evt \<le> s_last newest then
              (case ts_oc t of
                 Some oc \<Rightarrow> (case overlap_step P evt oc t of (err, t') \<Rightarrow> (err, (t', st)))
               | None \<Rightarrow>
                  if ts_n t \<noteq> 1 \<or> Seq evt < s_first newest then (Some ErrTailConflict, (t, st))
                  else (case newOverlapChecker G newest (Seq evt) (ts_world t) of
                      (Inl e, w') \<Rightarrow> (Some e, (t\<lparr>ts_world := w'\<rparr>, st))
                    | (Inr oc, w') \<Rightarrow> (case overlap_step P evt oc (t\<lparr>ts_world := w'\<rparr>) of (err, t') \<Rightarrow> (err, (t', st)))))
            else if ts_oc t \<noteq> None then (Some ErrTailConflict, (t, st))
            else (case fn evt line at st of (err, st') \<Rightarrow> (err, (t, st')))
        | None \<Rightarrow>
            if ts_oc t \<noteq> None then (Some ErrTailConflict, (t, st))
            else (case fn evt line at st of (err, st') \<Rightarrow> (err, (t, st'))))))"

definition streamTail ::
  "'sk prims \<Rightarrow> gz \<Rightarrow> bytes \<times> ledger_err option \<Rightarrow> bytes \<Rightarrow> segment option \<Rightarrow> 's event_fn \<Rightarrow> 's \<Rightarrow> world
     \<Rightarrow> (ledger_err option \<times> 's) \<times> world" where
  "streamTail P G r path newest fn st w =
    (case scanLines r (tail_line P G path fn) (\<lparr>ts_world = w, ts_oc = None, ts_newest = newest, ts_n = 0\<rparr>, st) of
       (err, (t, st')) \<Rightarrow> ((err, st'), ts_world t))"

subsection \<open>All records\<close>

fun stream_segments :: "gz \<Rightarrow> 's event_fn \<Rightarrow> segment list \<Rightarrow> 's \<Rightarrow> world \<Rightarrow> (ledger_err option \<times> 's) \<times> world" where
  "stream_segments G fn [] st w = ((None, st), w)"
| "stream_segments G fn (seg # segs) st w = (case streamSegment G seg fn st w of
      ((Some e, st'), w') \<Rightarrow> ((Some e, st'), w')
    | ((None, st'), w') \<Rightarrow> stream_segments G fn segs st' w')"

text \<open>
  \<open>streamLines\<close>. Without a tail given, the tail is the ledger file. A callback ends the stream well
  with \<open>ErrStop\<close>, which no other step of the stream returns.
\<close>

definition streamLines ::
  "'sk prims \<Rightarrow> gz \<Rightarrow> bytes \<Rightarrow> (bytes \<times> ledger_err option) option \<Rightarrow> 's event_fn \<Rightarrow> 's \<Rightarrow> world
     \<Rightarrow> (ledger_err option \<times> 's) \<times> world" where
  "streamLines P G path tail fn st w =
    (case listSegments w of (Inl e, w1) \<Rightarrow> ((Some e, st), w1)
     | (Inr segs, w1) \<Rightarrow> (case stream_segments G fn segs st w1 of
         ((Some e, st'), w2) \<Rightarrow> ((if e = ErrStop then None else Some e, st'), w2)
       | ((None, st'), w2) \<Rightarrow>
          (case (case tail of Some r \<Rightarrow> (Inr r, w2)
                 | None \<Rightarrow> (case os_Open path w2 of (Inl e, w3) \<Rightarrow> (Inl e, w3)
                     | (Inr (data, brk), w3) \<Rightarrow> (Inr (lines_read data brk None), w3))) of
             (Inl e, w3) \<Rightarrow> ((Some (IoErr e), st'), w3)
           | (Inr r, w3) \<Rightarrow> (case streamTail P G r path (if segs = [] then None else Some (last segs)) fn st' w3 of
               ((Some e, st''), w4) \<Rightarrow> ((if e = ErrStop then None else Some e, st''), w4)
             | ((None, st''), w4) \<Rightarrow> ((None, st''), w4)))))"

text \<open>\<open>ReadAll\<close>, and the stream as a source of records: what it delivers and the error it ends with.\<close>

definition collect :: "Event list event_fn" where
  "collect evt line at acc = (None, acc @ [evt])"

definition stream_source ::
  "'sk prims \<Rightarrow> gz \<Rightarrow> bytes \<Rightarrow> (bytes \<times> ledger_err option) option \<Rightarrow> world \<Rightarrow> (Event list \<times> ledger_err option) \<times> world" where
  "stream_source P G path tail w = (case streamLines P G path tail collect [] w of ((err, evs), w') \<Rightarrow> ((evs, err), w'))"

definition ReadAll :: "'sk prims \<Rightarrow> gz \<Rightarrow> bytes \<Rightarrow> world \<Rightarrow> (ledger_err + Event list) \<times> world" where
  "ReadAll P G path w = (case stream_source P G path None w of
      ((evs, None), w') \<Rightarrow> (Inr evs, w') | ((evs, Some e), w') \<Rightarrow> (Inl e, w'))"

text \<open>\<open>VerifyChain\<close> and \<open>VerifyChainVisiting\<close>: the chain walk over the stored records.\<close>

definition VerifyChainVisiting ::
  "'sk prims \<Rightarrow> gz \<Rightarrow> bytes \<Rightarrow> bytes \<Rightarrow> 'h verify_head \<Rightarrow> 'h option \<Rightarrow> (Event \<Rightarrow> 'v \<Rightarrow> ledger_err option \<times> 'v) option \<Rightarrow> 'v \<Rightarrow> world
     \<Rightarrow> (verify_error + nat) \<times> ('h, 'v) walk" where
  "VerifyChainVisiting P G path pubKey VH hs visit v w =
     verifyChain P pubKey VH hs visit v (fst (stream_source P G path None w))"

subsection \<open>Runs of records\<close>

abbreviation nl :: "bytes \<Rightarrow> bytes" where
  "nl l \<equiv> l @ [NL]"

fun numbered :: "nat \<Rightarrow> Event list \<Rightarrow> bool" where
  "numbered n [] = True"
| "numbered n (e # es) = (unat (Seq e) = n \<and> numbered (Suc n) es)"

lemma numbered_append [simp]: "numbered n (xs @ ys) \<longleftrightarrow> numbered n xs \<and> numbered (n + length xs) ys"
  by (induction xs arbitrary: n) auto

lemma numbered_nth: "numbered n es \<Longrightarrow> i < length es \<Longrightarrow> unat (Seq (es ! i)) = n + i"
  by (induction es arbitrary: n i) (auto simp: nth_Cons split: nat.splits)

lemma numbered_last: "numbered n es \<Longrightarrow> es \<noteq> [] \<Longrightarrow> unat (Seq (last es)) = n + length es - 1"
  by (induction es arbitrary: n) (auto split: if_splits)

lemma numbered_drop: "numbered n es \<Longrightarrow> numbered (n + k) (drop k es)"
proof (induction es arbitrary: n k)
  case (Cons e es)
  then show ?case by (cases k) (use Cons.IH [of "Suc n"] Cons.prems in auto)
qed simp

lemma numbered_take: "numbered n es \<Longrightarrow> numbered n (take k es)"
  by (induction es arbitrary: n k) (auto simp: take_Cons split: nat.splits)

lemma numbered_mem: "numbered n es \<Longrightarrow> e \<in> set es \<Longrightarrow> n \<le> unat (Seq e) \<and> unat (Seq e) < n + length es"
  by (induction es arbitrary: n) fastforce+

lemma seq_eqI: "unat (a :: uint64) = unat b \<Longrightarrow> a = b"
  by (simp add: word_unat_eq_iff)

lemma stored_run:
  assumes "list_all2 stored es ls"
  shows "tokens (text_of ls) = map nl ls" "length ls = length es"
proof -
  have "list_all (\<lambda>l. NL \<notin> set l) ls" using assms by (induction) (simp_all add: stored_line)
  then show "tokens (text_of ls) = map nl ls" using tokens_text [of ls "[]"] by simp
  show "length ls = length es" using assms by (simp add: list_all2_lengthD)
qed

lemma concat_take_lines: "concat (take m (map nl ls)) = text_of (take m ls)"
  by (simp add: text_of_def take_map)

lemma scan_append:
  "scan_tokens fn offset at None ts st = (None, st') \<Longrightarrow>
     scan_tokens fn offset at err (ts @ us) st = scan_tokens fn (offset + length (concat ts)) (at + length ts) err us st'"
  by (induction ts arbitrary: offset at st) (auto simp: Let_def add.assoc split: if_splits prod.splits option.splits)

lemma scan_line:
  assumes "stored e l"
  shows "fn l offset (Suc (length l)) (Suc at) st = (None, st') \<Longrightarrow>
      scan_tokens fn offset at err (nl l # toks) st = scan_tokens fn (Suc (offset + length l)) (Suc at) err toks st'"
    "fn l offset (Suc (length l)) (Suc at) st = (Some x, st') \<Longrightarrow> scan_tokens fn offset at err (nl l # toks) st = (Some x, st')"
  using stored_line [OF assms] by simp_all

declare scan_tokens.simps(2) [simp del]

subsection \<open>Reading a segment\<close>

text \<open>A record as the stream of a segment delivers it.\<close>

definition in_segment :: "segment \<Rightarrow> Event \<Rightarrow> Event" where
  "in_segment seg e = e\<lparr>sealed := True, closing := (Seq e = s_last seg), container := s_path seg\<rparr>"

lemma segment_lines:
  assumes "list_all2 stored es ls" "numbered (unat (s_first seg) + k) es" "lst = None \<longleftrightarrow> k = 0"
  shows "scan_tokens (segment_line seg collect) offset at err (map nl ls) (lst, acc)
     = (err, (if es = [] then lst else Some (in_segment seg (last es)), acc @ map (in_segment seg) es))"
  using assms
proof (induction arbitrary: offset at lst acc k)
  case (Cons e es l ls)
  have "k = 0 \<Longrightarrow> Seq e = s_first seg" using Cons.prems by (intro seq_eqI) simp
  then have f: "\<not> (lst = None \<and> Seq e \<noteq> s_first seg)" using Cons.prems by auto
  have s: "segment_line seg collect l x y z (lst, acc) = (None, (Some (in_segment seg e), acc @ [in_segment seg e]))" for x y z
    using stored_line(6) [OF Cons.hyps(1)] f by (auto simp: segment_line_def collect_def in_segment_def Let_def)
  show ?case
    unfolding list.map scan_line(1) [OF Cons.hyps(1), of "segment_line seg collect", OF s]
    using Cons.IH [of "Suc k" "Some (in_segment seg e)"] Cons.prems by simp
qed simp

text \<open>What the file of a segment holds.\<close>

definition segment_holds :: "gz \<Rightarrow> world \<Rightarrow> segment \<Rightarrow> Event list \<Rightarrow> bool" where
  "segment_holds G w seg es \<longleftrightarrow> (\<exists>ls. contents w (s_path seg) = Some (gzip G (text_of ls)) \<and> list_all2 stored es ls)
     \<and> es \<noteq> [] \<and> numbered (unat (s_first seg)) es \<and> Seq (last es) = s_last seg
     \<and> Type (last es) = EventSystemWitnessed \<and> Sig (last es) \<noteq> []"

lemma os_Open_quiet: "plan w = [] \<Longrightarrow> contents w path = Some s \<Longrightarrow> os_Open path w = (Inr (s, None), w)"
  by (simp add: os_Open_def)

lemma streamSegment_holds:
  assumes "gzip_laws G" "segment_holds G w seg es" "plan w = []"
  shows "streamSegment G seg collect acc w = ((None, acc @ map (in_segment seg) es), w)"
proof -
  obtain ls where c: "contents w (s_path seg) = Some (gzip G (text_of ls))" "list_all2 stored es ls"
    using assms(2) by (auto simp: segment_holds_def)
  have "open_segment G seg w = (Inr (text_of ls, None), w)"
    using assms(1,3) c(1) by (simp add: open_segment_def os_Open_quiet gzip_laws_def lines_read_def)
  moreover have "scanLines (text_of ls, None) (segment_line seg collect) (None, acc)
      = (None, (Some (in_segment seg (last es)), acc @ map (in_segment seg) es))"
    using segment_lines [OF c(2), of seg 0 None] assms(2) stored_run [OF c(2)]
    by (simp add: scanLines_def segment_holds_def)
  moreover have "segment_closes seg (Some (in_segment seg (last es))) = None"
    using assms(2) by (simp add: segment_closes_def in_segment_def segment_holds_def)
  ultimately show ?thesis by (simp add: streamSegment_def)
qed

lemma stream_segments_holds:
  assumes "gzip_laws G" "list_all2 (segment_holds G w) segs ess" "plan w = []"
  shows "stream_segments G collect segs acc w = ((None, acc @ concat (map2 (\<lambda>seg. map (in_segment seg)) segs ess)), w)"
  using assms(2)
proof (induction arbitrary: acc)
  case (Cons seg segs es ess)
  show ?case using streamSegment_holds [OF assms(1) Cons.hyps(1) assms(3)] Cons.IH by simp
qed simp

subsection \<open>Reading a tail\<close>

definition oc_at :: "overlapChecker \<Rightarrow> Event list \<Rightarrow> bytes list \<Rightarrow> nat \<Rightarrow> bool" where
  "oc_at oc es ls i \<longleftrightarrow> (oc_pending oc = None \<and> oc_toks oc = map nl (drop i ls))
     \<or> (oc_pending oc = Some (es ! i) \<and> oc_toks oc = map nl (drop (Suc i) ls) \<and> i < length es)"

lemma oc_read_at:
  assumes "list_all2 stored es ls" "oc_at oc es ls i" "i < length es"
  obtains oc' where "oc_read oc = (Inr (Some (es ! i)), oc')" "oc_at oc' es ls (Suc i)"
    "oc_next oc' = oc_next oc" "oc_seg oc' = oc_seg oc" "oc_end oc' = oc_end oc"
proof (cases "oc_pending oc")
  case None
  have l: "length ls = length es" using assms(1) by (simp add: list_all2_lengthD)
  have s: "stored (es ! i) (ls ! i)" using assms(1,3) by (simp add: list_all2_conv_all_nth)
  have "drop i ls = ls ! i # drop (Suc i) ls" using assms(3) l by (simp add: Cons_nth_drop_Suc)
  then have "oc_toks oc = nl (ls ! i) # map nl (drop (Suc i) ls)" using assms(2) None by (auto simp: oc_at_def)
  then have "oc_read oc = (Inr (Some (es ! i)), oc\<lparr>oc_toks := map nl (drop (Suc i) ls)\<rparr>)"
    using None stored_line [OF s] by (simp add: oc_read_def)
  then show thesis by (rule that) (simp_all add: oc_at_def None)
next
  case (Some e)
  then have "e = es ! i" "oc_toks oc = map nl (drop (Suc i) ls)" using assms(2) by (auto simp: oc_at_def)
  then show thesis using Some by (intro that [of "oc\<lparr>oc_pending := None\<rparr>"]) (simp_all add: oc_read_def oc_at_def)
qed

lemma oc_read_end:
  assumes "oc_at oc es ls i" "length es \<le> i" "length ls = length es"
  shows "oc_read oc = (case oc_end oc of None \<Rightarrow> Inr None | Some e \<Rightarrow> Inl e, oc)"
  using assms by (auto simp: oc_at_def oc_read_def)

lemma seq_succ_iff:
  assumes "unat (a :: uint64) = n" "unat b = n + k"
  shows "a + 1 = b \<longleftrightarrow> k = 1"
proof
  assume ab: "a + 1 = b"
  then have "unat b = (n + 1) mod 2 ^ 64" using assms(1) by (simp add: unat_word_ariths flip: ab)
  moreover have "n < 2 ^ 64" using unsigned_less [of a, where ?'a = nat] assms(1) by simp
  ultimately show "k = 1" using assms(2) by (cases "n + 1 = 2 ^ 64") auto
next
  assume "k = 1"
  then have "unat (a + 1) = unat b" using assms unsigned_less [of b, where ?'a = nat] by (simp add: unat_word_ariths)
  then show "a + 1 = b" by (rule seq_eqI)
qed

lemma oc_seek_at:
  assumes "list_all2 stored es ls" "numbered n es" "unat from = n + k" "k < length es"
  shows "\<exists>p toks. oc_seek from err (map nl ls) = Inr (p, toks) \<and>
    (p = None \<and> toks = map nl (drop k ls) \<or> p = Some (es ! k) \<and> toks = map nl (drop (Suc k) ls))"
  using assms
proof (induction arbitrary: n k)
  case (Cons e es l ls)
  have n: "unat (Seq e) = n" using Cons.prems by simp
  consider "k = 0" | "k = 1" | m where "k = Suc (Suc m)" by (metis One_nat_def not0_implies_Suc)
  then show ?case
  proof cases
    case 1
    then have "Seq e = from" using n Cons.prems by (intro seq_eqI) simp
    then show ?thesis using 1 stored_line [OF Cons.hyps(1)] seq_succ_iff [OF n, of "from" k] Cons.prems by simp
  next
    case 2
    then show ?thesis using stored_line [OF Cons.hyps(1)] seq_succ_iff [OF n, of "from" k] Cons.prems by simp
  next
    case 3
    then have "\<not> from \<le> Seq e" using n Cons.prems by (simp add: word_le_nat_alt)
    then show ?thesis
      using 3 stored_line [OF Cons.hyps(1)] seq_succ_iff [OF n, of "from" k] Cons.prems Cons.IH [of "Suc n" "Suc m"] by simp
  qed
qed simp

lemma oc_seek_past:
  assumes "list_all2 stored es ls" "numbered n es" "unat from = n + k" "length es \<le> k" "length es < k \<or> es = []"
  shows "oc_seek from err (map nl ls) = Inl (case err of None \<Rightarrow> ErrSegmentSet | Some e \<Rightarrow> e)"
  using assms
proof (induction arbitrary: n k)
  case (Cons e es l ls)
  have n: "unat (Seq e) = n" using Cons.prems by simp
  obtain m where k: "k = Suc (Suc m)" using Cons.prems by (metis Suc_le_D Suc_lessD length_Cons lessE list.discI)
  then have "\<not> from \<le> Seq e" using n Cons.prems by (simp add: word_le_nat_alt)
  moreover have "Seq e + 1 \<noteq> from" using seq_succ_iff [OF n, of "from" k] k Cons.prems by simp
  ultimately show ?case
    using k stored_line [OF Cons.hyps(1)] Cons.prems Cons.IH [of "Suc n" "Suc m"] by simp
qed simp

lemma oc_check_at:
  assumes "list_all2 stored es ls" "oc_at oc es ls i" "i < length es" "oc_next oc = Seq e" "Seq (es ! i) = Seq e"
    "EntryHash P (es ! i) = EntryHash P e"
  obtains oc' where "oc_check P e oc = (Inr (Seq e = s_last (oc_seg oc)), oc')" "oc_at oc' es ls (Suc i)"
    "oc_next oc' = Seq e + 1" "oc_seg oc' = oc_seg oc" "oc_end oc' = oc_end oc"
proof -
  obtain oc' where r: "oc_read oc = (Inr (Some (es ! i)), oc')" "oc_at oc' es ls (Suc i)"
    "oc_next oc' = oc_next oc" "oc_seg oc' = oc_seg oc" "oc_end oc' = oc_end oc"
    using oc_read_at [OF assms(1-3)] by blast
  show thesis
    by (rule that [of "oc'\<lparr>oc_next := oc_next oc' + 1\<rparr>"]) (use r assms in \<open>auto simp: oc_check_def oc_at_def\<close>)
qed

definition in_tail :: "bytes \<Rightarrow> Event \<Rightarrow> Event" where
  "in_tail path e = e\<lparr>container := path\<rparr>"

definition beyond :: "segment option \<Rightarrow> Event \<Rightarrow> bool" where
  "beyond newest e \<longleftrightarrow> (case newest of None \<Rightarrow> True | Some seg \<Rightarrow> s_last seg < Seq e)"

lemma tail_plain:
  assumes "list_all2 stored es ls" "list_all (beyond (ts_newest t)) es" "ts_oc t = None"
  shows "scan_tokens (tail_line P G path collect) offset at err (map nl ls) (t, acc)
     = (err, (t\<lparr>ts_n := ts_n t + length es\<rparr>, acc @ map (in_tail path) es))"
  using assms
proof (induction arbitrary: offset at t acc)
  case (Cons e es l ls)
  let ?t = "t\<lparr>ts_n := ts_n t + 1\<rparr>"
  have s: "tail_line P G path collect l x y z (t, acc) = (None, (?t, acc @ [in_tail path e]))" for x y z
    using stored_line(6) [OF Cons.hyps(1)] Cons.prems
    by (auto simp: tail_line_def collect_def in_tail_def beyond_def Let_def split: option.splits)
  show ?case
    unfolding list.map scan_line(1) [OF Cons.hyps(1), of "tail_line P G path collect", OF s]
    using Cons.IH [of ?t] Cons.prems by simp
qed simp

lemma overlap_stepped:
  assumes "list_all2 stored ses sls" "oc_at oc ses sls i" "i < length ses" "numbered n ses"
    "unat (Seq e) = n + i" "oc_next oc = Seq e" "EntryHash P (ses ! i) = EntryHash P e" "s_last (oc_seg oc) = Seq (last ses)"
  shows "\<exists>oc'. overlap_step P e oc t = (None, if Suc i = length ses then t\<lparr>ts_oc := None, ts_newest := None\<rparr>
     else t\<lparr>ts_oc := Some oc'\<rparr>) \<and> oc_at oc' ses sls (Suc i) \<and> oc_next oc' = Seq e + 1 \<and> oc_seg oc' = oc_seg oc"
proof -
  have q: "Seq (ses ! i) = Seq e" using numbered_nth [OF assms(4,3)] assms(5) by (intro seq_eqI) simp
  obtain oc' where c: "oc_check P e oc = (Inr (Seq e = s_last (oc_seg oc)), oc')" "oc_at oc' ses sls (Suc i)"
    "oc_next oc' = Seq e + 1" "oc_seg oc' = oc_seg oc"
    using oc_check_at [OF assms(1-3,6) q assms(7)] by blast
  have "Seq e = Seq (last ses) \<longleftrightarrow> Suc i = length ses"
    using numbered_last [OF assms(4)] assms(3,5) by (cases "ses = []") (auto simp: word_unat_eq_iff)
  then show ?thesis using c assms(8) by (intro exI [of _ oc']) (simp add: overlap_step_def)
qed

lemma tail_overlapping:
  assumes "list_all2 stored ov ols" "list_all2 (\<lambda>a b. EntryHash P a = EntryHash P b) (drop i ses) ov"
    "list_all2 stored ses sls" "numbered n ses" "s_last seg = Seq (last ses)" "numbered (n + i) ov" "i < length ses"
    "ts_oc t = Some oc" "ts_newest t = Some seg" "oc_at oc ses sls i" "unat (oc_next oc) = n + i" "oc_seg oc = seg"
  shows "\<exists>m. scan_tokens (tail_line P G path collect) offset at None (map nl ols) (t, acc)
     = (None, (t\<lparr>ts_oc := None, ts_newest := None, ts_n := m\<rparr>, acc))"
  using assms(1,2,6-)
proof (induction arbitrary: i offset at t oc)
  case Nil
  then show ?case by simp
next
  case (Cons e es l ls)
  have d: "drop i ses = ses ! i # drop (Suc i) ses" using Cons.prems(3) by (simp add: Cons_nth_drop_Suc)
  have u: "unat (Seq e) = n + i" using Cons.prems(2) by simp
  have nx: "oc_next oc = Seq e" using Cons.prems(7) u by (intro seq_eqI) simp
  have le: "Seq e \<le> s_last seg"
    using numbered_last [OF assms(4)] u Cons.prems(3) assms(5) by (fastforce simp: word_le_nat_alt)
  let ?t = "t\<lparr>ts_n := ts_n t + 1\<rparr>"
  have h: "EntryHash P (in_tail path x) = EntryHash P x" "Seq (in_tail path x) = Seq x" for x
    by (simp_all add: in_tail_def EntryHash_def entrySum_def EntryBytes_def)
  obtain oc' where o': "overlap_step P (in_tail path e) oc ?t =
      (None, if Suc i = length ses then ?t\<lparr>ts_oc := None, ts_newest := None\<rparr> else ?t\<lparr>ts_oc := Some oc'\<rparr>)"
     "oc_at oc' ses sls (Suc i)" "oc_next oc' = Seq e + 1" "oc_seg oc' = seg"
    using overlap_stepped [OF assms(3) Cons.prems(6,3) assms(4), of "in_tail path e" P ?t] u nx Cons.prems(1,8) assms(5) d h by auto
  have s: "tail_line P G path collect l x y z (t, acc) =
      (None, (if Suc i = length ses then ?t\<lparr>ts_oc := None, ts_newest := None\<rparr> else ?t\<lparr>ts_oc := Some oc'\<rparr>, acc))" for x y z
    using stored_line(6) [OF Cons.hyps(1)] Cons.prems(4,5) le o'(1)
    by (simp add: tail_line_def Let_def h flip: in_tail_def)
  show ?case
  proof (cases "Suc i = length ses")
    case True
    then have "es = []" "ls = []" using Cons.prems(1) d Cons.hyps(2) by auto
    then show ?thesis
      unfolding list.map scan_line(1) [OF Cons.hyps(1), of "tail_line P G path collect", OF s] using True
      by (intro exI [of _ "ts_n t + 1"]) simp
  next
    case False
    have "unat (Seq e + 1) = n + Suc i" 
      using numbered_nth [OF assms(4), of "Suc i"] False Cons.prems(3) u unsigned_less [of "Seq (ses ! Suc i)", where ?'a = nat]
      by (simp add: unat_word_ariths)
    then show ?thesis
      unfolding list.map scan_line(1) [OF Cons.hyps(1), of "tail_line P G path collect", OF s]
      using Cons.IH [of "Suc i" "?t\<lparr>ts_oc := Some oc'\<rparr>" oc'] False Cons.prems o' d by auto
  qed
qed

lemma streamTail_plain:
  assumes "list_all2 stored es ls" "list_all (beyond newest) es"
  shows "streamTail P G (text_of ls, err) path newest collect acc w = ((err, acc @ map (in_tail path) es), w)"
  using tail_plain [OF assms(1), of "\<lparr>ts_world = w, ts_oc = None, ts_newest = newest, ts_n = 0\<rparr>" P G path 0 0 err acc] assms(2) stored_run [OF assms(1)]
  by (simp add: streamTail_def scanLines_def)

lemma newOverlapChecker_quiet:
  assumes "gzip_laws G" "contents w (s_path seg) = Some (gzip G (text_of sls))" "list_all2 stored ses sls" "plan w = []"
    "numbered n ses" "unat from = n + k" "k < length ses"
  obtains oc where "newOverlapChecker G seg from w = (Inr oc, w)" "oc_at oc ses sls k" "oc_next oc = from" "oc_seg oc = seg"
proof -
  have s: "open_segment G seg w = (Inr (text_of sls, None), w)"
    using assms(1,2,4) by (simp add: open_segment_def os_Open_quiet gzip_laws_def lines_read_def)
  obtain p toks where q: "oc_seek from None (map nl sls) = Inr (p, toks)"
    "p = None \<and> toks = map nl (drop k sls) \<or> p = Some (ses ! k) \<and> toks = map nl (drop (Suc k) sls)"
    using oc_seek_at [OF assms(3,5-7)] by blast
  show thesis
    by (rule that [of "\<lparr>oc_toks = toks, oc_end = None, oc_seg = seg, oc_next = from, oc_pending = p\<rparr>"])
      (use s q stored_run [OF assms(3)] assms(7) in \<open>auto simp: newOverlapChecker_def oc_at_def\<close>)
qed

lemma streamTail_overlap:
  assumes "gzip_laws G" "segment_holds G w seg ses" "plan w = []" "list_all2 stored (ov @ new) ls" "k < length ses"
    "numbered (unat (s_first seg) + k) (ov @ new)" "list_all2 (\<lambda>a b. EntryHash P a = EntryHash P b) (drop k ses) ov"
  shows "streamTail P G (text_of ls, None) path (Some seg) collect acc w = ((None, acc @ map (in_tail path) new), w)"
proof -
  let ?n = "unat (s_first seg)"
  obtain sls where c: "contents w (s_path seg) = Some (gzip G (text_of sls))" "list_all2 stored ses sls"
    and g: "numbered ?n ses" "s_last seg = Seq (last ses)"
    using assms(2) by (auto simp: segment_holds_def)
  obtain ols nls where l: "ls = ols @ nls" "list_all2 stored ov ols" "list_all2 stored new nls"
    using assms(4) by (auto simp: list_all2_append1)
  obtain e ov' where ov: "ov = e # ov'" using assms(5,7) by (cases ov) auto
  obtain f fs where ol: "ols = f # fs" "stored e f" using l(2) ov by (auto simp: list_all2_Cons1)
  have u: "unat (Seq e) = ?n + k" using assms(6) ov by simp
  obtain oc where oc: "newOverlapChecker G seg (Seq e) w = (Inr oc, w)" "oc_at oc ses sls k" "oc_next oc = Seq e" "oc_seg oc = seg"
    using newOverlapChecker_quiet [OF assms(1) c assms(3) g(1) u assms(5)] by blast
  let ?t0 = "\<lparr>ts_world = w, ts_oc = None, ts_newest = Some seg, ts_n = 0\<rparr>"
  let ?t1 = "\<lparr>ts_world = w, ts_oc = Some oc, ts_newest = Some seg, ts_n = 0\<rparr>"
  have le: "Seq e \<le> s_last seg" "\<not> Seq e < s_first seg"
    using numbered_last [OF g(1)] u assms(5) g(2) by (fastforce simp: word_le_nat_alt word_less_nat_alt)+
  have one: "tail_line P G path collect f x y z (?t0, acc) = tail_line P G path collect f x y z (?t1, acc)" for x y z
    using stored_line(6) [OF ol(2)] oc(1) le
    by (simp add: tail_line_def Let_def overlap_step_def split: prod.split sum.split)
  have head: "scan_tokens (tail_line P G path collect) 0 0 err (map nl ls) (?t0, acc)
      = scan_tokens (tail_line P G path collect) 0 0 err (map nl ls) (?t1, acc)" for err
    unfolding l(1) ol(1) append_Cons list.map scan_tokens.simps(2)
    using stored_line [OF ol(2)] one by simp
  obtain m where "scan_tokens (tail_line P G path collect) 0 0 None (map nl ols) (?t1, acc)
     = (None, (?t1\<lparr>ts_oc := None, ts_newest := None, ts_n := m\<rparr>, acc))"
    using tail_overlapping [OF l(2) assms(7) c(2) g _ assms(5), of ?t1 oc G path 0 0 acc] assms(6) oc u by auto
  note * = scan_append [OF this]
  have "scan_tokens (tail_line P G path collect) 0 0 None (map nl ls) (?t0, acc)
      = scan_tokens (tail_line P G path collect) (0 + length (concat (map nl ols))) (0 + length (map nl ols)) None (map nl nls)
         (?t1\<lparr>ts_oc := None, ts_newest := None, ts_n := m\<rparr>, acc)"
    unfolding head unfolding l(1) map_append by (rule *)
  also have "\<dots> = (None, (?t1\<lparr>ts_oc := None, ts_newest := None, ts_n := m + length new\<rparr>, acc @ map (in_tail path) new))"
    by (subst tail_plain [OF l(3)]) (simp_all add: beyond_def list_all_iff)
  finally show ?thesis
    using stored_run [OF assms(4)] by (simp add: streamTail_def scanLines_def)
qed

subsection \<open>Reading the store\<close>

lemma seq_less_succ: "(a :: uint64) + 1 \<noteq> 0 \<Longrightarrow> a < a + 1"
proof -
  assume "a + 1 \<noteq> 0"
  then have "unat (a + 1) \<noteq> 0" by (simp add: unat_eq_zero)
  moreover have "unat a < 2 ^ 64" using unsigned_less [of a, where ?'a = nat] by simp
  ultimately have "unat a + 1 < 2 ^ 64" by (cases "unat a + 1 = 2 ^ 64") (auto simp: unat_word_ariths)
  then show ?thesis by (simp add: word_less_nat_alt unat_word_ariths)
qed

lemma contiguous_first: "contiguous n ss \<Longrightarrow> list_all (\<lambda>s. s_first s \<noteq> 0 \<and> s_first s \<le> s_last s) ss \<Longrightarrow> s \<in> set ss \<Longrightarrow> n \<le> s_first s"
proof (induction ss arbitrary: n)
  case (Cons t ss)
  show ?case
  proof (cases "s = t")
    case False
    then have s: "s \<in> set ss" "contiguous (s_last t + 1) ss" "list_all (\<lambda>s. s_first s \<noteq> 0 \<and> s_first s \<le> s_last s) ss"
      using Cons.prems by simp_all
    then have "s_last t + 1 \<noteq> 0" by (cases ss) auto
    then show ?thesis using Cons.IH [OF s(2,3,1)] Cons.prems seq_less_succ [of "s_last t"] by auto
  qed (use Cons.prems in simp)
qed simp

lemma contiguous_sorted:
  "contiguous n ss \<Longrightarrow> list_all (\<lambda>s. s_first s \<noteq> 0 \<and> s_first s \<le> s_last s) ss \<Longrightarrow> sorted_wrt (\<lambda>a b. s_last a < s_first b) ss"
proof (induction ss arbitrary: n)
  case (Cons t ss)
  have s: "contiguous (s_last t + 1) ss" "list_all (\<lambda>s. s_first s \<noteq> 0 \<and> s_first s \<le> s_last s) ss" using Cons.prems by simp_all
  have "s_last t < s_first s" if "s \<in> set ss" for s
  proof -
    have "s_last t + 1 \<noteq> 0" using that s by (cases ss) auto
    then show ?thesis using contiguous_first [OF s that] seq_less_succ [of "s_last t"] by simp
  qed
  then show ?case using Cons.IH [OF s] by simp
qed simp

text \<open>The segments of the directory.\<close>

definition directory :: "world \<Rightarrow> segment list \<Rightarrow> bool" where
  "directory w segs \<longleftrightarrow> contiguous 1 segs \<and> (\<forall>s. s \<in> set segs \<longleftrightarrow> (\<exists>n. contents w n \<noteq> None \<and> segment_of n = Some s))"

lemma segment_of_Some: "segment_of n = Some s \<Longrightarrow> s_path s = n \<and> s_first s \<noteq> 0 \<and> s_first s \<le> s_last s"
  by (auto simp: segment_of_def parseSegmentName_def Let_def split: option.splits if_splits prod.splits)

lemma directory_sorted:
  assumes "directory w segs"
  shows "sorted_wrt (\<lambda>a b. s_last a < s_first b) segs" "list_all (\<lambda>s. s_first s \<noteq> 0 \<and> s_first s \<le> s_last s) segs"
proof -
  show "list_all (\<lambda>s. s_first s \<noteq> 0 \<and> s_first s \<le> s_last s) segs"
    using assms segment_of_Some by (fastforce simp: directory_def list_all_iff)
  then show "sorted_wrt (\<lambda>a b. s_last a < s_first b) segs"
    using assms contiguous_sorted by (auto simp: directory_def)
qed

lemma sorted_firsts:
  "sorted_wrt (\<lambda>a b. s_last a < s_first b) segs \<Longrightarrow> list_all (\<lambda>s. s_first s \<noteq> 0 \<and> s_first s \<le> s_last s) segs \<Longrightarrow>
     sorted (map s_first segs) \<and> distinct (map s_first segs)"
  by (induction segs) (auto simp: list_all_iff intro: order.trans less_imp_le dest: order.strict_trans1)

lemma map_filter_distinct: "distinct names \<Longrightarrow> distinct (List.map_filter segment_of names)"
  by (induction names) (auto simp: List.map_filter_def, metis option.sel segment_of_Some)

lemma listSegments_directory:
  assumes "directory w segs" "plan w = []"
  shows "listSegments w = (Inr segs, w)"
proof -
  let ?names = "sort (remdups (map fst (files w)))"
  let ?found = "List.map_filter segment_of ?names"
  have "set ?found = set segs"
    using assms(1) by (auto simp: directory_def List.map_filter_def contents_def map_of_eq_None_iff image_iff)
      (metis (no_types, lifting) fst_conv option.sel)+
  moreover have f: "sorted (map s_first segs)" "distinct (map s_first segs)"
    using sorted_firsts directory_sorted [OF assms(1)] by blast+
  ultimately have "mset ?found = mset segs"
    using map_filter_distinct [of ?names] set_eq_iff_mset_eq_distinct [of ?found segs] by (simp add: distinct_map)
  then have "segments_in ?names = segs"
    unfolding segments_in_def using f by (intro sort_key_inj_key_eq) (auto simp: distinct_map dest: mset_eq_setD)
  then show ?thesis using assms by (simp add: listSegments_def segmentFiles_def os_ReadDir_def directory_def)
qed

definition same_record :: "'sk prims \<Rightarrow> Event \<Rightarrow> Event \<Rightarrow> bool" where
  "same_record P a b \<longleftrightarrow> Seq a = Seq b \<and> EntryHash P a = EntryHash P b"

text \<open>
  The directory of a ledger: its segments, the records they hold, and the records \<open>es\<close> beyond them
  that are in the tail. The tail may begin with \<open>ov\<close>, a repetition of the end of the newest segment.
\<close>

definition tail_holds :: "'sk prims \<Rightarrow> bytes \<Rightarrow> world \<Rightarrow> Event list list \<Rightarrow> Event list \<Rightarrow> Event list \<Rightarrow> bool" where
  "tail_holds P path w ess ov es \<longleftrightarrow> (\<exists>ls. contents w path = Some (text_of ls) \<and> list_all2 stored (ov @ es) ls)
     \<and> (ov = [] \<or> ess \<noteq> [] \<and> (\<exists>k < length (last ess). list_all2 (same_record P) (drop k (last ess)) ov))"

definition store :: "'sk prims \<Rightarrow> gz \<Rightarrow> bytes \<Rightarrow> world \<Rightarrow> segment list \<Rightarrow> Event list list \<Rightarrow> Event list \<Rightarrow> Event list \<Rightarrow> bool" where
  "store P G path w segs ess ov es \<longleftrightarrow> directory w segs \<and> list_all2 (segment_holds G w) segs ess
     \<and> numbered 1 (concat ess @ es) \<and> tail_holds P path w ess ov es"

text \<open>The records as a reader is given them.\<close>

definition delivered :: "bytes \<Rightarrow> segment list \<Rightarrow> Event list list \<Rightarrow> Event list \<Rightarrow> Event list" where
  "delivered path segs ess es = concat (map2 (\<lambda>seg. map (in_segment seg)) segs ess) @ map (in_tail path) es"

lemma numbered_same: "list_all2 (same_record P) xs ys \<Longrightarrow> numbered n xs \<Longrightarrow> numbered n ys"
  by (induction arbitrary: n rule: list_all2_induct) (auto simp: same_record_def)

lemma newest_run:
  assumes "list_all2 (segment_holds G w) segs ess" "numbered 1 (concat ess @ es)" "segs \<noteq> []"
  shows "ess \<noteq> []" "segment_holds G w (last segs) (last ess)" "numbered (unat (s_last (last segs)) + 1) es"
    "unat (s_first (last segs)) + length (last ess) = unat (s_last (last segs)) + 1"
proof -
  show ne: "ess \<noteq> []" using assms(1,3) by auto
  obtain ss s where ss: "segs = ss @ [s]" using assms(3) by (cases segs rule: rev_cases) auto
  obtain fs f where fs: "ess = fs @ [f]" using ne by (cases ess rule: rev_cases) auto
  show h: "segment_holds G w (last segs) (last ess)" using assms(1) ss fs by (auto simp: list_all2_append1)
  then have f: "numbered (unat (s_first s)) f" "f \<noteq> []" "s_last s = Seq (last f)" using ss fs by (auto simp: segment_holds_def)
  have "numbered (1 + length (concat fs)) f" using assms(2) fs by simp
  then have a: "unat (s_first s) = 1 + length (concat fs)" using f(1,2) by (cases f) simp_all
  have "unat (s_last s) = unat (s_first s) + length f - 1" using numbered_last [OF f(1,2)] f(3) by simp
  moreover have "0 < length f" using f(2) by simp
  ultimately show "unat (s_first (last segs)) + length (last ess) = unat (s_last (last segs)) + 1" 
    "numbered (unat (s_last (last segs)) + 1) es" using assms(2) ss fs a by simp_all
qed

lemma streamTail_store:
  assumes "gzip_laws G" "list_all2 (segment_holds G w) segs ess" "numbered 1 (concat ess @ es)" "plan w = []" "list_all2 stored (ov @ es) ls"
    "ov = [] \<or> ess \<noteq> [] \<and> (\<exists>k < length (last ess). list_all2 (same_record P) (drop k (last ess)) ov)"
  shows "streamTail P G (text_of ls, None) path (if segs = [] then None else Some (last segs)) collect acc w
    = ((None, acc @ map (in_tail path) es), w)"
proof (cases "ov = []")
  case True
  have "list_all (beyond (if segs = [] then None else Some (last segs))) es"
    using newest_run(3) [OF assms(2,3)] numbered_mem by (fastforce simp: list_all_iff beyond_def word_less_nat_alt)
  moreover have "list_all2 stored es ls" using assms(5) True by simp
  ultimately show ?thesis by (rule streamTail_plain [rotated])
next
  case False
  obtain k where k: "k < length (last ess)" "list_all2 (same_record P) (drop k (last ess)) ov" "segs \<noteq> []"
    using assms(2,6) False by auto
  note nr = newest_run [OF assms(2,3) k(3)]
  have "numbered (unat (s_first (last segs)) + k) ov"
    using numbered_same [OF k(2)] numbered_drop nr(2) by (auto simp: segment_holds_def)
  moreover have "unat (s_first (last segs)) + k + length ov = unat (s_last (last segs)) + 1"
    using list_all2_lengthD [OF k(2)] k(1) nr(4) by simp
  ultimately have "numbered (unat (s_first (last segs)) + k) (ov @ es)" using nr(3) by simp
  moreover have "list_all2 (\<lambda>a b. EntryHash P a = EntryHash P b) (drop k (last ess)) ov"
    using k(2) by (rule list_all2_mono) (simp add: same_record_def)
  ultimately show ?thesis using streamTail_overlap [OF assms(1) nr(2) assms(4,5) k(1)] k(3) by simp
qed

text \<open>Both with the tail that is on disk and with a tail that is given.\<close>

lemma stream_source_tail:
  assumes "gzip_laws G" "directory w segs" "list_all2 (segment_holds G w) segs ess" "numbered 1 (concat ess @ es)" "plan w = []"
    "list_all2 stored (ov @ es) ls" "ov = [] \<or> ess \<noteq> [] \<and> (\<exists>k < length (last ess). list_all2 (same_record P) (drop k (last ess)) ov)"
  shows "stream_source P G path (Some (text_of ls, None)) w = ((delivered path segs ess es, None), w)"
  using listSegments_directory [OF assms(2,5)] stream_segments_holds [OF assms(1,3,5), of "[]"] streamTail_store [OF assms(1,3-7)]
  by (simp add: stream_source_def streamLines_def delivered_def)

lemma stream_source_store:
  assumes "gzip_laws G" "store P G path w segs ess ov es" "plan w = []"
  shows "stream_source P G path None w = ((delivered path segs ess es, None), w)"
proof -
  have d: "directory w segs" "list_all2 (segment_holds G w) segs ess" "numbered 1 (concat ess @ es)" "tail_holds P path w ess ov es"
    using assms(2) by (simp_all add: store_def)
  obtain ls where ls: "contents w path = Some (text_of ls)" "list_all2 stored (ov @ es) ls" using d(4) by (auto simp: tail_holds_def)
  have "ov = [] \<or> ess \<noteq> [] \<and> (\<exists>k < length (last ess). list_all2 (same_record P) (drop k (last ess)) ov)" using d(4) by (simp add: tail_holds_def)
  from streamTail_store [OF assms(1) d(2,3) assms(3) ls(2) this] show ?thesis
    using listSegments_directory [OF d(1) assms(3)] stream_segments_holds [OF assms(1) d(2) assms(3), of "[]"] ls(1) assms(3)
    by (simp add: stream_source_def streamLines_def os_Open_quiet lines_read_def delivered_def)
qed

end
