(* ===== verification/Ledger_Payload.thy ===== *)
theory Ledger_Payload
  imports Ledger_Event
begin

text \<open>
  Payloads (\<open>payloadObject\<close>, \<open>payloadModelID\<close>, \<open>stampModelID\<close> and \<open>preparePayload\<close> of
  \<open>internal/ledger/ledger.go\<close>). A payload is given as the text \<open>json.Marshal\<close> made of it. The runtime
  stamps the name of the model; a payload that brings one of its own is refused.
\<close>

subsection \<open>Printing a map of raw values\<close>

text \<open>What \<open>json.Marshal\<close> does to the characters that mean something to HTML.\<close>

fun html_escape :: "bytes \<Rightarrow> bytes" where
  "html_escape [] = []"
| "html_escape (c # s) = (if c = CHR ''<'' then CHR 0x5C # ''u003c'' else if c = CHR ''>'' then CHR 0x5C # ''u003e''
     else if c = CHR ''&'' then CHR 0x5C # ''u0026'' else [c]) @ html_escape s"

fun escape_separators :: "bytes \<Rightarrow> bytes" where
  "escape_separators (a # b # c # s) = (if a = CHR 0xE2 \<and> b = CHR 0x80 \<and> c = CHR 0xA8 then CHR 0x5C # ''u2028'' @ escape_separators s
     else if a = CHR 0xE2 \<and> b = CHR 0x80 \<and> c = CHR 0xA9 then CHR 0x5C # ''u2029'' @ escape_separators s
     else a # escape_separators (b # c # s))"
| "escape_separators s = s"

text \<open>A raw value is printed without the white space between its tokens.\<close>

fun strip_ws :: "bool \<Rightarrow> bool \<Rightarrow> bytes \<Rightarrow> bytes" where
  "strip_ws inString escaped [] = []"
| "strip_ws inString escaped (c # s) =
    (if \<not> inString then (if is_ws c then strip_ws False False s else c # strip_ws (c = CHR 0x22) False s)
     else if escaped then c # strip_ws True False s
     else c # strip_ws (c \<noteq> CHR 0x22) (c = CHR 0x5C) s)"

definition json_compact :: "bytes \<Rightarrow> bytes" where
  "json_compact raw = escape_separators (html_escape (strip_ws False False raw))"

definition Marshal_string :: "bytes \<Rightarrow> bytes" where
  "Marshal_string s = html_escape (jsonString s)"

text \<open>A map is printed in the order of its keys. Here it is the list of members a text had; a later one replaces an earlier.\<close>

definition map_get :: "bytes \<Rightarrow> (bytes \<times> bytes) list \<Rightarrow> bytes option" where
  "map_get k ms = map_of (rev ms) k"

definition Marshal_map :: "(bytes \<times> bytes) list \<Rightarrow> bytes" where
  "Marshal_map ms = CHR 0x7B # join_comma (map (\<lambda>k. Marshal_string k @ CHR '':'' # json_compact (the (map_get k ms)))
     (sort (remdups (map fst ms)))) @ [CHR 0x7D]"

subsection \<open>The operations\<close>

definition payloadObject :: "bytes \<Rightarrow> ledger_err + (bytes \<times> bytes) list" where
  "payloadObject payload = (case Unmarshal_object payload of Inr (Some ms) \<Rightarrow> Inr ms | _ \<Rightarrow> Inl PayloadNotObject)"

definition payloadModelID :: "bytes \<Rightarrow> ledger_err + bytes option" where
  "payloadModelID payload = sum_bind (payloadObject payload) (\<lambda>object.
     case map_get ''model_id'' object of None \<Rightarrow> Inr None
     | Some raw \<Rightarrow> (case scalar_field token_string [] ''model_id'' [(''model_id'', raw)] of
           Inl _ \<Rightarrow> Inl ModelIDNotString | Inr modelID \<Rightarrow> Inr (Some modelID)))"

definition stampModelID :: "bytes \<Rightarrow> bytes \<Rightarrow> ledger_err + bytes" where
  "stampModelID payload modelID = sum_bind (payloadObject payload) (\<lambda>object.
     if map_get ''model_id'' object \<noteq> None then Inl ErrModelIDOwned
     else if modelID = [] then Inr payload
     else Inr (Marshal_map (object @ [(''model_id'', Marshal_string modelID)])))"

definition preparePayload :: "bytes \<Rightarrow> bytes \<Rightarrow> ledger_err + bytes" where
  "preparePayload raw modelID = sum_bind (stampModelID raw modelID) (\<lambda>raw.
     case CanonicalizeV1 raw of Inl e \<Rightarrow> Inl (CanonicalErr e) | Inr canonical \<Rightarrow> Inr canonical)"

lemma preparePayload_canonical:
  assumes "preparePayload raw modelID = Inr p"
  shows "CanonicalizeV1 p = Inr p"
proof -
  obtain raw' where r: "(case CanonicalizeV1 raw' of Inl e \<Rightarrow> Inl (CanonicalErr e) | Inr canonical \<Rightarrow> Inr canonical) = Inr p"
    using assms by (auto simp: preparePayload_def)
  then have "CanonicalizeV1 raw' = Inr p" by (cases "CanonicalizeV1 raw'") simp_all
  then show ?thesis using canonicalize_Inr canonicalize_emit by metis
qed

lemma dec_Token_emit_kind:
  assumes "dec_Token (NewDecoder (emitCanonicalJSONValue v)) = Inr (TDelim (CHR 0x7B), d)" "wf_json v"
  shows "\<exists>ms. v = JObj ms"
  using assms
proof (cases v)
  case (JArr vs)
  then show ?thesis using assms by (simp add: NewDecoder_def)
next
  case (JStr s)
  then show ?thesis using assms token_emit_string by simp
next
  case (JNum s)
  then show ?thesis using assms token_number by simp
next
  case (JBool b)
  then show ?thesis using assms tok_keyword [of TokTop "[]" "[]"] by (cases b) (simp_all add: NewDecoder_def)
next
  case JNull
  then show ?thesis using assms tok_keyword [of TokTop "[]" "[]"] by (simp add: NewDecoder_def)
qed simp

lemma canonical_object:
  assumes "CanonicalizeV1 p = Inr p" "payloadObject p = Inr object"
  obtains ms where "p = emitCanonicalJSONValue (JObj ms)" "wf_json (JObj ms)"
proof -
  obtain v where v: "p = emitCanonicalJSONValue v" "wf_json v" using canonicalize_Inr [OF assms(1)] by blast
  have "\<exists>d. dec_Token (NewDecoder p) = Inr (TDelim (CHR 0x7B), d)"
    using assms(2) by (auto simp: payloadObject_def Unmarshal_object_def Decode_object_def
        split: sum.splits if_splits option.splits token.splits)
  then show thesis using dec_Token_emit_kind v that by blast
qed

end
