(* ===== verification/Go_Clock.thy ===== *)
theory Go_Clock
  imports Go_Time Crypto Go_Decode
begin

text \<open>
  \<open>time.Time.UTC().Format(time.RFC3339Nano)\<close>, the time stamps of \<open>nowUTC\<close> (\<open>internal/ledger/util.go\<close>),
  and that \<open>time.Parse\<close> reads them back.
\<close>

definition pad0 :: "nat \<Rightarrow> nat \<Rightarrow> bytes" where
  "pad0 k n = replicate (k - length (format_nat n)) (CHR ''0'') @ format_nat n"

text \<open>The year of a day counted from the start of year 1, and the day within that year.\<close>

definition year_day :: "nat \<Rightarrow> nat \<times> nat" where
  "year_day d = (let n400 = d div 146097; d1 = d mod 146097; n100 = d1 div 36524 - d1 div 36524 div 4; d2 = d1 - 36524 * n100;
      n4 = d2 div 1461; d3 = d2 mod 1461; n1 = d3 div 365 - d3 div 365 div 4
    in (400 * n400 + 100 * n100 + 4 * n4 + n1 + 1, d3 - 365 * n1))"

function month_day :: "nat \<Rightarrow> nat \<Rightarrow> nat \<Rightarrow> nat \<times> nat" where
  "month_day y m d = (if m < 12 \<and> days_in m y \<le> d then month_day y (m + 1) (d - days_in m y) else (m, d + 1))"
  by pat_completeness auto
termination
  by (relation "measure (\<lambda>(y, m, d). 12 - m)") auto

declare month_day.simps [simp del]

definition trim_zeros :: "bytes \<Rightarrow> bytes" where
  "trim_zeros s = rev (dropWhile (\<lambda>c. c = CHR ''0'') (rev s))"

definition format_fraction :: "nat \<Rightarrow> bytes" where
  "format_fraction ns = (if ns = 0 then [] else CHR ''.'' # trim_zeros (pad0 9 ns))"

definition FormatRFC3339Nano :: "nat \<Rightarrow> bytes" where
  "FormatRFC3339Nano t =
    (let secs = t div 1000000000; (y, yd) = year_day (secs div 86400); (m, d) = month_day y 1 yd; s = secs mod 86400
     in pad0 4 y @ CHR ''-'' # pad0 2 m @ CHR ''-'' # pad0 2 d @ CHR ''T'' # pad0 2 (s div 3600) @ CHR '':'' #
        pad0 2 (s mod 3600 div 60) @ CHR '':'' # pad0 2 (s mod 60) @ format_fraction (t mod 1000000000) @ [CHR ''Z''])"

lemma quotient_capped:
  assumes "(n :: nat) < 4 * k + j" "0 < k" "j \<le> k"
  shows "n div k - n div k div 4 \<le> 3" "k * (n div k - n div k div 4) \<le> n"
    "n - k * (n div k - n div k div 4) < (if n div k - n div k div 4 < 3 then k else k + j)"
proof -
  define x r where "x = n div k" and "r = n mod k"
  have n: "n = k * x + r" "r < k" using assms(2) by (simp_all add: x_def r_def)
  have "x \<le> 4"
  proof (rule ccontr)
    assume "\<not> x \<le> 4"
    then have "k * 5 \<le> k * x" by (intro mult_le_mono2) simp
    then show False using n assms by linarith
  qed
  then consider "x < 4" "x div 4 = 0" | "x = 4" "x div 4 = 1" by (cases "x = 4") auto
  then show "n div k - n div k div 4 \<le> 3" "k * (n div k - n div k div 4) \<le> n"
    "n - k * (n div k - n div k div 4) < (if n div k - n div k div 4 < 3 then k else k + j)"
    unfolding x_def [symmetric] using n assms by (cases; simp)+
qed

lemma year_day_correct:
  assumes "year_day d = (y, yd)"
  shows "days_before_year y + int yd = int d" "yd < (if is_leap y then 366 else 365)" "0 < y"
proof -
  define a where "a = d div 146097"
  define d1 where "d1 = d mod 146097"
  define b where "b = d1 div 36524 - d1 div 36524 div 4"
  define d2 where "d2 = d1 - 36524 * b"
  define c where "c = d2 div 1461"
  define d3 where "d3 = d2 mod 1461"
  define e where "e = d3 div 365 - d3 div 365 div 4"
  have y: "y = 400 * a + 100 * b + 4 * c + e + 1" "yd = d3 - 365 * e"
    using assms unfolding year_day_def Let_def a_def d1_def b_def d2_def c_def d3_def e_def by auto
  have d: "d = 146097 * a + d1" "d1 < 146097" by (simp_all add: a_def d1_def)
  have b: "b \<le> 3" "d1 = 36524 * b + d2" "b < 3 \<longrightarrow> d2 < 36524" "d2 \<le> 36524"
  proof -
    have j: "d1 < 4 * 36524 + 1" using d(2) by simp
    note q = quotient_capped [OF j, folded b_def d2_def]
    show "b \<le> 3" using q(1) by simp
    show "d1 = 36524 * b + d2" using q(2) unfolding d2_def by simp
    show "b < 3 \<longrightarrow> d2 < 36524" "d2 \<le> 36524" using q(3) by (simp_all split: if_splits)
  qed
  have c: "d2 = 1461 * c + d3" "d3 < 1461" by (simp_all add: c_def d3_def)
  have e: "e \<le> 3" "d3 = 365 * e + yd" "yd \<le> 365" "yd = 365 \<longrightarrow> e = 3"
  proof -
    have j: "d3 < 4 * 365 + 1" using c(2) by simp
    note q = quotient_capped [OF j, folded e_def]
    show "e \<le> 3" using q(1) by simp
    show "d3 = 365 * e + yd" using q(2) y(2) by simp
    show "yd \<le> 365" "yd = 365 \<longrightarrow> e = 3" using q(1,3) y(2) by (auto split: if_splits)
  qed
  have c24: "c \<le> 24" using c b by linarith
  define p where "p = 400 * int a + 100 * int b + 4 * int c + int e"
  have q: "p div 4 = 100 * int a + 25 * int b + int c" "p div 100 = 4 * int a + int b" "p div 400 = int a"
  proof -
    show "p div 4 = 100 * int a + 25 * int b + int c"
      by (rule int_div_pos_eq [of _ _ _ "int e"]) (use e(1) in \<open>simp_all add: p_def\<close>)
    show "p div 100 = 4 * int a + int b"
      by (rule int_div_pos_eq [of _ _ _ "4 * int c + int e"]) (use c24 e(1) in \<open>simp_all add: p_def\<close>)
    show "p div 400 = int a"
      by (rule int_div_pos_eq [of _ _ _ "100 * int b + 4 * int c + int e"]) (use b(1) c24 e(1) in \<open>simp_all add: p_def\<close>)
  qed
  show "days_before_year y + int yd = int d"
    using q d(1) b(2) c(1) e(2) unfolding days_before_year_def y(1) Let_def by (simp add: p_def algebra_simps)
  show "yd < (if is_leap y then 366 else 365)"
  proof (cases "yd = 365")
    case True
    then have e3: "e = 3" using e(4) by simp
    have "c = 24 \<longrightarrow> b = 3" using True e3 b c e(2) by auto
    moreover have "y = 4 * (100 * a + 25 * b + c + 1)" using e3 y(1) by simp
    then have "y mod 4 = 0" by simp
    moreover have "y mod 100 = 0 \<longrightarrow> c = 24"
    proof -
      have "y mod 100 = (100 * (4 * a + b) + (4 * c + 4)) mod 100" using e3 y(1) by (simp add: algebra_simps)
      then have "y mod 100 = (4 * c + 4) mod 100" by (simp only: mod_mult_self4)
      then show ?thesis using c24 by (cases "c = 24") auto
    qed
    moreover have "b = 3 \<longrightarrow> c = 24 \<longrightarrow> y mod 400 = 0" using e3 y(1) by auto
    ultimately have "is_leap y" by (auto simp: is_leap_def)
    then show ?thesis using True by simp
  qed (use e(3) in auto)
  show "0 < y" using y(1) by simp
qed

lemma year_day_year: "d < 3652059 \<Longrightarrow> fst (year_day d) \<le> 9999"
proof -
  assume "d < 3652059"
  obtain y yd where yd: "year_day d = (y, yd)" by fastforce
  have "\<not> 10000 \<le> y"
  proof
    assume "10000 \<le> y"
    define p where "p = int y - 1"
    have p: "9999 \<le> p" using \<open>10000 \<le> y\<close> by (simp add: p_def)
    have "p \<le> 4 * (p div 4) + 3" "100 * (p div 100) \<le> p" "p \<le> 400 * (p div 400) + 399" by auto
    moreover have "days_before_year y = 365 * p + p div 4 - p div 100 + p div 400" by (simp add: days_before_year_def p_def Let_def)
    moreover have "days_before_year y \<le> 3652058" using year_day_correct(1) [OF yd] \<open>d < 3652059\<close> by simp
    ultimately show False using p by linarith
  qed
  then show ?thesis using yd by simp
qed

lemma days_before_month_Suc: "0 < m \<Longrightarrow> days_before_month (Suc m) y = days_before_month m y + days_in m y"
  by (simp add: days_before_month_def)

lemma month_day_correct:
  "month_day y m d = (m', d') \<Longrightarrow> 1 \<le> m \<Longrightarrow> m \<le> 12 \<Longrightarrow> days_before_month m y + d < days_before_month 13 y \<Longrightarrow>
     1 \<le> m' \<and> m' \<le> 12 \<and> 1 \<le> d' \<and> d' \<le> days_in m' y \<and> days_before_month m' y + d' = days_before_month m y + d + 1"
proof (induction y m d rule: month_day.induct)
  case (1 y m d)
  show ?case
  proof (cases "m < 12 \<and> days_in m y \<le> d")
    case True
    then have "month_day y (m + 1) (d - days_in m y) = (m', d')" using 1(2) by (simp add: month_day.simps [of y m])
    then show ?thesis using 1(1) [OF True] True 1(3-) days_before_month_Suc [of m y] by auto
  next
    case False
    then have r: "m' = m" "d' = d + 1" using 1(2) by (auto simp: month_day.simps [of y m])
    moreover have "d < days_in m y"
    proof (cases "m < 12")
      case False
      then have "m = 12" using 1 by simp
      then show ?thesis using 1(5) days_before_month_Suc [of 12 y] by simp
    qed (use \<open>\<not> (m < 12 \<and> days_in m y \<le> d)\<close> in simp)
    ultimately show ?thesis using 1(3,4) by simp
  qed
qed

lemma days_in_year: "days_before_month 13 y = (if is_leap y then 366 else 365)"
  by (simp add: days_before_month_def days_in_def upt_rec)

subsection \<open>Reading a formatted instant\<close>

lemma format_nat_small: "n < 10 \<Longrightarrow> format_nat n = [digit_char n]"
  by (subst format_nat.simps) simp

lemma digit_char_0: "digit_char 0 = CHR ''0''"
  by (simp add: digit_char_def char_of_eq_iff)

lemma pad0_2: "n < 100 \<Longrightarrow> pad0 2 n = [digit_char (n div 10), digit_char (n mod 10)]"
  by (cases "n < 10") (simp_all add: pad0_def format_nat.simps [of n] format_nat_small digit_char_0)

lemma getnum_pad0: "n < 100 \<Longrightarrow> getnum (pad0 2 n @ s) f = Some (n, s)"
  by (simp add: pad0_2 digit_val_def)

lemma digits_val_zeros: "digits_val (replicate k (CHR ''0'') @ s) = digits_val s"
  by (induction k) (simp_all add: digits_val_def)

lemma length_pad0: "n < 10 ^ k \<Longrightarrow> 0 < k \<Longrightarrow> length (pad0 k n) = k"
  using length_format_nat_digits [of n k] by (simp add: pad0_def)

lemma pad0_digits: "list_all is_digit (pad0 k n)" "digits_val (pad0 k n) = n"
  by (simp_all add: pad0_def format_nat_digits digits_val_zeros list_all_iff is_digit_def)
    (use format_nat_digits [of n] in \<open>auto simp: list_all_iff is_digit_def\<close>)

lemma get_year_pad0: "y \<le> 9999 \<Longrightarrow> get_year (pad0 4 y @ s) = Some (y, s)"
  using length_pad0 [of y 4] pad0_digits [of 4 y] by (simp add: get_year_def)

lemma digits_val_snoc_zeros: "digits_val (s @ replicate k (CHR ''0'')) = digits_val s * 10 ^ k"
  by (induction k) (simp_all add: digits_val_snoc replicate_append_same [symmetric] flip: append_assoc)

lemma trim_zeros_split: "\<exists>k. s = trim_zeros s @ replicate k (CHR ''0'')"
proof -
  have "rev s = takeWhile (\<lambda>c. c = CHR ''0'') (rev s) @ dropWhile (\<lambda>c. c = CHR ''0'') (rev s)" by simp
  moreover have "takeWhile (\<lambda>c. c = CHR ''0'') (rev s) = replicate (length (takeWhile (\<lambda>c. c = CHR ''0'') (rev s))) (CHR ''0'')"
    by (rule replicate_eqI) (auto dest: set_takeWhileD)
  ultimately have "rev s = replicate (length (takeWhile (\<lambda>c. c = CHR ''0'') (rev s))) (CHR ''0'') @ dropWhile (\<lambda>c. c = CHR ''0'') (rev s)"
    by metis
  then have "s = rev (replicate (length (takeWhile (\<lambda>c. c = CHR ''0'') (rev s))) (CHR ''0'') @ dropWhile (\<lambda>c. c = CHR ''0'') (rev s))"
    by (metis rev_rev_ident)
  then show ?thesis unfolding trim_zeros_def by (metis rev_append rev_replicate)
qed

lemma takeWhile_digits:
  "list_all is_digit ds \<Longrightarrow> \<not> is_digit c \<Longrightarrow> takeWhile is_digit (ds @ c # s) = ds \<and> dropWhile is_digit (ds @ c # s) = c # s"
  by (induction ds) simp_all

lemma get_fraction_format:
  assumes "ns < 1000000000"
  shows "get_fraction (format_fraction ns @ CHR ''Z'' # s) = (ns, CHR ''Z'' # s)"
proof (cases "ns = 0")
  case False
  obtain k where k: "pad0 9 ns = trim_zeros (pad0 9 ns) @ replicate k (CHR ''0'')" using trim_zeros_split by blast
  define ds where "ds = trim_zeros (pad0 9 ns)"
  have v: "digits_val ds * 10 ^ k = ns" using pad0_digits(2) [of 9 ns] digits_val_snoc_zeros [of ds k] k by (simp add: ds_def)
  have "length (pad0 9 ns) = 9" using length_pad0 [of ns 9] assms by simp
  then have l: "length ds + k = 9" using k ds_def by (metis length_append length_replicate)
  have d: "list_all is_digit ds" using pad0_digits(1) [of 9 ns] k ds_def by (metis list_all_append)
  have "ds \<noteq> []" using v False by (auto simp: digits_val_def)
  then obtain c t where c: "ds = c # t" "is_digit c" using d by (cases ds) auto
  have z: "\<not> is_digit (CHR ''Z'')" by (simp add: is_digit_def)
  show ?thesis
    using takeWhile_digits [OF d z, of s] v l c False
    by (auto simp: format_fraction_def get_fraction_def ds_def [symmetric] Let_def)
qed (simp add: format_fraction_def get_fraction_def split: list.split)

lemma digits_plain: "list_all is_digit s \<Longrightarrow> list_all plain_char s"
  by (auto simp: list_all_iff is_digit_def plain_char_def)

lemma trim_zeros_plain: "list_all plain_char s \<Longrightarrow> list_all plain_char (trim_zeros s)"
  by (auto simp: trim_zeros_def list_all_iff dest: set_dropWhileD)

lemma format_plain: "list_all plain_char (FormatRFC3339Nano t)"
  by (simp add: FormatRFC3339Nano_def format_fraction_def Let_def pad0_digits digits_plain trim_zeros_plain split: prod.split)
    (simp add: plain_char_def)



end
