(* ===== verification/Ledger_Store.thy ===== *)
theory Ledger_Store
  imports Ledger_Segment Ledger_Payload Go_Clock
begin

text \<open>
  The writable ledger (\<open>Ledger\<close> of \<open>internal/ledger/ledger.go\<close> and the sealing of \<open>container.go\<close>): opening,
  appending, sealing a run of records into a segment, and closing.

  The record \<open>Ledger\<close> is the Go struct. Of the directory lock, the open file and its buffered writer
  only whether they are there is kept: the writer is flushed by every operation that fills it, so it
  holds nothing between calls. A lock held by another process is a fault of the call that takes it.
\<close>

datatype freeze = FrozenBy bytes | FrozenErr ledger_err

record Ledger =
  l_path :: bytes
  l_dirLock :: bool
  l_file :: bool
  l_lastSeq :: uint64
  l_lastHash :: bytes
  l_modelID :: bytes
  l_sealedSeq :: uint64
  l_sealedHash :: bytes
  l_segments :: "segment list"
  l_sealErr :: "ledger_err option"
  l_frozenReason :: "freeze option"

type_synonym 'a led = "Ledger \<Rightarrow> world \<Rightarrow> ((ledger_err + 'a) \<times> Ledger) \<times> world"

text \<open>An empty reason leaves the field empty.\<close>

definition SetFrozen :: "bytes \<Rightarrow> Ledger \<Rightarrow> Ledger" where
  "SetFrozen reason l = (if l_frozenReason l = None \<and> reason \<noteq> [] then l\<lparr>l_frozenReason := Some (FrozenBy reason)\<rparr> else l)"

definition SetModelID :: "bytes \<Rightarrow> Ledger \<Rightarrow> Ledger" where
  "SetModelID modelID l = l\<lparr>l_modelID := modelID\<rparr>"

definition LastSeq :: "Ledger \<Rightarrow> uint64" where "LastSeq l = l_lastSeq l"
definition LastHash :: "Ledger \<Rightarrow> bytes" where "LastHash l = l_lastHash l"
definition SealedSeq :: "Ledger \<Rightarrow> uint64" where "SealedSeq l = l_sealedSeq l"
definition Last :: "Ledger \<Rightarrow> Boundary" where "Last l = \<lparr>B_Seq = l_lastSeq l, B_Hash = l_lastHash l\<rparr>"

definition LedgerDirLockName :: bytes where "LedgerDirLockName = ''.ledger.lock''"

definition lockLedgerFile :: "world \<Rightarrow> ledger_err option \<times> world" where
  "lockLedgerFile w = (case os_touch w of (Inl _, w') \<Rightarrow> (Some ErrLedgerInUse, w') | (Inr _, w') \<Rightarrow> (None, w'))"

definition lockLedgerDir :: "world \<Rightarrow> ledger_err option \<times> world" where
  "lockLedgerDir w = (case io_then os_touch (os_OpenAppend LedgerDirLockName) w of
      (Inl e, w') \<Rightarrow> (Some (IoErr e), w') | (Inr _, w') \<Rightarrow> lockLedgerFile w')"

subsection \<open>Replacing the tail\<close>

definition tail_temp :: "nat \<Rightarrow> bytes" where
  "tail_temp now = tailTempPrefix @ format_nat now @ tempSuffix"

text \<open>
  \<open>replaceTail\<close>, given the bytes of the file it copies from: seek, copy, close the source, sync and
  close the copy, rename it over the tail, sync the directory.
\<close>

definition replaceTail :: "bytes \<Rightarrow> bytes \<Rightarrow> nat \<Rightarrow> unit io" where
  "replaceTail path data keepFrom = io_bind time_Now (\<lambda>now. io_then (os_Create (tail_temp now))
     (io_then (on_fail (io_then os_touch (io_then (os_Append (tail_temp now) (drop keepFrom data))
         (io_then os_touch (io_then os_touch (io_then os_touch (Rename (tail_temp now) path))))))
       (os_Remove (tail_temp now)))
     SyncDir))"

text \<open>\<open>replaceTailFrom\<close> also syncs and closes the open file before, and opens and locks the new one after.\<close>

definition replaceTailFrom :: "nat \<Rightarrow> unit led" where
  "replaceTailFrom keepFrom l w = (case os_ReadFile (l_path l) w of
      (Inl e, w1) \<Rightarrow> ((Inl (IoErr e), l), w1)
    | (Inr data, w1) \<Rightarrow>
       (case (if l_file l then os_touch w1 else (Inr (), w1)) of
          (Inl e, w2) \<Rightarrow> ((Inl (IoErr e), l), w2)
        | (Inr _, w2) \<Rightarrow>
           let l2 = l\<lparr>l_file := False\<rparr> in
           (case (if l_file l then os_touch w2 else (Inr (), w2)) of
              (Inl e, w3) \<Rightarrow> ((Inl (IoErr e), l2), w3)
            | (Inr _, w3) \<Rightarrow>
               (case io_then (replaceTail (l_path l) data keepFrom) (os_OpenAppend (l_path l)) w3 of
                  (Inl e, w4) \<Rightarrow> ((Inl (IoErr e), l2), w4)
                | (Inr _, w4) \<Rightarrow> (case lockLedgerFile w4 of
                     (Some e, w5) \<Rightarrow> ((Inl e, l2), w5)
                   | (None, w5) \<Rightarrow> ((Inr (), l\<lparr>l_file := True\<rparr>), w5))))))"

subsection \<open>Finishing an interrupted seal\<close>

definition first_line :: "Event option line_fn" where
  "first_line line offset sz at s = (case decodeEvent line of Inl e \<Rightarrow> (Some e, s) | Inr evt \<Rightarrow> (Some ErrStop, Some evt))"

definition reconcile_line :: "'sk prims \<Rightarrow> (overlapChecker \<times> nat option) line_fn" where
  "reconcile_line P line offset sz at s = (case s of (oc, keepFrom) \<Rightarrow> (case decodeEvent line of
      Inl e \<Rightarrow> (Some e, s)
    | Inr evt \<Rightarrow> (case oc_check P evt oc of
        (Inl e, oc') \<Rightarrow> (Some e, (oc', keepFrom))
      | (Inr finished, oc') \<Rightarrow> if finished then (Some ErrStop, (oc', Some (offset + sz))) else (None, (oc', keepFrom)))))"

definition reconcileTail :: "'sk prims \<Rightarrow> gz \<Rightarrow> bytes \<Rightarrow> segment \<Rightarrow> world \<Rightarrow> ledger_err option \<times> world" where
  "reconcileTail P G path newest w = (case os_Open path w of
      (Inl e, w1) \<Rightarrow> (if e = ErrNotExist then None else Some (IoErr e), w1)
    | (Inr (data, brk), w1) \<Rightarrow> (case scanLines (lines_read data brk None) first_line None of (err, fst_evt) \<Rightarrow>
        if err \<noteq> None \<and> err \<noteq> Some ErrStop then (err, w1)
        else (case fst_evt of None \<Rightarrow> (None, w1)
         | Some evt \<Rightarrow>
           if s_last newest < Seq evt then (None, w1)
           else if Seq evt < s_first newest then (Some ErrTailConflict, w1)
           else (case os_touch w1 of (Inl e, w2) \<Rightarrow> (Some (IoErr e), w2)
             | (Inr _, w2) \<Rightarrow> (case newOverlapChecker G newest (Seq evt) w2 of (Inl e, w3) \<Rightarrow> (Some e, w3)
               | (Inr oc, w3) \<Rightarrow>
                 (case scanLines (lines_read data brk None) (reconcile_line P) (oc, None) of (err2, (_, keepFrom)) \<Rightarrow>
                    if err2 \<noteq> None \<and> err2 \<noteq> Some ErrStop then (err2, w3)
                    else (case replaceTail path data (case keepFrom of None \<Rightarrow> length data | Some k \<Rightarrow> k) w3 of
                        (Inl e, w4) \<Rightarrow> (Some (IoErr e), w4) | (Inr _, w4) \<Rightarrow> (None, w4))))))))"

subsection \<open>Sealing\<close>

record seal_scan =
  ws_text :: bytes
  ws_expect :: uint64
  ws_after :: "nat option"
  ws_hash :: bytes

text \<open>
  The callback of \<open>writeSegment\<close>: the records before the head are written without their signature, the
  head as it stands.
\<close>

definition seal_line :: "'sk prims \<Rightarrow> uint64 \<Rightarrow> uint64 \<Rightarrow> seal_scan line_fn" where
  "seal_line P fst_seq head line offset sz at st = (case decodeEvent line of Inl e \<Rightarrow> (Some e, st)
    | Inr evt \<Rightarrow>
      if Seq evt < fst_seq then (None, st)
      else if Seq evt \<noteq> ws_expect st then (Some UnexpectedRecord, st)
      else let st = st\<lparr>ws_expect := ws_expect st + 1\<rparr> in
        if Seq evt < head then
          (if Sig evt = [] then (Some ErrUnsignedRecord, st)
           else (case MarshalJSON (evt\<lparr>Sig := []\<rparr>) of Inl e \<Rightarrow> (Some e, st)
             | Inr b \<Rightarrow> (None, st\<lparr>ws_text := ws_text st @ b @ [NL]\<rparr>)))
        else if Type evt \<noteq> EventSystemWitnessed \<or> Sig evt = [] then (Some ErrSegmentWithoutHead, st)
        else (Some ErrStop, st\<lparr>ws_text := ws_text st @ line @ [NL], ws_after := Some (offset + sz), ws_hash := EntryHash P evt\<rparr>))"

text \<open>
  \<open>writeSegment\<close>. The compressor's output is one append, made when it is closed; after a refusal it is
  closed as well and what it holds is of no use.
\<close>

definition writeSegment :: "'sk prims \<Rightarrow> gz \<Rightarrow> bytes \<Rightarrow> bytes \<Rightarrow> uint64 \<Rightarrow> uint64 \<Rightarrow> world \<Rightarrow> (ledger_err + nat \<times> bytes) \<times> world" where
  "writeSegment P G path tmp fst_seq head w = (case os_Open path w of
      (Inl e, w1) \<Rightarrow> (Inl (IoErr e), w1)
    | (Inr (data, brk), w1) \<Rightarrow> (case os_Create tmp w1 of
        (Inl e, w2) \<Rightarrow> (Inl (IoErr e), w2)
      | (Inr _, w2) \<Rightarrow>
        (case scanLines (lines_read data brk None) (seal_line P fst_seq head) \<lparr>ws_text = [], ws_expect = fst_seq, ws_after = None, ws_hash = []\<rparr> of
          (err, st) \<Rightarrow>
            if err \<noteq> None \<and> err \<noteq> Some ErrStop then (Inl (the err), snd (os_Append tmp (gzip G (ws_text st)) w2))
            else (case ws_after st of
                None \<Rightarrow> (Inl TailEndsBefore, snd (os_Append tmp (gzip G (ws_text st)) w2))
              | Some afterHead \<Rightarrow> (case io_then (os_Append tmp (gzip G (ws_text st))) (io_then os_touch os_touch) w2 of
                    (Inl e, w3) \<Rightarrow> (Inl (IoErr e), w3)
                  | (Inr _, w3) \<Rightarrow> (Inr (afterHead, ws_hash st), w3))))))"

definition segment_temp :: "uint64 \<Rightarrow> uint64 \<Rightarrow> nat \<Rightarrow> bytes" where
  "segment_temp a b now = segmentTempPrefix @ FormatUint a @ CHR ''-'' # FormatUint b @ CHR ''-'' # format_nat now @ tempSuffix"

text \<open>What \<open>Seal\<close> does once the segment has its name: a failure from there on is remembered.\<close>

definition after_rename :: "uint64 \<Rightarrow> bytes \<Rightarrow> segment \<Rightarrow> nat \<Rightarrow> unit led" where
  "after_rename head headHash seg afterHead l w =
    (case (case SyncDir w of (Inl e, w1) \<Rightarrow> ((Inl (IoErr e), l), w1)
           | (Inr _, w1) \<Rightarrow> replaceTailFrom afterHead l w1) of
       ((Inl e, l'), w') \<Rightarrow> ((Inl (ErrSealRecoveryRequired e), l'\<lparr>l_sealErr := Some e\<rparr>), w')
     | ((Inr _, l'), w') \<Rightarrow>
         ((Inr (), l'\<lparr>l_sealedSeq := head, l_sealedHash := headHash, l_segments := l_segments l' @ [seg]\<rparr>), w'))"

definition Seal :: "'sk prims \<Rightarrow> gz \<Rightarrow> uint64 \<Rightarrow> unit led" where
  "Seal P G head l w =
    (if l_frozenReason l \<noteq> None then ((Inl ErrFrozen, l), w)
     else if \<not> l_dirLock l then ((Inl ErrClosed, l), w)
     else (case l_sealErr l of Some e \<Rightarrow> ((Inl (ErrSealRecoveryRequired e), l), w)
     | None \<Rightarrow>
       if l_lastSeq l < head then ((Inl SealBeyondLast, l), w)
       else if head \<le> l_sealedSeq l then ((Inl SealAlreadySealed, l), w)
       else
         let fst_seq = l_sealedSeq l + 1; tmp = segment_temp fst_seq head (clock w); w0 = snd (time_Now w);
             final = segmentName fst_seq head; seg = \<lparr>s_first = fst_seq, s_last = head, s_path = final\<rparr> in
         (case writeSegment P G (l_path l) tmp fst_seq head w0 of
            (Inl e, w1) \<Rightarrow> ((Inl e, l), snd (os_Remove tmp w1))
          | (Inr (afterHead, headHash), w1) \<Rightarrow> (case Rename tmp final w1 of
              (Inl e, w2) \<Rightarrow> ((Inl (IoErr e), l), snd (os_Remove tmp w2))
            | (Inr _, w2) \<Rightarrow> after_rename head headHash seg afterHead l w2))))"

subsection \<open>Appending\<close>

fun check_tail_events :: "'sk prims \<Rightarrow> bytes \<Rightarrow> Ledger \<Rightarrow> Event option \<Rightarrow> Event list \<Rightarrow> ledger_err option" where
  "check_tail_events P pubKey l prev [] = (case prev of None \<Rightarrow> None
     | Some lst \<Rightarrow> if Seq lst \<noteq> l_lastSeq l then Some StateDiverged
         else if l_lastHash l \<noteq> EntryHash P lst then Some StateDiverged else None)"
| "check_tail_events P pubKey l prev (evt # evts) =
    (if prev = None \<and> 0 < l_sealedSeq l \<and> Seq evt = l_sealedSeq l + 1 \<and> Prev evt \<noteq> l_sealedHash l then Some BrokenLink
     else if prev \<noteq> None \<and> Seq evt \<noteq> Seq (the prev) + 1 then Some NotConsecutive
     else if prev \<noteq> None \<and> Prev evt \<noteq> EntryHash P (the prev) then Some BrokenLink
     else if ContentHash P (Payload evt) \<noteq> Content evt then Some ContentMismatch
     else (case verifyEventSignature P evt pubKey of Some e \<Rightarrow> Some e
       | None \<Rightarrow> check_tail_events P pubKey l (Some evt) evts))"

definition tailCheckDepth :: nat where "tailCheckDepth = 8"

definition verifyTailBeforeAppend :: "'sk prims \<Rightarrow> 'sk KeyPair \<Rightarrow> Ledger \<Rightarrow> world \<Rightarrow> ledger_err option \<times> world" where
  "verifyTailBeforeAppend P kp l w = (case os_ReadFile (l_path l) w of
      (Inl e, w') \<Rightarrow> (Some (IoErr e), w')
    | (Inr s, w') \<Rightarrow> (case readTailEvents s tailCheckDepth of Inl e \<Rightarrow> (Some e, w')
      | Inr [] \<Rightarrow> (if l_lastSeq l \<noteq> l_sealedSeq l \<or> l_lastHash l \<noteq> l_sealedHash l then Some TailTruncated else None, w')
      | Inr evts \<Rightarrow> (check_tail_events P (PublicKeyBytes kp) l None evts, w')))"

definition nowUTC :: "world \<Rightarrow> bytes \<times> world" where
  "nowUTC w = (FormatRFC3339Nano (clock w), snd (time_Now w))"

text \<open>The record to be appended, and its signature.\<close>

definition next_event :: "'sk prims \<Rightarrow> EventType \<Rightarrow> int \<Rightarrow> bytes \<Rightarrow> bytes \<Rightarrow> Ledger \<Rightarrow> Event" where
  "next_event P eventType ring raw ts l = (let sq = l_lastSeq l + 1 in
     \<lparr>Seq = sq, Prev = (if 1 < sq then l_lastHash l else []), Timestamp = ts, Type = eventType, Ring = ring,
      Content = ContentHash P raw, Payload = raw, Sig = [], sealed = False, closing = False, container = []\<rparr>)"

definition uncertainAppend :: "Ledger \<Rightarrow> Ledger" where
  "uncertainAppend l = (if l_frozenReason l = None then l\<lparr>l_frozenReason := Some (FrozenErr ErrAppendUncertain)\<rparr> else l)"

definition write_line :: "bytes \<Rightarrow> bytes \<Rightarrow> unit io" where
  "write_line path line = io_then (os_Append path (line @ [NL])) os_touch"

text \<open>The second half of \<open>AppendPrepared\<close>: the signed record is printed and written.\<close>

definition append_signed :: "'sk prims \<Rightarrow> Event \<Rightarrow> Event led" where
  "append_signed P evt l w = (case MarshalJSON evt of Inl e \<Rightarrow> ((Inl e, l), w)
     | Inr line \<Rightarrow>
        if MaxEventLineBytes < length line then ((Inl ErrEventTooLarge, l), w)
        else (case write_line (l_path l) line w of
            (Inl _, w') \<Rightarrow> ((Inl ErrAppendUncertain, uncertainAppend l), w')
          | (Inr _, w') \<Rightarrow> ((Inr evt, l\<lparr>l_lastSeq := Seq evt, l_lastHash := EntryHash P evt\<rparr>), w')))"

definition AppendPrepared :: "'sk prims \<Rightarrow> EventType \<Rightarrow> int \<Rightarrow> bytes \<Rightarrow> 'sk KeyPair \<Rightarrow> Event led" where
  "AppendPrepared P eventType ring raw kp l w =
    (if l_frozenReason l \<noteq> None then ((Inl ErrFrozen, l), w)
     else if \<not> l_dirLock l then ((Inl ErrClosed, l), w)
     else (case l_sealErr l of Some e \<Rightarrow> ((Inl (ErrSealRecoveryRequired e), l), w)
     | None \<Rightarrow> (case verifyTailBeforeAppend P kp l w of
         (Some e, w1) \<Rightarrow> ((Inl (ErrTailIntegrity e), l\<lparr>l_frozenReason := Some (FrozenErr (ErrTailIntegrity e))\<rparr>), w1)
       | (None, w1) \<Rightarrow> (case payloadModelID raw of Inl e \<Rightarrow> ((Inl e, l), w1)
         | Inr _ \<Rightarrow> (case nowUTC w1 of (ts, w2) \<Rightarrow>
            let evt0 = next_event P eventType ring raw ts l in
            (case SignB64 P kp (SignatureInputGold SigAlg (Fingerprint P kp) (EntryHash P evt0)) of
               Inl e \<Rightarrow> ((Inl (SignatureFailed e), l), w2)
             | Inr sigB64 \<Rightarrow> append_signed P (evt0\<lparr>Sig := sigB64\<rparr>) l w2))))))"

text \<open>\<open>Append\<close>, given the text \<open>json.Marshal\<close> makes of the payload.\<close>

definition Append :: "'sk prims \<Rightarrow> EventType \<Rightarrow> int \<Rightarrow> bytes \<Rightarrow> 'sk KeyPair \<Rightarrow> Event led" where
  "Append P eventType ring payload kp l w = (case preparePayload payload (l_modelID l) of
      Inl e \<Rightarrow> ((Inl e, l), w) | Inr raw \<Rightarrow> AppendPrepared P eventType ring raw kp l w)"

subsection \<open>Opening and closing\<close>

fun chain_state :: "'sk prims \<Rightarrow> bool \<Rightarrow> bytes list \<Rightarrow> Ledger \<Rightarrow> ledger_err + Ledger" where
  "chain_state P first_one [] l = Inr l"
| "chain_state P first_one (piece # pieces) l = (let line = TrimSpace piece in
     if line = [] then chain_state P first_one pieces l
     else if last piece \<noteq> NL then Inl (ErrRecordUnreadable MissingNewline)
     else (case decodeEvent line of Inl e \<Rightarrow> Inl (ErrRecordUnreadable e)
       | Inr evt \<Rightarrow>
          if first_one \<and> 0 < l_sealedSeq l \<and> (Seq evt \<noteq> l_sealedSeq l + 1 \<or> Prev evt \<noteq> l_sealedHash l)
          then Inl (ErrRecordUnreadable ErrTailConflict)
          else chain_state P False pieces (l\<lparr>l_lastSeq := Seq evt, l_lastHash := EntryHash P evt\<rparr>)))"

definition readChainState :: "'sk prims \<Rightarrow> Ledger \<Rightarrow> world \<Rightarrow> (ledger_err + Ledger) \<times> world" where
  "readChainState P l w = (case os_ReadFile (l_path l) w of (Inl e, w') \<Rightarrow> (Inl (IoErr e), w')
     | (Inr s, w') \<Rightarrow> (chain_state P True (tokens s) l, w'))"

text \<open>Opening the tail for appending, its lock, and the state of the chain it ends with.\<close>

definition open_tail :: "'sk prims \<Rightarrow> Ledger \<Rightarrow> world \<Rightarrow> (ledger_err + Ledger) \<times> world" where
  "open_tail P l w = (case os_OpenAppend (l_path l) w of (Inl e, w1) \<Rightarrow> (Inl (IoErr e), w1)
     | (Inr _, w1) \<Rightarrow> (case lockLedgerFile w1 of (Some e, w2) \<Rightarrow> (Inl e, w2)
       | (None, w2) \<Rightarrow> (case readChainState P l w2 of (Inl e, w3) \<Rightarrow> (Inl e, w3)
         | (Inr l', w3) \<Rightarrow> (Inr (l'\<lparr>l_file := True\<rparr>), w3))))"

definition new_ledger :: "bytes \<Rightarrow> Ledger" where
  "new_ledger path = \<lparr>l_path = path, l_dirLock = True, l_file = False, l_lastSeq = 0, l_lastHash = [], l_modelID = [],
     l_sealedSeq = 0, l_sealedHash = [], l_segments = [], l_sealErr = None, l_frozenReason = None\<rparr>"

text \<open>\<open>openLedger\<close> once its first argument has been called: clean up, find the sealed boundary, open the tail.\<close>

definition open_cleaned :: "'sk prims \<Rightarrow> gz \<Rightarrow> bytes \<Rightarrow> world \<Rightarrow> (ledger_err + Ledger) \<times> world" where
  "open_cleaned P G path w =
    (case sweepDebris w of (Some e, w1) \<Rightarrow> (Inl e, w1)
     | (None, w1) \<Rightarrow> (case listSegments w1 of (Inl e, w2) \<Rightarrow> (Inl e, w2)
       | (Inr segs, w2) \<Rightarrow>
          if segs = [] then open_tail P (new_ledger path) w2
          else (case segmentEnd G (last segs) P w2 of (Inl e, w3) \<Rightarrow> (Inl e, w3)
            | (Inr (sq, hash), w3) \<Rightarrow> (case reconcileTail P G path (last segs) w3 of (Some e, w4) \<Rightarrow> (Inl e, w4)
              | (None, w4) \<Rightarrow> open_tail P ((new_ledger path)\<lparr>l_sealedSeq := sq, l_sealedHash := hash, l_segments := segs,
                   l_lastSeq := sq, l_lastHash := hash\<rparr>) w4))))"

text \<open>The variables that \<open>beforeCleanup\<close> sets in its surroundings are the state \<open>b\<close> it is given and returns.\<close>

definition openLedger ::
  "'sk prims \<Rightarrow> gz \<Rightarrow> bytes \<Rightarrow> ('b \<Rightarrow> world \<Rightarrow> (verify_error option \<times> 'b) \<times> world) \<Rightarrow> 'b \<Rightarrow> world
     \<Rightarrow> ((verify_error + Ledger) \<times> 'b) \<times> world" where
  "openLedger P G path beforeCleanup b w =
    (case lockLedgerDir w of (Some e, w1) \<Rightarrow> ((Inl (OtherError e), b), w1)
     | (None, w1) \<Rightarrow> (case beforeCleanup b w1 of ((Some e, b'), w2) \<Rightarrow> ((Inl e, b'), w2)
       | ((None, b'), w2) \<Rightarrow> (case open_cleaned P G path w2 of (r, w3) \<Rightarrow> ((map_sum OtherError id r, b'), w3))))"

definition New :: "'sk prims \<Rightarrow> gz \<Rightarrow> bytes \<Rightarrow> world \<Rightarrow> (verify_error + Ledger) \<times> world" where
  "New P G path w = (case openLedger P G path (\<lambda>b w. ((None, b), w)) () w of ((r, _), w') \<Rightarrow> (r, w'))"

definition NewForBirth :: "'sk prims \<Rightarrow> gz \<Rightarrow> bytes \<Rightarrow> world \<Rightarrow> (verify_error + Ledger) \<times> world" where
  "NewForBirth P G path w = (case openLedger P G path (\<lambda>b w. case RecordArtifact path w of
      (Inl e, w') \<Rightarrow> ((Some (OtherError e), b), w')
    | (Inr artifact, w') \<Rightarrow> ((if artifact \<noteq> [] then Some (OtherError ErrRecordExists) else None, b), w')) () w of
     ((r, _), w') \<Rightarrow> (r, w'))"

text \<open>\<open>Close\<close> goes through all its steps; the errors of the steps are joined, the first one is kept here.\<close>

definition step_err :: "bool \<Rightarrow> ledger_err option \<Rightarrow> world \<Rightarrow> ledger_err option \<times> world" where
  "step_err due err w = (if \<not> due then (err, w) else (case os_touch w of
      (Inl e, w') \<Rightarrow> (if err = None then Some (IoErr e) else err, w') | (Inr _, w') \<Rightarrow> (err, w')))"

definition Close :: "Ledger \<Rightarrow> world \<Rightarrow> (ledger_err option \<times> Ledger) \<times> world" where
  "Close l w = (case step_err (l_file l) None w of (e1, w1) \<Rightarrow> (case step_err (l_file l) e1 w1 of (e2, w2) \<Rightarrow>
     (case step_err (l_dirLock l) e2 w2 of (e3, w3) \<Rightarrow> ((e3, l\<lparr>l_dirLock := False\<rparr>), w3))))"

end
