(* ===== verification/Ledger_Log.thy ===== *)
theory Ledger_Log
  imports Ledger_Store Sigenvelope
begin

text \<open>
  The invariant of an open ledger, the abstraction of its files to a list of records, and that
  \<open>AppendPrepared\<close> refines putting one record at the end of that list.
\<close>

lemma seq_of_nat: "unat (a :: uint64) = n \<Longrightarrow> a = of_nat n"
  by auto

subsection \<open>The state of an open ledger\<close>

text \<open>A record as \<open>AppendPrepared\<close> writes it, with its line.\<close>

definition written :: "Event \<Rightarrow> bytes \<Rightarrow> bool" where
  "written e line \<longleftrightarrow> (\<exists>ms. storable e ms) \<and> MarshalJSON e = Inr line \<and> \<not> sealed e \<and> \<not> closing e \<and> container e = []
     \<and> length line < MaxEventLineBytes"

lemma written_stored: "written e l \<Longrightarrow> stored e l"
  by (auto simp: written_def intro: storable_stored)

lemma written_all: "list_all2 written es ls \<Longrightarrow> list_all2 stored es ls"
  by (induction rule: list_all2_induct) (simp_all add: written_stored)

text \<open>The name of the ledger file is neither that of a segment nor that of a temporary file.\<close>

definition path_ok :: "bytes \<Rightarrow> bool" where
  "path_ok path \<longleftrightarrow> path \<noteq> [] \<and> segment_of path = None \<and> (\<forall>s. path \<noteq> CHR ''.'' # s)"

definition ledger_inv :: "'sk prims \<Rightarrow> gz \<Rightarrow> bytes \<Rightarrow> Ledger \<Rightarrow> world \<Rightarrow> segment list \<Rightarrow> Event list list \<Rightarrow> Event list \<Rightarrow> bool" where
  "ledger_inv P G pub l w segs ess es \<longleftrightarrow> path_ok (l_path l)
     \<and> directory w segs \<and> list_all2 (segment_holds G w) segs ess
     \<and> (\<exists>ls. contents w (l_path l) = Some (text_of ls) \<and> list_all2 written es ls)
     \<and> numbered 1 (concat ess @ es) \<and> linked P [] 0 (concat ess @ es)
     \<and> list_all (\<lambda>e. verifyEventSignature P e pub = None) es
     \<and> l_lastSeq l = of_nat (length (concat ess @ es)) \<and> l_lastHash l = chain_hash P [] (concat ess @ es)
     \<and> l_sealedSeq l = of_nat (length (concat ess)) \<and> l_sealedHash l = chain_hash P [] (concat ess)
     \<and> l_segments l = segs"

text \<open>
  What the files of a ledger hold whatever happened to the program that used them: the tail may repeat the
  end of the newest segment in \<open>ov\<close>, and it may end in a part \<open>torn\<close> of a line.
\<close>

definition torn_line :: "bytes \<Rightarrow> bool" where
  "torn_line torn \<longleftrightarrow> torn = [] \<or> (\<exists>t. torn = CHR 0x7B # t) \<and> NL \<notin> set torn"

definition disk ::
  "'sk prims \<Rightarrow> gz \<Rightarrow> bytes \<Rightarrow> bytes \<Rightarrow> world \<Rightarrow> segment list \<Rightarrow> Event list list \<Rightarrow> Event list \<Rightarrow> Event list \<Rightarrow> bytes \<Rightarrow> bool" where
  "disk P G pub path w segs ess ov es torn \<longleftrightarrow> path_ok path \<and> torn_line torn
     \<and> directory w segs \<and> list_all2 (segment_holds G w) segs ess
     \<and> (\<exists>ls. contents w path = Some (text_of ls @ torn) \<and> list_all2 written (ov @ es) ls)
     \<and> (ov = [] \<or> ess \<noteq> [] \<and> (\<exists>k < length (last ess). list_all2 (same_record P) (drop k (last ess)) ov))
     \<and> numbered 1 (concat ess @ es) \<and> linked P [] 0 (concat ess @ es)
     \<and> list_all (\<lambda>e. verifyEventSignature P e pub = None) es"

definition holds :: "'sk prims \<Rightarrow> gz \<Rightarrow> bytes \<Rightarrow> bytes \<Rightarrow> world \<Rightarrow> Event list \<Rightarrow> bool" where
  "holds P G pub path w log \<longleftrightarrow>
     (\<exists>segs ess ov es torn. disk P G pub path w segs ess ov es torn \<and> map committed (concat ess @ es) = map committed log)"

text \<open>The boundaries a ledger in memory has when it is open on these records.\<close>

definition bounds :: "'sk prims \<Rightarrow> Ledger \<Rightarrow> segment list \<Rightarrow> Event list list \<Rightarrow> Event list \<Rightarrow> bool" where
  "bounds P l segs ess es \<longleftrightarrow> l_lastSeq l = of_nat (length (concat ess @ es)) \<and> l_lastHash l = chain_hash P [] (concat ess @ es)
     \<and> l_sealedSeq l = of_nat (length (concat ess)) \<and> l_sealedHash l = chain_hash P [] (concat ess) \<and> l_segments l = segs"

lemma ledger_inv_disk:
  "ledger_inv P G pub l w segs ess es \<longleftrightarrow> disk P G pub (l_path l) w segs ess [] es [] \<and> bounds P l segs ess es"
  by (auto simp: ledger_inv_def disk_def bounds_def torn_line_def)

lemma disk_store: "disk P G pub path w segs ess ov es [] \<Longrightarrow> store P G path w segs ess ov es"
  using written_all by (fastforce simp: disk_def store_def tail_holds_def)

lemma ledger_inv_store: "ledger_inv P G pub l w segs ess es \<Longrightarrow> store P G (l_path l) w segs ess [] es"
  using written_all by (fastforce simp: ledger_inv_def store_def tail_holds_def)

text \<open>What only the names of segments and the tail decide.\<close>

lemma segment_holds_cong: "contents w' (s_path s) = contents w (s_path s) \<Longrightarrow> segment_holds G w' s es = segment_holds G w s es"
  by (simp add: segment_holds_def)

lemma directory_cong: "(\<And>n. segment_of n \<noteq> None \<Longrightarrow> contents w' n = contents w n) \<Longrightarrow> directory w' segs = directory w segs"
  unfolding directory_def by (metis option.distinct(1))

lemma directory_mem: "directory w segs \<Longrightarrow> s \<in> set segs \<Longrightarrow> segment_of (s_path s) = Some s \<and> contents w (s_path s) \<noteq> None"
  unfolding directory_def by (metis segment_of_Some)

lemma segments_cong:
  assumes "\<And>n. segment_of n \<noteq> None \<Longrightarrow> contents w' n = contents w n" "directory w segs" "list_all2 (segment_holds G w) segs ess"
  shows "directory w' segs" "list_all2 (segment_holds G w') segs ess"
proof -
  show "directory w' segs" using directory_cong [of w' w segs] assms(1,2) by simp
  have "segment_holds G w' s es = segment_holds G w s es" if "s \<in> set segs" for s es
    using directory_mem [OF assms(2) that] assms(1) by (intro segment_holds_cong) simp
  then show "list_all2 (segment_holds G w') segs ess" using assms(3) by (auto simp: list_all2_conv_all_nth)
qed

subsection \<open>Appending\<close>

lemma write_line_effect:
  assumes "write_line path line w = (q, w')" "contents w path = Some s"
  shows "\<exists>n. contents w' = (contents w)(path \<mapsto> s @ take n (line @ [NL]))"
    "q = Inr x \<Longrightarrow> contents w' = (contents w)(path \<mapsto> s @ line @ [NL])"
proof -
  obtain f w1 where f: "next_fault w = (f, w1)" by fastforce
  have c: "contents w1 = contents w" using next_fault_contents [OF f] .
  have "(\<exists>n. f = Some n \<and> q = Inl ErrIO \<and> contents w' = (contents w)(path \<mapsto> s @ take n (line @ [NL])))
      \<or> contents w' = (contents w)(path \<mapsto> s @ line @ [NL])"
    using assms f c os_touch_contents [of "set_file path (s @ line @ [NL]) w1"]
    by (cases f) (auto simp: write_line_def io_then_def io_bind_def os_Append_def simp del: next_fault.simps split: prod.splits sum.splits)
  then show "\<exists>n. contents w' = (contents w)(path \<mapsto> s @ take n (line @ [NL]))"
    "q = Inr x \<Longrightarrow> contents w' = (contents w)(path \<mapsto> s @ line @ [NL])"
    by (auto intro: exI [of _ "Suc (length line)"])
qed

lemma append_signed_cases:
  assumes "append_signed P evt l w = ((r, l'), w')" "contents w (l_path l) = Some s" "l_frozenReason l = None"
  obtains (refused) e where "r = Inl e" "l' = l" "w' = w"
  | (uncertain) line n where "r = Inl ErrAppendUncertain" "l' = l\<lparr>l_frozenReason := Some (FrozenErr ErrAppendUncertain)\<rparr>"
      "MarshalJSON evt = Inr line" "length line \<le> MaxEventLineBytes" "contents w' = (contents w)(l_path l \<mapsto> s @ take n (line @ [NL]))"
  | (appended) line where "r = Inr evt" "l' = l\<lparr>l_lastSeq := Seq evt, l_lastHash := EntryHash P evt\<rparr>"
      "MarshalJSON evt = Inr line" "length line \<le> MaxEventLineBytes" "contents w' = (contents w)(l_path l \<mapsto> s @ line @ [NL])"
proof (cases "MarshalJSON evt")
  case (Inl e)
  then show thesis using refused assms by (auto simp: append_signed_def)
next
  case ln: (Inr line)
  obtain q w3 where q: "write_line (l_path l) line w = (q, w3)" by fastforce
  show thesis
  proof (cases "MaxEventLineBytes < length line")
    case True
    then show thesis using refused assms ln by (auto simp: append_signed_def)
  next
    case False
    obtain n where n: "contents w3 = (contents w)(l_path l \<mapsto> s @ take n (line @ [NL]))"
      using write_line_effect(1) [OF q assms(2)] by blast
    show thesis
    proof (cases q)
      case Inl
      then show thesis using uncertain [OF _ _ ln, of n] assms ln False q n by (simp add: append_signed_def uncertainAppend_def)
    next
      case Inr
      then show thesis
        using appended [OF _ _ ln] write_line_effect(2) [OF q assms(2)] assms ln False q by (simp add: append_signed_def)
    qed
  qed
qed

lemma AppendPrepared_cases:
  assumes "AppendPrepared P eventType ring raw kp l w = ((r, l'), w')"
  obtains (refused) e where "r = Inl e" "l' = l \<or> (\<exists>x. l' = l\<lparr>l_frozenReason := Some x\<rparr>)" "contents w' = contents w"
  | (written) ms ts sigB64 evt w2 where "payloadModelID raw = Inr ms" "ts = FormatRFC3339Nano (clock w)"
      "evt = (next_event P eventType ring raw ts l)\<lparr>Sig := sigB64\<rparr>"
      "SignB64 P kp (SignatureInputGold SigAlg (Fingerprint P kp) (EntryHash P evt)) = Inr sigB64"
      "contents w2 = contents w" "append_signed P evt l w2 = ((r, l'), w')" "l_frozenReason l = None"
proof (cases "l_frozenReason l = None \<and> l_dirLock l \<and> l_sealErr l = None")
  case False
  then have "(\<exists>e. r = Inl e) \<and> l' = l \<and> w' = w" using assms by (auto simp: AppendPrepared_def split: if_splits option.splits)
  then show thesis using refused by auto
next
  case go: True
  obtain v w1 where v: "verifyTailBeforeAppend P kp l w = (v, w1)" by fastforce
  have w1: "contents w1 = contents w \<and> clock w1 = clock w"
    using v by (auto simp: verifyTailBeforeAppend_def os_ReadFile_def split: list.splits option.splits sum.splits)
  define w2 where "w2 = snd (time_Now w1)"
  have w2: "contents w2 = contents w" using w1 by (simp add: w2_def time_Now_def)
  let ?e0 = "next_event P eventType ring raw (FormatRFC3339Nano (clock w)) l"
  have t: "nowUTC w1 = (FormatRFC3339Nano (clock w), w2)" using w1 by (simp add: nowUTC_def w2_def)
  have eh: "EntryHash P (?e0\<lparr>Sig := x\<rparr>) = EntryHash P ?e0" for x by (simp add: EntryHash_def entrySum_def EntryBytes_def)
  show thesis
  proof (cases v)
    case (Some e)
    then show thesis using refused assms go v w1 by (auto simp: AppendPrepared_def)
  next
    case None
    show thesis
    proof (cases "payloadModelID raw")
      case (Inl e)
      then show thesis using refused assms go v None w1 by (auto simp: AppendPrepared_def)
    next
      case ms: (Inr ms)
      show thesis
      proof (cases "SignB64 P kp (SignatureInputGold SigAlg (Fingerprint P kp) (EntryHash P ?e0))")
        case (Inl e)
        then show thesis using refused assms go v None w2 t ms by (auto simp: AppendPrepared_def Let_def)
      next
        case sg: (Inr sigB64)
        then show thesis
          using written [OF ms refl refl _ w2, of sigB64] assms go v None t ms eh by (simp add: AppendPrepared_def Let_def)
      qed
    qed
  qed
qed

text \<open>What the caller of \<open>AppendPrepared\<close> brings.\<close>

definition appendable :: "EventType \<Rightarrow> int \<Rightarrow> bytes \<Rightarrow> bool" where
  "appendable eventType ring raw \<longleftrightarrow> plain_field eventType \<and> - (2 ^ 63) \<le> ring \<and> ring < 2 ^ 63 \<and> CanonicalizeV1 raw = Inr raw"

definition signer :: "'sk prims \<Rightarrow> 'sk KeyPair \<Rightarrow> bool" where
  "signer P kp \<longleftrightarrow> (\<exists>sk. PrivateKey kp = Some sk \<and> PublicKey kp = mldsa_Public P sk \<and> (\<forall>m. mldsa_Sign P sk m \<noteq> Some []))"

text \<open>The line that an append made at time \<open>t\<close> writes.\<close>

definition signed_line :: "'sk prims \<Rightarrow> 'sk KeyPair \<Rightarrow> EventType \<Rightarrow> int \<Rightarrow> bytes \<Rightarrow> Ledger \<Rightarrow> nat \<Rightarrow> bytes \<Rightarrow> bool" where
  "signed_line P kp eventType ring raw l t line \<longleftrightarrow> (\<exists>sigB64 evt. evt = (next_event P eventType ring raw (FormatRFC3339Nano t) l)\<lparr>Sig := sigB64\<rparr>
     \<and> SignB64 P kp (SignatureInputGold SigAlg (Fingerprint P kp) (EntryHash P evt)) = Inr sigB64 \<and> MarshalJSON evt = Inr line)"

lemma plain_field_Nil: "plain_field []"
  by (rule plain_field_ascii) simp

lemma plain_hash: "plain_field (chain_hash P [] es)" "plain_field (EntryHash P e)"
  by (auto simp: chain_hash_def EntryHash_def plain_field_Nil intro: plain_field_ascii hex_plain)

lemma next_event_storable:
  assumes "appendable eventType ring raw" "payloadModelID raw = Inr m" "plain_field (l_lastHash l)"
    "evt = (next_event P eventType ring raw (FormatRFC3339Nano t) l)\<lparr>Sig := b64_encode x\<rparr>"
  shows "\<exists>ms. storable evt ms"
proof -
  have "\<exists>object. payloadObject raw = Inr object" using assms(2) by (auto simp: payloadModelID_def)
  then obtain ms where "raw = emitCanonicalJSONValue (JObj ms)" "wf_json (JObj ms)"
    using canonical_object assms(1) by (metis appendable_def)
  then have "storable evt ms"
    using assms(1,3) plain_field_ascii [OF format_plain] plain_field_ascii [OF hex_plain] plain_field_ascii [OF b64_plain] plain_field_Nil
    by (simp add: assms(4) storable_def next_event_def appendable_def ContentHash_def Let_def del: b64_encode.simps)
  then show ?thesis ..
qed

lemma signed_event:
  assumes "mldsa_laws P" "signer P kp"
    "SignB64 P kp (SignatureInputGold SigAlg (Fingerprint P kp) (EntryHash P evt)) = Inr (Sig evt)"
  shows "verifyEventSignature P evt (PublicKey kp) = None"
proof -
  obtain s where s: "Sign P kp (SignatureInputGold SigAlg (Fingerprint P kp) (EntryHash P evt)) = Inr s" "Sig evt = b64_encode s"
    using assms(3) by (auto simp: SignB64_def split: sum.splits)
  have "Verify P (PublicKey kp) (SignatureInputGold SigAlg (Fingerprint P kp) (EntryHash P evt)) s = None"
    using sign_then_verify [OF assms(1) _ _ s(1)] assms(2) by (auto simp: signer_def)
  moreover have "s \<noteq> []" using s(1) assms(2) by (auto simp: signer_def Sign_def split: option.splits)
  ultimately show ?thesis using s(2) by (simp add: verifyEventSignature_def PublicKeyFingerprint_def Fingerprint_def del: b64_encode.simps)
qed

lemma inv_after_append:
  assumes "ledger_inv P G pub l w segs ess es" "written evt line" "verifyEventSignature P evt pub = None"
    "unat (Seq evt) = length (concat ess @ es) + 1" "Prev evt = chain_hash P [] (concat ess @ es)" "ContentHash P (Payload evt) = Content evt"
    "contents w (l_path l) = Some s" "contents w' = (contents w)(l_path l \<mapsto> s @ line @ [NL])"
    "l' = l\<lparr>l_lastSeq := Seq evt, l_lastHash := EntryHash P evt\<rparr>"
  shows "ledger_inv P G pub l' w' segs ess (es @ [evt])"
proof -
  have i: "path_ok (l_path l)" "directory w segs" "list_all2 (segment_holds G w) segs ess" using assms(1) by (simp_all add: ledger_inv_def)
  have "contents w' n = contents w n" if "segment_of n \<noteq> None" for n
    using that i(1) assms(8) by (auto simp: path_ok_def)
  note sg = segments_cong [OF this i(2,3)]
  obtain ls where ls: "s = text_of ls" "list_all2 written es ls" using assms(1,7) by (auto simp: ledger_inv_def)
  have "\<exists>ls. contents w' (l_path l) = Some (text_of ls) \<and> list_all2 written (es @ [evt]) ls"
    using assms(2,8) ls by (intro exI [of _ "ls @ [line]"]) (simp add: list_all2_appendI)
  moreover have sq: "Seq evt = of_nat (length (concat ess @ es)) + 1"
    using seq_of_nat [OF assms(4)] by simp
  moreover have "linked P [] 0 (concat ess @ es @ [evt])"
    using assms(1,5,6) sq linked_append [of P "[]" 0 "concat ess @ es" "[evt]"] by (simp add: ledger_inv_def)
  moreover have "numbered 1 (concat ess @ es @ [evt])" using assms(1,4) by (simp add: ledger_inv_def)
  moreover have "chain_hash P [] (concat ess @ es @ [evt]) = EntryHash P evt" by (simp add: chain_hash_def)
  ultimately show ?thesis using assms(1,3) i(1) sg unfolding ledger_inv_def assms(9) by (simp add: add_ac)
qed

text \<open>The abstract ledger is a list of records; \<open>represents\<close> is the abstraction relation of the open ledger.\<close>

definition represents :: "'sk prims \<Rightarrow> gz \<Rightarrow> bytes \<Rightarrow> Ledger \<Rightarrow> world \<Rightarrow> Event list \<Rightarrow> bool" where
  "represents P G pub l w log \<longleftrightarrow> (\<exists>segs ess es. ledger_inv P G pub l w segs ess es \<and> map committed log = map committed (concat ess @ es))"

text \<open>
  The state a seal leaves behind that failed once its segment was published: the last record is the one
  in memory, but the tail may still hold what the new segment holds.
\<close>

definition pending :: "'sk prims \<Rightarrow> gz \<Rightarrow> bytes \<Rightarrow> Ledger \<Rightarrow> world \<Rightarrow> Event list \<Rightarrow> bool" where
  "pending P G pub l w log \<longleftrightarrow> l_sealErr l \<noteq> None \<and> (\<exists>segs ess ov es. disk P G pub (l_path l) w segs ess ov es []
     \<and> map committed (concat ess @ es) = map committed log
     \<and> l_lastSeq l = of_nat (length (concat ess @ es)) \<and> l_lastHash l = chain_hash P [] (concat ess @ es))"

lemma pendingI:
  assumes "disk P G pub (l_path l) w segs ess ov es []" "map committed (concat ess @ es) = map committed log"
    "l_lastSeq l = of_nat (length (concat ess @ es))" "l_lastHash l = chain_hash P [] (concat ess @ es)" "l_sealErr l \<noteq> None"
  shows "pending P G pub l w log"
  unfolding pending_def using assms by blast

text \<open>A tail that ends in a part of a line.\<close>

definition torn_after :: "bytes \<Rightarrow> world \<Rightarrow> world \<Rightarrow> Event \<Rightarrow> bool" where
  "torn_after path w w' evt \<longleftrightarrow> (\<exists>s line n. contents w path = Some s \<and> MarshalJSON evt = Inr line
     \<and> contents w' = (contents w)(path \<mapsto> s @ take n (line @ [NL])))"

text \<open>The files after a line was written in part or in full.\<close>

lemma disk_after_write:
  assumes "ledger_inv P G pub l w segs ess es" "written evt line" "verifyEventSignature P evt pub = None"
    "unat (Seq evt) = length (concat ess @ es) + 1" "Prev evt = chain_hash P [] (concat ess @ es)" "ContentHash P (Payload evt) = Content evt"
    "contents w (l_path l) = Some s" "contents w' = (contents w)(l_path l \<mapsto> s @ take n (line @ [NL]))"
  shows "(\<exists>torn. disk P G pub (l_path l) w' segs ess [] es torn) \<or> disk P G pub (l_path l) w' segs ess [] (es @ [evt]) []"
proof (cases "n \<le> length line")
  case False
  then have "contents w' = (contents w)(l_path l \<mapsto> s @ line @ [NL])" using assms(8) by simp
  from inv_after_append [OF assms(1-7) this refl] show ?thesis by (simp add: ledger_inv_disk)
next
  case True
  have d: "disk P G pub (l_path l) w segs ess [] es []" using assms(1) by (simp add: ledger_inv_disk)
  then obtain ls where ls: "s = text_of ls" "list_all2 written es ls" using assms(7) by (auto simp: disk_def)
  have i: "path_ok (l_path l)" "directory w segs" "list_all2 (segment_holds G w) segs ess" using d by (simp_all add: disk_def)
  have "contents w' x = contents w x" if "segment_of x \<noteq> None" for x using that i(1) assms(8) by (auto simp: path_ok_def)
  note sg = segments_cong [OF this i(2,3)]
  have "stored evt line" by (rule written_stored [OF assms(2)])
  then obtain mid where m: "line = CHR 0x7B # mid" "NL \<notin> set line" by (auto simp: stored_def)
  have "torn_line (take n line)"
    using m by (cases n) (auto simp: torn_line_def dest: in_set_takeD)
  then have "disk P G pub (l_path l) w' segs ess [] es (take n line)"
    using d sg assms(8) ls True unfolding disk_def by auto
  then show ?thesis by blast
qed

lemma append_outcome:
  assumes "ledger_inv P G (PublicKey kp) l w segs ess es" "mldsa_laws P" "signer P kp" "appendable eventType ring raw"
    "length (concat ess @ es) + 1 < 2 ^ 64" "AppendPrepared P eventType ring raw kp l w = ((r, l'), w')"
  obtains (refused) e where "r = Inl e" "l' = l \<or> l_frozenReason l' \<noteq> None \<and> l_path l' = l_path l" "contents w' = contents w"
  | (uncertain) evt line where "r = Inl ErrAppendUncertain" "l_frozenReason l' \<noteq> None \<and> l_path l' = l_path l" "torn_after (l_path l) w w' evt"
      "unat (Seq evt) = length (concat ess @ es) + 1" "Payload evt = raw" "MarshalJSON evt = Inr line"
      "signed_line P kp eventType ring raw l (clock w) line" "length line \<le> MaxEventLineBytes"
      "length line < MaxEventLineBytes \<Longrightarrow> (\<exists>torn. disk P G (PublicKey kp) (l_path l) w' segs ess [] es torn)
         \<or> disk P G (PublicKey kp) (l_path l) w' segs ess [] (es @ [evt]) []"
  | (appended) evt line where "r = Inr evt" "MarshalJSON evt = Inr line" "Payload evt = raw" "Type evt = eventType" "Ring evt = ring"
      "signed_line P kp eventType ring raw l (clock w) line" "length line \<le> MaxEventLineBytes"
      "length line < MaxEventLineBytes \<Longrightarrow> ledger_inv P G (PublicKey kp) l' w' segs ess (es @ [evt])" "l_path l' = l_path l \<and> l_sealErr l' = l_sealErr l"
  using assms(6)
proof (cases rule: AppendPrepared_cases)
  case (refused e)
  then show thesis using that(1) by auto
next
  case (written m ts sigB64 evt w2)
  obtain s where s: "contents w2 (l_path l) = Some s" using assms(1) written(5) by (auto simp: ledger_inv_def)
  have f: "Payload evt = raw" "Type evt = eventType" "Ring evt = ring" "Content evt = ContentHash P raw" "Sig evt = sigB64"
    "\<not> sealed evt" "\<not> closing evt" "container evt = []"
    by (simp_all add: written(3) next_event_def Let_def)
  have inv: "l_lastSeq l = of_nat (length (concat ess @ es))" "l_lastHash l = chain_hash P [] (concat ess @ es)"
    using assms(1) by (simp_all add: ledger_inv_def)
  have "Seq evt = of_nat (length (concat ess @ es) + 1)" using inv(1) by (simp add: written(3) next_event_def Let_def add.commute)
  then have sq: "unat (Seq evt) = length (concat ess @ es) + 1" using assms(5) by (simp only: unat_of_nat) simp
  have "1 < Seq evt \<or> concat ess @ es = []" using sq by (auto simp: word_less_nat_alt)
  moreover have "chain_hash P [] (concat ess @ es) = []" if "concat ess @ es = []" using that by (simp only: chain_hash_simps)
  moreover have "Prev evt = (if 1 < Seq evt then l_lastHash l else [])" by (simp add: written(3) next_event_def Let_def)
  ultimately have pv: "Prev evt = chain_hash P [] (concat ess @ es)" using inv(2) by presburger
  obtain x where x: "sigB64 = b64_encode x" using written(4) by (auto simp: SignB64_def split: sum.splits)
  have st: "\<exists>ms. storable evt ms"
    by (rule next_event_storable [OF assms(4) written(1)]) (use inv(2) plain_hash written(2,3) x in simp_all)
  have v: "verifyEventSignature P evt (PublicKey kp) = None" using signed_event [OF assms(2,3)] written(4) f(5) by simp
  have sl: "MarshalJSON evt = Inr line \<Longrightarrow> signed_line P kp eventType ring raw l (clock w) line" for line
    using written(2-4) unfolding signed_line_def by blast
  show thesis
    using written(6) s written(7)
  proof (cases rule: append_signed_cases)
    case (uncertain line n)
    then have "torn_after (l_path l) w w' evt" using s written(5) unfolding torn_after_def by auto
    moreover have "(\<exists>torn. disk P G (PublicKey kp) (l_path l) w' segs ess [] es torn)
         \<or> disk P G (PublicKey kp) (l_path l) w' segs ess [] (es @ [evt]) []" if "length line < MaxEventLineBytes"
    proof (rule disk_after_write [OF assms(1) _ v sq pv])
      show "written evt line" using that uncertain(3) st f by (simp add: written_def)
      show "contents w' = (contents w)(l_path l \<mapsto> s @ take n (line @ [NL]))" using uncertain(5) written(5) by simp
    qed (use s written(5) f in simp_all)
    ultimately show thesis using that(2) [of evt line] uncertain sq f sl by simp
  next
    case (appended line)
    have "ledger_inv P G (PublicKey kp) l' w' segs ess (es @ [evt])" if "length line < MaxEventLineBytes"
    proof (rule inv_after_append [OF assms(1) _ v sq pv _ _ _ appended(2)])
      show "written evt line" using that appended(3) st f by (simp add: written_def)
    qed (use appended s written(5) f in simp_all)
    moreover have "l_path l' = l_path l \<and> l_sealErr l' = l_sealErr l" by (simp add: appended(2))
    ultimately show thesis using that(3) [OF appended(1,3)] f sl appended(3,4) by blast
  qed (use that(1) written(5) in auto)
qed

lemma chain_hash_last: "es \<noteq> [] \<Longrightarrow> chain_hash P prev es = EntryHash P (last es)"
  by (simp add: chain_hash_def)

lemma check_tail_linked:
  assumes "linked P (EntryHash P p) (Seq p) evts" "list_all (\<lambda>e. verifyEventSignature P e pub = None) evts"
    "Seq (last (p # evts)) = l_lastSeq l" "EntryHash P (last (p # evts)) = l_lastHash l"
  shows "check_tail_events P pub l (Some p) evts = None"
  using assms
proof (induction evts arbitrary: p)
  case (Cons e evts)
  have "Seq e = Seq p + 1" using Cons.prems(1) by simp
  then show ?case using Cons.IH [of e] Cons.prems by (simp split: if_splits)
qed simp

lemma verifyTail_passes:
  assumes "ledger_inv P G (PublicKey kp) l w segs ess es" "plan w = []"
  shows "verifyTailBeforeAppend P kp l w = (None, w)"
proof -
  obtain ls where ls: "contents w (l_path l) = Some (text_of ls)" "list_all2 written es ls" using assms(1) by (auto simp: ledger_inv_def)
  note iv = assms(1) [unfolded ledger_inv_def]
  define k where "k = length es - (tailCheckDepth + 1)"
  have r: "readTailEvents (text_of ls) tailCheckDepth = Inr (drop k es)"
    using readTailEvents_text [OF written_all [OF ls(2)]] by (simp add: k_def)
  show ?thesis
  proof (cases "drop k es")
    case Nil
    then have "length es \<le> k" by simp
    then have "es = []" unfolding k_def by (cases "length es") simp_all
    then show ?thesis using r ls(1) assms(2) iv by (simp add: verifyTailBeforeAppend_def os_ReadFile_def)
  next
    case (Cons e evts)
    have es: "es = take k es @ e # evts" using Cons by (metis append_take_drop_id)
    let ?before = "concat ess @ take k es"
    have "linked P [] 0 (?before @ e # evts)" using iv es by (metis append_assoc)
    then have lk: "Prev e = chain_hash P [] ?before" "ContentHash P (Payload e) = Content e" "linked P (EntryHash P e) (Seq e) evts"
      unfolding linked_append by simp_all
    have lst: "last (e # evts) = last (concat ess @ es)" using es by (metis last_append append_is_Nil_conv list.discI)
    have ne: "concat ess @ es \<noteq> []" using es by auto
    have sgs: "list_all (\<lambda>e. verifyEventSignature P e (PublicKey kp) = None) (e # evts)"
      unfolding Cons [symmetric] using iv by (auto simp: list_all_iff dest: in_set_dropD)
    have n: "numbered 1 (concat ess @ es)" using iv by simp
    have "unat (Seq (last (concat ess @ es))) = length (concat ess @ es)" using numbered_last [OF n ne] by simp
    then have "Seq (last (concat ess @ es)) = of_nat (length (concat ess @ es))" by (rule seq_of_nat)
    then have "Seq (last (e # evts)) = l_lastSeq l" using iv lst by simp
    moreover have "EntryHash P (last (e # evts)) = l_lastHash l" using iv lst chain_hash_last [OF ne, of P "[]"] by presburger
    ultimately have "check_tail_events P (PublicKey kp) l (Some e) evts = None"
      using check_tail_linked [OF lk(3)] sgs by simp
    moreover have "verifyEventSignature P e (PublicKey kp) = None" using sgs by simp
    moreover have "Prev e = l_sealedHash l" if "Seq e = l_sealedSeq l + 1"
    proof -
      have "unat (Seq e) = 1 + length (concat ess) + length (take k es)" using n es numbered_append [of 1 "?before" "e # evts"]
        by (metis add.assoc append_assoc length_append numbered.simps(2))
      moreover have "unat (l_sealedSeq l + 1) = length (concat ess) + 1"
        using that calculation iv unsigned_less [of "Seq e", where ?'a = nat] by (simp add: unat_word_ariths unat_of_nat)
      ultimately have "length (take k es) = 0" using that by (simp del: length_take)
      then have "take k es = []" by (simp only: length_0_conv)
      then show ?thesis using lk(1) iv by auto
    qed
    ultimately show ?thesis
      using r ls(1) assms(2) lk(2) Cons by (simp add: verifyTailBeforeAppend_def os_ReadFile_def PublicKeyBytes_def)
  qed
qed

text \<open>Without failing calls an append goes through.\<close>

lemma AppendPrepared_quiet:
  assumes "represents P G (PublicKey kp) l w log" "plan w = []" "l_frozenReason l = None" "l_dirLock l" "l_sealErr l = None"
    "payloadModelID raw = Inr m" "raw \<noteq> []" "PrivateKey kp = Some sk" "\<And>m. mldsa_Sign P sk m \<noteq> None"
  shows "\<exists>evt line l' w'. MarshalJSON evt = Inr line \<and> Payload evt = raw \<and> signed_line P kp eventType ring raw l (clock w) line \<and> plan w' = []
     \<and> AppendPrepared P eventType ring raw kp l w =
     ((if length line \<le> MaxEventLineBytes then Inr evt else Inl ErrEventTooLarge, l'), w')"
proof -
  obtain segs ess es where i: "ledger_inv P G (PublicKey kp) l w segs ess es" using assms(1) by (auto simp: represents_def)
  obtain s where s: "contents w (l_path l) = Some s" using i by (auto simp: ledger_inv_def)
  let ?e0 = "next_event P eventType ring raw (FormatRFC3339Nano (clock w)) l"
  obtain sigB64 where sg: "SignB64 P kp (SignatureInputGold SigAlg (Fingerprint P kp) (EntryHash P ?e0)) = Inr sigB64"
    using assms(8) assms(9) [of "SignatureInputGold SigAlg (Fingerprint P kp) (EntryHash P ?e0)"]
    by (auto simp: SignB64_def Sign_def del: not_None_eq)
  let ?evt = "?e0\<lparr>Sig := sigB64\<rparr>"
  have p: "Payload ?evt = raw" by (simp add: next_event_def Let_def)
  then obtain line where ln: "MarshalJSON ?evt = Inr line" using assms(7) by (simp add: MarshalJSON_def)
  have w2: "contents (snd (time_Now w)) = contents w" "plan (snd (time_Now w)) = []" using assms(2) by (simp_all add: time_Now_def)
  have "write_line (l_path l) line (snd (time_Now w)) = (Inr (), set_file (l_path l) (s @ line @ [NL]) (snd (time_Now w)))"
    using s w2 by (simp add: write_line_def io_then_def io_bind_def os_Append_def os_touch_def set_file_def)
  then have "\<exists>l' w'. plan w' = [] \<and> AppendPrepared P eventType ring raw kp l w =
     ((if length line \<le> MaxEventLineBytes then Inr ?evt else Inl ErrEventTooLarge, l'), w')"
    using verifyTail_passes [OF i assms(2)] assms(3-6) sg ln w2(2)
    by (simp add: AppendPrepared_def nowUTC_def append_signed_def Let_def not_less set_file_def)
  moreover have "EntryHash P ?evt = EntryHash P ?e0" by (simp add: EntryHash_def entrySum_def EntryBytes_def)
  then have "signed_line P kp eventType ring raw l (clock w) line" using sg ln unfolding signed_line_def by metis
  ultimately show ?thesis using ln p by blast
qed

subsection \<open>Claims\<close>

text \<open>
  C2. Appending refines the log: from a state that represents a list of records, \<open>AppendPrepared\<close>
  either returns a record with the given type, ring and payload and represents the list with that
  record at its end (for every line the reader's buffer can hold), or refuses and leaves every file as
  it was, or, when a write failed half way, freezes the ledger with at most a part of one line behind
  the old bytes of the tail. This holds whatever system calls fail.
\<close>

theorem append_refines_log:
  assumes "represents P G (PublicKey kp) l w log" "mldsa_laws P" "signer P kp" "appendable eventType ring raw"
    "length log + 1 < 2 ^ 64" "AppendPrepared P eventType ring raw kp l w = ((r, l'), w')"
  shows "case r of
      Inr evt \<Rightarrow> Type evt = eventType \<and> Ring evt = ring \<and> Payload evt = raw \<and> (\<exists>line. MarshalJSON evt = Inr line \<and>
        (length line < MaxEventLineBytes \<longrightarrow> represents P G (PublicKey kp) l' w' (log @ [evt])))
    | Inl e \<Rightarrow> (contents w' = contents w \<and> (l' = l \<or> l_frozenReason l' \<noteq> None))
        \<or> (e = ErrAppendUncertain \<and> l_frozenReason l' \<noteq> None \<and> (\<exists>evt. Payload evt = raw \<and> torn_after (l_path l) w w' evt))"
proof -
  obtain segs ess es where i: "ledger_inv P G (PublicKey kp) l w segs ess es" "map committed log = map committed (concat ess @ es)"
    using assms(1) by (auto simp: represents_def)
  have n: "length (concat ess @ es) + 1 < 2 ^ 64" using assms(5) i(2) by (metis length_map)
  show ?thesis
    using i(1) assms(2-4) n assms(6)
  proof (cases rule: append_outcome)
    case (appended evt line)
    then have "length line < MaxEventLineBytes \<longrightarrow> represents P G (PublicKey kp) l' w' (log @ [evt])"
      using i(2) unfolding represents_def by (metis append_assoc map_append)
    then show ?thesis using appended by auto
  qed auto
qed


text \<open>
  C36. The limit of the writer is one byte beyond that of the reader: a record whose line has exactly
  \<open>MaxEventLineBytes\<close> bytes is appended, and the tail it is appended to can then no longer be read.
\<close>

theorem longest_line_unreadable:
  assumes "MarshalJSON evt = Inr line" "NL \<notin> set line" "length line = MaxEventLineBytes"
    "contents w (l_path l) = Some []" "plan w = []"
  shows "\<exists>l' w'. append_signed P evt l w = ((Inr evt, l'), w') \<and> contents w' (l_path l) = Some (line @ [NL])
     \<and> fst (fst (streamTail P G (line @ [NL], None) (l_path l) None collect [] w')) = Some LineTooLong"
proof -
  let ?w = "set_file (l_path l) (line @ [NL]) w"
  have "write_line (l_path l) line w = (Inr (), ?w)"
    using assms(4,5) by (simp add: write_line_def io_then_def io_bind_def os_Append_def os_touch_def set_file_def)
  then have a: "append_signed P evt l w = ((Inr evt, l\<lparr>l_lastSeq := Seq evt, l_lastHash := EntryHash P evt\<rparr>), ?w)"
    using assms(1,3) by (simp add: append_signed_def)
  have "tokens (line @ [NL]) = [line @ [NL]]" using tokens_line [OF assms(2), of "[]"] by simp
  moreover have "\<not> fits (line @ [NL])" using assms(3) by (simp add: fits_def)
  ultimately have "fst (fst (streamTail P G (line @ [NL], None) (l_path l) None collect [] ?w)) = Some LineTooLong"
    by (simp add: streamTail_def scanLines_def scan_tokens.simps split: prod.split)
  then show ?thesis using a by (intro exI) auto
qed

subsection \<open>Examples\<close>

definition demo_gz :: gz where
  "demo_gz = \<lparr>gzip = (\<lambda>x. x), gunzip = (\<lambda>x. Some (x, True))\<rparr>"

definition demo_path :: bytes where "demo_path = ''ledger.jsonl''"

definition demo_world :: world where
  "demo_world = \<lparr>files = [(demo_path, [])], plan = [], clock = 0\<rparr>"

definition demo_ledger :: Ledger where
  "demo_ledger = (new_ledger demo_path)\<lparr>l_file := True\<rparr>"

definition demo_keypair :: "uint64 KeyPair" where
  "demo_keypair = \<lparr>Algorithm = SigAlg, PublicKey = ''P7'', PrivateKey = Some 7\<rparr>"

lemma demo_path_ok: "path_ok demo_path"
  by (simp add: path_ok_def demo_path_def segment_of_def parseSegmentName_def segmentPrefix_def has_prefix_def)

lemma demo_represents: "represents demo_prims demo_gz (PublicKey demo_keypair) demo_ledger demo_world []"
proof -
  have "segment_of demo_path = None" using demo_path_ok by (simp add: path_ok_def)
  then have "directory demo_world []" by (auto simp: directory_def demo_world_def contents_def)
  then have "ledger_inv demo_prims demo_gz (PublicKey demo_keypair) demo_ledger demo_world [] [] []"
    using demo_path_ok by (auto simp: ledger_inv_def demo_ledger_def new_ledger_def demo_world_def contents_def)
  then show ?thesis unfolding represents_def by (intro exI [of _ "[]"]) simp
qed

lemma demo_signer: "signer demo_prims demo_keypair"
  using demo_pub by (auto simp: signer_def demo_keypair_def demo_prims_def)

lemma demo_payload: "payloadModelID ''{}'' = Inr None" "CanonicalizeV1 ''{}'' = Inr ''{}''"
proof -
  have e: "emitCanonicalJSONValue (JObj []) = ''{}''" by simp
  show "CanonicalizeV1 ''{}'' = Inr ''{}''" using canonicalize_emit [of "JObj []"] e by simp
  have "Decode_object ''{}'' = Inr (Some [])" using Decode_emit_object [of "[]"] e by simp
  moreover have "only_value ''{}''" using only_value_emit [of "JObj []"] e by simp
  ultimately show "payloadModelID ''{}'' = Inr None"
    by (simp add: payloadModelID_def payloadObject_def Unmarshal_object_def map_get_def)
qed

lemma demo_appendable: "appendable EventExperienceCreate 3 ''{}''"
  using demo_payload plain_field_ascii by (simp add: appendable_def EventExperienceCreate_def plain_char_def)

theorem append_refines_log_witness:
  "represents demo_prims demo_gz (PublicKey demo_keypair) demo_ledger demo_world [] \<and>
   (case AppendPrepared demo_prims EventExperienceCreate 3 ''{}'' demo_keypair demo_ledger demo_world of ((r, l'), w') \<Rightarrow>
     (case r of Inr evt \<Rightarrow> Ring evt = 3 \<and> Payload evt = ''{}''
      | Inl e \<Rightarrow> contents w' = contents demo_world \<or> l_frozenReason l' \<noteq> None))"
  using append_refines_log [OF demo_represents demo_laws demo_signer demo_appendable] demo_represents
  by (fastforce split: prod.split sum.split)


text \<open>A record whose line has exactly the length of the limit.\<close>

definition longest_event :: Event where
  "longest_event = \<lparr>Seq = 1, Prev = [], Timestamp = [], Type = [], Ring = 0, Content = [],
     Payload = replicate 33554352 (CHR ''x''), Sig = [], sealed = False, closing = False, container = []\<rparr>"

definition longest_line :: bytes where
  "longest_line = CHR 0x7B # json_key ''entry'' @ EntryBytes longest_event @ CHR '','' # json_key ''payload''
     @ replicate 33554352 (CHR ''x'') @ [CHR 0x7D]"

lemma longest_line_facts:
  "MarshalJSON longest_event = Inr longest_line" "NL \<notin> set longest_line" "length longest_line = MaxEventLineBytes"
proof -
  have e: "EntryBytes longest_event = ''{\"content\":\"\",\"prev\":\"\",\"ring\":0,\"seq\":1,\"ts\":\"\",\"type\":\"\"}''"
    by (simp add: EntryBytes_def longest_event_def json_key_def jsonString_def format_int_def FormatUint_def format_nat_small digit_char_def
        char_of_eq_iff)
  show "MarshalJSON longest_event = Inr longest_line" by (simp add: MarshalJSON_def longest_line_def longest_event_def)
  show "NL \<notin> set longest_line" unfolding longest_line_def e by (auto simp: json_key_def)
  show "length longest_line = MaxEventLineBytes" unfolding longest_line_def e by (simp add: json_key_def MaxEventLineBytes_def)
qed

theorem longest_line_unreadable_witness:
  "\<exists>l' w'. append_signed demo_prims longest_event demo_ledger demo_world = ((Inr longest_event, l'), w')
     \<and> contents w' (l_path demo_ledger) = Some (longest_line @ [NL])
     \<and> fst (fst (streamTail demo_prims demo_gz (longest_line @ [NL], None) (l_path demo_ledger) None collect [] w')) = Some LineTooLong"
  by (rule longest_line_unreadable [OF longest_line_facts])
    (simp_all add: demo_world_def demo_ledger_def new_ledger_def contents_def)

end
