(* ===== verification/Ledger_Seal.thy ===== *)
theory Ledger_Seal
  imports Ledger_Log
begin

text \<open>
  Sealing. Whatever calls fail, the directory after \<open>Seal\<close> reads as the same records: the segment is
  published before the tail is cut, and a reader skips the part of the tail that the newest segment
  repeats.
\<close>

subsection \<open>Replacing the tail\<close>

lemma io_then_assoc: "io_then (io_then a b) c = io_then a (io_then b c)"
  by (rule ext) (auto simp: io_then_def io_bind_def split: prod.splits sum.splits)

lemma io_then_cases:
  assumes "io_then m k w = (r, w')"
  obtains (fail) e where "m w = (Inl e, w')" "r = Inl e" | (ok) x w1 where "m w = (Inr x, w1)" "k w1 = (r, w')"
  using assms by (auto simp: io_then_def io_bind_def split: prod.splits sum.splits)

lemma on_fail_cases:
  assumes "on_fail m h w = (r, w')"
  obtains (fail) e w1 where "m w = (Inl e, w1)" "r = Inl e" "w' = snd (h w1)" | (ok) x where "m w = (Inr x, w')" "r = Inr x"
  using assms by (auto simp: on_fail_def split: prod.splits sum.splits)

lemma copy_ok:
  assumes "io_then os_touch (io_then (os_Append tmp d) (io_then os_touch (io_then os_touch os_touch))) w = (Inr x, w')"
    "contents w tmp = Some s"
  shows "contents w' = (contents w)(tmp \<mapsto> s @ d)"
  using assms os_touch_contents os_Append_ok by (fastforce simp: io_then_Inr)

lemma copy_frame: "touching {tmp} (io_then os_touch (io_then (os_Append tmp d) (io_then os_touch (io_then os_touch os_touch))))"
  by (auto intro!: io_frame)

lemma copy_rename:
  "io_then os_touch (io_then (os_Append tmp d) (io_then os_touch (io_then os_touch (io_then os_touch k))))
     = io_then (io_then os_touch (io_then (os_Append tmp d) (io_then os_touch (io_then os_touch os_touch)))) k"
  by (simp only: io_then_assoc)

lemma put_effect:
  assumes "on_fail (io_then (io_then os_touch (io_then (os_Append tmp d) (io_then os_touch (io_then os_touch os_touch))))
      (os_Rename tmp path)) (os_Remove tmp) w = (r, w')" "contents w tmp = Some []" "path \<noteq> tmp"
  shows "r \<in> range Inl \<and> contents w' path = contents w path \<or> r \<in> range Inr \<and> contents w' path = Some d"
proof -
  let ?copy = "io_then os_touch (io_then (os_Append tmp d) (io_then os_touch (io_then os_touch os_touch)))"
  note cf = touchingD [OF copy_frame [of tmp d]]
  have rm: "contents (snd (os_Remove tmp v)) path = contents v path" for v
    using touchingD [OF touching_remove [of tmp "{tmp}"], of v] assms(3) by (metis prod.collapse singletonD singletonI)
  from assms(1) show ?thesis
  proof (cases rule: on_fail_cases)
    case (fail e v)
    from fail(1) have "contents v path = contents w path"
    proof (cases rule: io_then_cases)
      case (fail e')
      then show ?thesis using cf [of w "Inl e'" v path] assms(3) by simp
    next
      case (ok z u)
      then show ?thesis using cf [of w "Inr z" u path] assms(3) os_Rename_fail [of tmp path u] by fastforce
    qed
    then show ?thesis using rm [of v] fail by simp
  next
    case (ok x)
    then obtain u where u: "?copy w = (Inr (), u)" "os_Rename tmp path u = (Inr x, w')" by (auto simp: io_then_Inr)
    then have "contents u = (contents w)(tmp \<mapsto> d)" using copy_ok [OF u(1), of "[]"] assms(2) by simp
    then show ?thesis using os_Rename_ok [OF u(2)] assms(3) ok by simp
  qed
qed

lemma replaceTail_effect:
  assumes "replaceTail path data k w = (r, w')" "path \<noteq> tail_temp (clock w)"
  shows "\<And>p. p \<noteq> path \<Longrightarrow> p \<noteq> tail_temp (clock w) \<Longrightarrow> contents w' p = contents w p"
    "contents w' path = contents w path \<or> contents w' path = Some (drop k data)"
    "r = Inr x \<Longrightarrow> contents w' path = Some (drop k data)"
proof -
  let ?tmp = "tail_temp (clock w)"
  let ?w0 = "w\<lparr>clock := Suc (clock w)\<rparr>"
  let ?copy = "io_then os_touch (io_then (os_Append ?tmp (drop k data)) (io_then os_touch (io_then os_touch os_touch)))"
  let ?put = "on_fail (io_then ?copy (os_Rename ?tmp path)) (os_Remove ?tmp)"
  have run: "io_then (os_Create ?tmp) (io_then ?put SyncDir) ?w0 = (r, w')"
    using assms(1) unfolding replaceTail_def io_bind_def time_Now_def Rename_def copy_rename [symmetric] by simp
  have fr: "touching {path, ?tmp} (io_then (os_Create ?tmp) (io_then ?put SyncDir))"
    by (auto intro!: io_frame)
  show "contents w' p = contents w p" if "p \<noteq> path" "p \<noteq> ?tmp" for p
    using touchingD [OF fr, of ?w0 r w' p] run that by simp
  have "(r \<in> range Inl \<and> contents w' path = contents w path) \<or> contents w' path = Some (drop k data)"
    using run
  proof (cases rule: io_then_cases)
    case (fail e)
    then show ?thesis using os_Create_fail [of ?tmp ?w0 e w'] by simp
  next
    case (ok y w1)
    have c1: "contents w1 = (contents w)(?tmp \<mapsto> [])" using os_Create_ok [OF ok(1)] by simp
    from ok(2) show ?thesis
    proof (cases rule: io_then_cases)
      case (fail e)
      then show ?thesis using put_effect [OF fail(1)] c1 assms(2) by auto
    next
      case (ok z w2)
      moreover have "contents w' path = contents w2 path" using touchingD [OF touching_SyncDir ok(2), of path "{}"] by simp
      ultimately show ?thesis using put_effect [OF ok(1)] c1 assms(2) by auto
    qed
  qed
  then show "contents w' path = contents w path \<or> contents w' path = Some (drop k data)"
    "r = Inr x \<Longrightarrow> contents w' path = Some (drop k data)" by auto
qed

subsection \<open>Writing a segment\<close>

definition strip :: "Event \<Rightarrow> Event" where
  "strip e = e\<lparr>Sig := []\<rparr>"

lemma strip_simps [simp]: "Seq (strip e) = Seq e" "EntryBytes (strip e) = EntryBytes e" "committed (strip e) = committed e"
    "EntryHash P (strip e) = EntryHash P e" "same_record P (strip e) e"
  by (simp_all add: strip_def EntryBytes_def committed_def EntryHash_def entrySum_def same_record_def)

lemma strip_stored:
  assumes "written e l" "MarshalJSON (strip e) = Inr b"
  shows "stored (strip e) b"
proof -
  obtain ms where ms: "storable e ms" using assms(1) by (auto simp: written_def)
  have "storable (strip e) ms" using ms plain_field_Nil by (simp add: storable_def strip_def)
  moreover have "length b \<le> length l"
    using assms by (auto simp: MarshalJSON_def strip_def written_def EntryBytes_def split: if_splits)
  ultimately show ?thesis using assms by (intro storable_stored [of _ ms]) (auto simp: written_def strip_def)
qed

lemma seal_lines:
  assumes "list_all2 written es ls" "numbered n es" "unat (ws_expect st) = n" "unat f \<le> n" "n \<le> unat head" "ws_after st = None"
    "scan_tokens (seal_line P f head) offset at err (map nl ls) st = (x, st')" "ws_after st' = Some k"
  shows "\<exists>xs h ys sls. es = xs @ h # ys \<and> Seq h = head \<and> Type h = EventSystemWitnessed \<and> Sig h \<noteq> []
     \<and> k = offset + length (text_of (take (Suc (length xs)) ls)) \<and> ws_hash st' = EntryHash P h
     \<and> ws_text st' = ws_text st @ text_of (sls @ [ls ! length xs]) \<and> list_all2 stored (map strip xs) sls"
  using assms
proof (induction arbitrary: n offset at st)
  case Nil
  then show ?case by simp
next
  case (Cons e es l ls)
  have sl: "stored e l" using Cons.hyps(1) by (rule written_stored)
  have ex: "\<not> Seq e < f" "Seq e = ws_expect st"
    using Cons.prems by (auto simp: word_less_nat_alt intro: seq_eqI)
  let ?st = "st\<lparr>ws_expect := ws_expect st + 1\<rparr>"
  consider (stop) y st1 where "\<And>o' z a. seal_line P f head l o' z a st = (Some y, st1)" "ws_after st1 = None"
    | (head) "\<And>o' z a. seal_line P f head l o' z a st = (Some ErrStop, ?st\<lparr>ws_text := ws_text st @ nl l, ws_after := Some (o' + z), ws_hash := EntryHash P e\<rparr>)"
        "\<not> Seq e < head" "Type e = EventSystemWitnessed" "Sig e \<noteq> []"
    | (go) b where "\<And>o' z a. seal_line P f head l o' z a st = (None, ?st\<lparr>ws_text := ws_text st @ nl b\<rparr>)"
        "MarshalJSON (strip e) = Inr b" "Seq e < head"
    using ex Cons.prems(5) stored_line(6) [OF sl]
    by (cases "Seq e < head"; cases "Sig e = []"; cases "MarshalJSON (strip e)"; cases "Type e = EventSystemWitnessed")
      (auto simp: seal_line_def strip_def Let_def)
  then show ?case
  proof cases
    case stop
    then show ?thesis
      using scan_line(2) [OF sl, of "seal_line P f head" offset at st y st1] Cons.prems(6,7) by simp
  next
    case head
    have "Seq e = head" using head(2) Cons.prems(1,4) by (intro seq_eqI) (simp add: word_less_nat_alt)
    moreover have "st' = ?st\<lparr>ws_text := ws_text st @ nl l, ws_after := Some (offset + Suc (length l)), ws_hash := EntryHash P e\<rparr>"
      using scan_line(2) [OF sl, of "seal_line P f head", OF head(1)] Cons.prems(6) by simp
    ultimately show ?thesis
      using head Cons.prems(7) by (intro exI [of _ "[]"] exI [of _ e] exI [of _ es]) simp
  next
    case go
    let ?st1 = "?st\<lparr>ws_text := ws_text st @ nl b\<rparr>"
    have run: "scan_tokens (seal_line P f head) (Suc (offset + length l)) (Suc at) err (map nl ls) ?st1 = (x, st')"
      using scan_line(1) [OF sl, of "seal_line P f head", OF go(1)] Cons.prems(6) by simp
    have n1: "Suc n \<le> unat head" using go(3) Cons.prems(1) by (simp add: word_less_nat_alt)
    have "unat (ws_expect ?st1) = Suc n"
      using Cons.prems(2) n1 unsigned_less [of head, where ?'a = nat] by (simp add: unat_word_ariths)
    then obtain xs h ys sls where ih: "es = xs @ h # ys" "Seq h = head" "Type h = EventSystemWitnessed" "Sig h \<noteq> []"
      "k = Suc (offset + length l) + length (text_of (take (Suc (length xs)) ls))" "ws_hash st' = EntryHash P h"
      "ws_text st' = ws_text ?st1 @ text_of (sls @ [ls ! length xs])" "list_all2 stored (map strip xs) sls"
      using Cons.IH [OF _ _ _ n1 _ run Cons.prems(7)] Cons.prems(1,3,5) by auto
    show ?thesis
      by (rule exI [of _ "e # xs"], rule exI [of _ h], rule exI [of _ ys], rule exI [of _ "b # sls"])
        (use ih strip_stored [OF Cons.hyps(1) go(2)] in simp)
  qed
qed

lemma os_Open_contents: "os_Open p w = (r, w') \<Longrightarrow> contents w' = contents w"
  by (auto simp: os_Open_def split: list.splits option.splits if_splits)

lemma os_Open_Inr: "os_Open p w = (Inr (s, brk), w') \<Longrightarrow> contents w p = Some s"
  by (auto simp: os_Open_def split: list.splits option.splits if_splits)

lemma lines_read_text:
  assumes "list_all2 stored es ls"
  obtains m err where "lines_read (text_of ls) brk e = (text_of (take m ls), err)"
proof (cases brk)
  case None
  then show thesis using that [of "length ls" e] by (simp add: lines_read_def)
next
  case (Some m)
  then show thesis
    using that [of m "Some (IoErr ErrIO)"] stored_run(1) [OF assms] by (simp add: lines_read_def concat_take_lines)
qed

lemma writeSegment_frame:
  assumes "writeSegment P G path tmp f head w = (r, w')" "p \<noteq> tmp"
  shows "contents w' p = contents w p"
proof -
  obtain a w1 where w1: "os_Open path w = (a, w1)" by fastforce
  have c1: "contents w1 = contents w" using os_Open_contents [OF w1] .
  obtain b w2 where w2: "os_Create tmp w1 = (b, w2)" by fastforce
  have c2: "contents w2 p = contents w1 p" using touchingD [OF touching_create [of tmp "{tmp}"] w2] assms(2) by simp
  have ap: "contents (snd (os_Append tmp d w2)) p = contents w2 p" for d
    using touchingD [OF touching_append [of tmp "{tmp}"], of d w2] assms(2) by (metis prod.collapse singletonD singletonI)
  have fr: "touching {tmp} (io_then (os_Append tmp d) (io_then os_touch os_touch))" for d by (auto intro!: io_frame)
  have "contents (snd (io_then (os_Append tmp d) (io_then os_touch os_touch) w2)) p = contents w2 p" for d
    using fr [of d] assms(2) by (simp add: touching_def)
  moreover have "w' = w1 \<or> w' = w2 \<or> (\<exists>d. w' = snd (os_Append tmp d w2))
      \<or> (\<exists>d. w' = snd (io_then (os_Append tmp d) (io_then os_touch os_touch) w2))"
    using assms(1) w1 w2 unfolding writeSegment_def
    by (auto split: sum.splits prod.splits if_splits option.splits) (metis snd_conv)+
  ultimately show ?thesis using c1 c2 ap by auto
qed

lemma writeSegment_ok:
  assumes "writeSegment P G path tmp f head w = (Inr (k, hash), w')" "contents w path = Some (text_of ls)"
    "list_all2 written es ls" "numbered (unat f) es" "unat f \<le> unat head"
  shows "\<exists>xs h ys sls. es = xs @ h # ys \<and> Seq h = head \<and> Type h = EventSystemWitnessed \<and> Sig h \<noteq> []
     \<and> k = length (text_of (take (Suc (length xs)) ls)) \<and> hash = EntryHash P h
     \<and> contents w' tmp = Some (gzip G (text_of (sls @ [ls ! length xs]))) \<and> list_all2 stored (map strip xs) sls"
proof -
  let ?st = "\<lparr>ws_text = [], ws_expect = f, ws_after = None, ws_hash = []\<rparr>"
  obtain brk w1 where o1: "os_Open path w = (Inr (text_of ls, brk), w1)"
    using assms(1,2) os_Open_Inr by (fastforce simp: writeSegment_def split: sum.splits prod.splits)
  obtain m err where m: "lines_read (text_of ls) brk None = (text_of (take m ls), err)"
    using lines_read_text [OF written_all [OF assms(3)]] by blast
  obtain w2 where c: "os_Create tmp w1 = (Inr (), w2)"
    using assms(1) o1 by (auto simp: writeSegment_def split: sum.splits prod.splits)
  obtain x st where sc: "scanLines (text_of (take m ls), err) (seal_line P f head) ?st = (x, st)" by fastforce
  have res: "ws_after st = Some k" "ws_hash st = hash"
    "io_then (os_Append tmp (gzip G (ws_text st))) (io_then os_touch os_touch) w2 = (Inr (), w')"
    using assms(1) o1 m c sc by (auto simp: writeSegment_def split: sum.splits prod.splits if_splits option.splits)
  have wr: "list_all2 written (take m es) (take m ls)" using assms(3) by (rule list_all2_takeI)
  have tk: "tokens (text_of (take m ls)) = map nl (take m ls)" using stored_run(1) [OF written_all [OF wr]] .
  obtain xs h ys sls where r: "take m es = xs @ h # ys" "Seq h = head" "Type h = EventSystemWitnessed" "Sig h \<noteq> []"
     "k = length (text_of (take (Suc (length xs)) (take m ls)))" "ws_hash st = EntryHash P h"
     "ws_text st = text_of (sls @ [take m ls ! length xs])" "list_all2 stored (map strip xs) sls"
    using seal_lines [OF wr numbered_take [OF assms(4)] _ order.refl assms(5), of ?st P 0 0 err x st k] sc res(1) tk
    by (auto simp: scanLines_def)
  have lt: "length xs < m" "length xs < length es"
    using arg_cong [OF r(1), of length] by auto
  have "es = xs @ h # (ys @ drop m es)" using r(1) by (metis append_take_drop_id append.assoc append_Cons)
  moreover have "contents w2 tmp = Some []" using os_Create_ok [OF c] by simp
  then have "contents w' tmp = Some (gzip G (ws_text st))"
    using res(3) os_Append_ok os_touch_contents by (fastforce simp: io_then_Inr)
  moreover have "take (Suc (length xs)) (take m ls) = take (Suc (length xs)) ls" "take m ls ! length xs = ls ! length xs"
    using lt(1) by (simp_all add: min_def)
  ultimately show ?thesis using r res(2) by metis
qed

subsection \<open>The published segment\<close>

lemma dot_not_segment: "segment_of (CHR ''.'' # s) = None"
  by (simp add: segment_of_def parseSegmentName_def segmentPrefix_def has_prefix_def)

lemma temp_dot: "\<exists>s. tail_temp n = CHR ''.'' # s" "\<exists>s. segment_temp a b n = CHR ''.'' # s"
  by (simp_all add: tail_temp_def tailTempPrefix_def segment_temp_def segmentTempPrefix_def)

lemma contiguous_snoc: "contiguous n segs \<Longrightarrow> s_first seg = (if segs = [] then n else s_last (last segs) + 1) \<Longrightarrow> contiguous n (segs @ [seg])"
  by (induction segs arbitrary: n) (auto split: if_splits)

lemma directory_extend:
  assumes "directory w segs" "segment_of final = Some seg" "s_first seg = (if segs = [] then 1 else s_last (last segs) + 1)"
    "\<And>n. segment_of n \<noteq> None \<Longrightarrow> n \<noteq> final \<Longrightarrow> contents w' n = contents w n" "contents w' final \<noteq> None"
  shows "directory w' (segs @ [seg])"
proof -
  have "s \<in> set (segs @ [seg]) \<longleftrightarrow> (\<exists>n. contents w' n \<noteq> None \<and> segment_of n = Some s)" for s
  proof
    assume "s \<in> set (segs @ [seg])"
    then consider "s = seg" | "s \<in> set segs" by auto
    then show "\<exists>n. contents w' n \<noteq> None \<and> segment_of n = Some s"
    proof cases
      case 2
      then obtain n where "contents w n \<noteq> None" "segment_of n = Some s" using assms(1) by (auto simp: directory_def)
      then show ?thesis using assms(4,5) by (intro exI [of _ n]) (cases "n = final"; auto)
    qed (use assms(2,5) in auto)
  next
    assume "\<exists>n. contents w' n \<noteq> None \<and> segment_of n = Some s"
    then obtain n where n: "contents w' n \<noteq> None" "segment_of n = Some s" by blast
    show "s \<in> set (segs @ [seg])"
    proof (cases "n = final")
      case False
      then have "contents w n \<noteq> None" using n assms(4) [of n] by auto
      then show ?thesis using n(2) assms(1) by (auto simp: directory_def)
    qed (use n assms(2) in simp)
  qed
  then show ?thesis using assms(1,3) contiguous_snoc [of 1 segs seg] by (auto simp: directory_def)
qed

lemma inv_sealed:
  assumes "ledger_inv P G pub l w segs ess es"
  shows "l_sealedSeq l = (if segs = [] then 0 else s_last (last segs))"
proof (cases "segs = []")
  case True
  then have "ess = []" using assms by (auto simp: ledger_inv_def)
  then show ?thesis using True assms by (simp add: ledger_inv_def)
next
  case False
  have h: "list_all2 (segment_holds G w) segs ess" "numbered 1 (concat ess @ es)" using assms by (simp_all add: ledger_inv_def)
  note nr = newest_run [OF h False]
  obtain fs f where fs: "ess = fs @ [f]" using nr(1) by (cases ess rule: rev_cases) auto
  have "f \<noteq> []" "Seq (last f) = s_last (last segs)" using nr(2) fs by (simp_all add: segment_holds_def)
  moreover have "numbered 1 (concat fs @ f)" using h(2) fs by simp
  ultimately have "unat (s_last (last segs)) = length (concat ess)"
    using numbered_last [of 1 "concat fs @ f"] fs by auto
  then show ?thesis using False assms seq_of_nat by (auto simp: ledger_inv_def)
qed

lemma os_ReadFile_contents: "os_ReadFile p w = (r, w') \<Longrightarrow> contents w' = contents w"
  by (auto simp: os_ReadFile_def split: list.splits option.splits)

lemma os_OpenAppend_contents: "os_OpenAppend p w = (r, w') \<Longrightarrow> contents w p \<noteq> None \<Longrightarrow> contents w' = contents w"
  by (auto simp: os_OpenAppend_def split: list.splits option.splits)

lemma lockLedgerFile_contents: "lockLedgerFile w = (r, w') \<Longrightarrow> contents w' = contents w"
  using os_touch_contents by (auto simp: lockLedgerFile_def split: prod.splits sum.splits)

text \<open>A step that at most puts other bytes in the tail and leaves files with a leading dot behind.\<close>

definition tail_step :: "bytes \<Rightarrow> bytes option \<Rightarrow> world \<Rightarrow> world \<Rightarrow> bool" where
  "tail_step path new w w' \<longleftrightarrow> contents w' path = new \<and> (\<forall>p. p \<noteq> path \<longrightarrow> (\<forall>s. p \<noteq> CHR ''.'' # s) \<longrightarrow> contents w' p = contents w p)"

lemma replace_and_open:
  assumes "io_then (replaceTail path data k) (os_OpenAppend path) w = (r, w')" "path_ok path" "contents w path = Some d"
  shows "tail_step path (Some d) w w' \<or> tail_step path (Some (drop k data)) w w'" "r = Inr x \<Longrightarrow> tail_step path (Some (drop k data)) w w'"
proof -
  have np: "path \<noteq> tail_temp (clock w)" using assms(2) temp_dot(1) by (metis path_ok_def)
  obtain q w1 where q: "replaceTail path data k w = (q, w1)" by fastforce
  note e = replaceTail_effect [OF q np]
  have f: "tail_step path (contents w1 path) w w1" using e(1) temp_dot(1) by (auto simp: tail_step_def)
  have "contents w1 path \<noteq> None" using e(2) assms(3) by auto
  moreover have "w' = w1 \<and> r \<in> range Inl \<or> (\<exists>y r1. q = Inr y \<and> os_OpenAppend path w1 = (r1, w'))"
    using assms(1) q by (auto simp: io_then_def io_bind_def split: sum.splits)
  ultimately have c: "contents w' = contents w1" "r = Inr x \<Longrightarrow> q \<in> range Inr"
    using os_OpenAppend_contents by (fastforce, auto)
  then have t: "tail_step path (contents w1 path) w w'" using f by (simp add: tail_step_def)
  then show "tail_step path (Some d) w w' \<or> tail_step path (Some (drop k data)) w w'" using e(2) assms(3) by auto
  show "r = Inr x \<Longrightarrow> tail_step path (Some (drop k data)) w w'" using c(2) e(3) t by auto
qed

lemma replaceTailFrom_effect:
  assumes "replaceTailFrom k l w = ((r, l'), w')" "path_ok (l_path l)" "contents w (l_path l) = Some data"
  shows "tail_step (l_path l) (Some data) w w' \<or> tail_step (l_path l) (Some (drop k data)) w w'"
    "r = Inr x \<Longrightarrow> tail_step (l_path l) (Some (drop k data)) w w'" "\<exists>b. l' = l\<lparr>l_file := b\<rparr>"
proof -
  have same: "tail_step (l_path l) (Some data) w v" if "contents v = contents w" for v using that assms(3) by (simp add: tail_step_def)
  obtain a w1 where w1: "os_ReadFile (l_path l) w = (a, w1)" by fastforce
  have c1: "contents w1 = contents w" using os_ReadFile_contents [OF w1] .
  obtain b w2 where w2: "(if l_file l then os_touch w1 else (Inr (), w1)) = (b, w2)" by fastforce
  have c2: "contents w2 = contents w" using w2 c1 os_touch_contents by (auto split: if_splits)
  obtain c w3 where w3: "(if l_file l then os_touch w2 else (Inr (), w2)) = (c, w3)" by fastforce
  have c3: "contents w3 = contents w" using w3 c2 os_touch_contents by (auto split: if_splits)
  obtain d w4 where w4: "io_then (replaceTail (l_path l) data k) (os_OpenAppend (l_path l)) w3 = (d, w4)" by fastforce
  have "contents w3 (l_path l) = Some data" using c3 assms(3) by simp
  note r4 = replace_and_open [OF w4 assms(2) this]
  have t4: "tail_step (l_path l) x w3 v \<longleftrightarrow> tail_step (l_path l) x w v" for x v using c3 by (simp add: tail_step_def)
  obtain e w5 where w5: "lockLedgerFile w4 = (e, w5)" by fastforce
  have c5: "contents w5 = contents w4" using lockLedgerFile_contents [OF w5] .
  have a: "a = Inr s \<Longrightarrow> s = data" for s using w1 assms(3) os_ReadFile_ok by fastforce
  consider "w' \<in> {w1, w2, w3}" "r \<in> range Inl" | "d \<in> range Inl" "w' = w4" "r \<in> range Inl" | "d \<in> range Inr" "w' = w5"
    using assms(1) w1 w2 w3 w4 w5 a
    by (auto simp: replaceTailFrom_def Let_def split: sum.splits option.splits)
  then show "tail_step (l_path l) (Some data) w w' \<or> tail_step (l_path l) (Some (drop k data)) w w'"
    "r = Inr x \<Longrightarrow> tail_step (l_path l) (Some (drop k data)) w w'"
    using c1 c2 c3 same r4 t4 c5 by (cases; auto simp: tail_step_def)+
  show "\<exists>b. l' = l\<lparr>l_file := b\<rparr>"
    using assms(1) w1 w2 w3 w4 w5 a by (auto simp: replaceTailFrom_def Let_def split: sum.splits option.splits) (metis Ledger.surjective Ledger.update_convs(3))+
qed

lemma linked_strip: "linked P prev n (map strip xs @ ys) = linked P prev n (xs @ ys)"
  by (induction xs arbitrary: prev n) (simp_all add: strip_def EntryHash_def entrySum_def EntryBytes_def)

lemma numbered_strip [simp]: "numbered n (map strip xs) = numbered n xs"
  by (induction xs arbitrary: n) simp_all

lemma chain_hash_strip: "chain_hash P prev (map strip xs @ ys) = chain_hash P prev (xs @ ys)"
  by (cases ys rule: rev_cases) (simp_all add: chain_hash_def last_map)

lemma sealed_segments:
  assumes inv: "ledger_inv P G pub l w segs ess (xs @ h # ys)"
    and seg: "seg = \<lparr>s_first = l_sealedSeq l + 1, s_last = Seq h, s_path = segmentName (l_sealedSeq l + 1) (Seq h)\<rparr>"
    and head: "Type h = EventSystemWitnessed" "Sig h \<noteq> []" and ls: "list_all2 stored (map strip xs) sls" "stored h hl"
    and w': "\<forall>n. segment_of n \<noteq> None \<longrightarrow> n \<noteq> s_path seg \<longrightarrow> contents w' n = contents w n"
      "contents w' (s_path seg) = Some (gzip G (text_of (sls @ [hl])))"
  defines "ess' \<equiv> ess @ [map strip xs @ [h]]"
  shows "directory w' (segs @ [seg])" "list_all2 (segment_holds G w') (segs @ [seg]) ess'" "numbered 1 (concat ess' @ ys)"
    "map committed (concat ess' @ ys) = map committed (concat ess @ xs @ h # ys)"
proof -
  note iv = inv [unfolded ledger_inv_def]
  let ?n = "length (concat ess)"
  have num: "numbered (Suc ?n) (xs @ h # ys)" using iv by simp
  have sh: "unat (Seq h) = Suc ?n + length xs" using num by simp
  have sf: "unat (l_sealedSeq l + 1) = Suc ?n"
    using iv sh unsigned_less [of "Seq h", where ?'a = nat] by (simp add: unat_word_ariths unat_of_nat)
  have pos: "l_sealedSeq l + 1 \<noteq> 0" "l_sealedSeq l + 1 \<le> Seq h"
    using sf sh by (auto simp: word_le_nat_alt unat_eq_zero [symmetric])
  have so: "segment_of (s_path seg) = Some seg"
    using parse_segmentName [of "l_sealedSeq l + 1" "Seq h"] pos by (simp add: segment_of_def seg word_gt_0)
  have sfirst: "s_first seg = (if segs = [] then 1 else s_last (last segs) + 1)" using inv_sealed [OF inv] by (simp add: seg)
  show dir: "directory w' (segs @ [seg])"
    by (rule directory_extend [OF _ so sfirst]) (use iv w' in auto)
  have "segment_holds G w' s es = segment_holds G w s es" if "s \<in> set segs" for s es
  proof (rule segment_holds_cong)
    have d: "segment_of (s_path s) = Some s" using directory_mem iv that by blast
    have "s \<noteq> seg"
      using directory_sorted(1) [OF dir] that unfolding sorted_wrt_append
      using directory_sorted(2) [OF dir] by (fastforce simp: list_all_iff)
    then have "s_path s \<noteq> s_path seg" using d so by auto
    then show "contents w' (s_path s) = contents w (s_path s)" using d w'(1) by simp
  qed
  then have old: "list_all2 (segment_holds G w') segs ess" using iv by (auto simp: list_all2_conv_all_nth)
  have "list_all2 stored (map strip xs @ [h]) (sls @ [hl])" using ls by (simp add: list_all2_appendI)
  then have "\<exists>ls. contents w' (s_path seg) = Some (gzip G (text_of ls)) \<and> list_all2 stored (map strip xs @ [h]) ls"
    using w'(2) by blast
  moreover have "numbered (unat (s_first seg)) (map strip xs @ [h])" using sf num by (simp add: seg)
  ultimately have "segment_holds G w' seg (map strip xs @ [h])" using head by (simp add: segment_holds_def) (simp add: seg)
  then show "list_all2 (segment_holds G w') (segs @ [seg]) ess'" using old by (simp add: ess'_def list_all2_appendI)
  show "numbered 1 (concat ess' @ ys)" using iv by (simp add: ess'_def)
  show "map committed (concat ess' @ ys) = map committed (concat ess @ xs @ h # ys)" by (simp add: ess'_def)
qed

lemma tail_step_segments: "tail_step path new w w' \<Longrightarrow> path_ok path \<Longrightarrow> segment_of n \<noteq> None \<Longrightarrow> contents w' n = contents w n"
  using dot_not_segment unfolding tail_step_def path_ok_def by metis

lemma drop_lines: "drop (length (text_of (take k ls))) (text_of ls) = text_of (drop k ls)"
  by (metis append_eq_conv_conj append_take_drop_id text_of_simps(3))

lemma same_records: "list_all2 (same_record P) (map strip xs @ [h]) (xs @ [h])"
  by (simp add: list_all2_appendI list_all2_map1 list.rel_refl same_record_def)

text \<open>The state of the files between the steps of a seal.\<close>

lemma sealed_store:
  assumes inv: "ledger_inv P G pub l w segs ess (xs @ h # ys)" and tl: "list_all2 written (xs @ h # ys) ls"
    and seg: "seg = \<lparr>s_first = l_sealedSeq l + 1, s_last = Seq h, s_path = segmentName (l_sealedSeq l + 1) (Seq h)\<rparr>"
    and head: "Type h = EventSystemWitnessed" "Sig h \<noteq> []" and sls: "list_all2 stored (map strip xs) sls"
    and w': "\<forall>n. segment_of n \<noteq> None \<longrightarrow> n \<noteq> s_path seg \<longrightarrow> contents w' n = contents w n"
      "contents w' (s_path seg) = Some (gzip G (text_of (sls @ [ls ! length xs])))"
  shows "contents w' (l_path l) = Some (text_of ls) \<Longrightarrow>
      disk P G pub (l_path l) w' (segs @ [seg]) (ess @ [map strip xs @ [h]]) (xs @ [h]) ys []"
    "contents w' (l_path l) = Some (text_of (drop (Suc (length xs)) ls)) \<Longrightarrow>
      ledger_inv P G pub (l\<lparr>l_file := b, l_sealedSeq := Seq h, l_sealedHash := EntryHash P h, l_segments := segs @ [seg]\<rparr>) w'
        (segs @ [seg]) (ess @ [map strip xs @ [h]]) ys"
    "map committed (concat (ess @ [map strip xs @ [h]]) @ ys) = map committed (concat ess @ xs @ h # ys)"
proof -
  have ln: "length xs < length ls" using list_all2_lengthD [OF tl] by simp
  have "stored h (ls ! length xs)"
    using written_stored list_all2_nthD2 [OF tl ln] by (simp add: nth_append)
  note s = sealed_segments [OF inv seg head sls this w']
  show "map committed (concat (ess @ [map strip xs @ [h]]) @ ys) = map committed (concat ess @ xs @ h # ys)" by (rule s(4))
  have k: "\<exists>k < length (map strip xs @ [h]). list_all2 (same_record P) (drop k (map strip xs @ [h])) (xs @ [h])"
    using same_records [of P xs h] by (intro exI [of _ 0]) simp
  have lk: "linked P [] 0 (concat ess @ map strip xs @ h # ys)"
    using inv linked_strip [of P "chain_hash P [] (concat ess)" "0 + of_nat (length (concat ess))" xs "h # ys"]
    unfolding ledger_inv_def linked_append [of P "[]" 0 "concat ess"] by simp
  show "disk P G pub (l_path l) w' (segs @ [seg]) (ess @ [map strip xs @ [h]]) (xs @ [h]) ys []"
    if "contents w' (l_path l) = Some (text_of ls)"
    unfolding disk_def torn_line_def using s(1-3) that k tl lk inv unfolding ledger_inv_def by auto
  have "list_all2 written ys (drop (Suc (length xs)) ls)"
    using list_all2_dropI [OF tl, of "Suc (length xs)"] by simp
  moreover have "chain_hash P [] (concat ess @ map strip xs @ h # ys) = chain_hash P [] (concat ess @ xs @ h # ys)"
    by (simp add: chain_hash_def)
  moreover have "chain_hash P [] (concat ess @ map strip xs @ [h]) = EntryHash P h" by (simp add: chain_hash_def)
  moreover have "Seq h = of_nat (length (concat ess) + Suc (length xs))"
  proof (rule seq_of_nat)
    have "numbered 1 (concat ess @ xs @ h # ys)" using inv by (simp add: ledger_inv_def)
    then show "unat (Seq h) = length (concat ess) + Suc (length xs)" by simp
  qed
  ultimately show "ledger_inv P G pub (l\<lparr>l_file := b, l_sealedSeq := Seq h, l_sealedHash := EntryHash P h, l_segments := segs @ [seg]\<rparr>) w'
      (segs @ [seg]) (ess @ [map strip xs @ [h]]) ys" if "contents w' (l_path l) = Some (text_of (drop (Suc (length xs)) ls))"
    using s inv that lk unfolding ledger_inv_def by (auto simp: add_ac)
qed

subsection \<open>Sealing\<close>

lemma os_Remove_frame: "p \<noteq> q \<Longrightarrow> contents (snd (os_Remove q w)) p = contents w p"
  using touching_remove [of q "{q}"] by (auto simp: touching_def)

lemma after_rename_effect:
  assumes "after_rename head hash seg k l w = ((r, l'), w')" "path_ok (l_path l)" "contents w (l_path l) = Some data"
  shows "tail_step (l_path l) (Some data) w w' \<or> tail_step (l_path l) (Some (drop k data)) w w'"
    "r = Inr x \<Longrightarrow> tail_step (l_path l) (Some (drop k data)) w w'
       \<and> (\<exists>b. l' = l\<lparr>l_file := b, l_sealedSeq := head, l_sealedHash := hash, l_segments := l_segments l @ [seg]\<rparr>)"
    "r = Inl e \<Longrightarrow> \<exists>b x. l' = l\<lparr>l_file := b, l_sealErr := Some x\<rparr>"
proof -
  obtain a w1 where w1: "SyncDir w = (a, w1)" by fastforce
  have c1: "contents w1 p = contents w p" for p using touchingD [OF touching_SyncDir w1, of p "{}"] by simp
  have d1: "contents w1 (l_path l) = Some data" using c1 assms(3) by simp
  obtain b lx w2 where w2: "replaceTailFrom k l w1 = ((b, lx), w2)" by (metis prod.exhaust)
  note e = replaceTailFrom_effect [OF w2 assms(2) d1]
  have ts: "tail_step (l_path l) x w1 v = tail_step (l_path l) x w v" for x v using c1 by (simp add: tail_step_def)
  have "a \<in> range Inl \<and> w' = w1 \<and> r \<in> range Inl \<and> (\<exists>x. l' = l\<lparr>l_sealErr := Some x\<rparr>)
      \<or> w' = w2 \<and> (case b of Inl _ \<Rightarrow> r \<in> range Inl \<and> (\<exists>x. l' = lx\<lparr>l_sealErr := Some x\<rparr>)
         | Inr _ \<Rightarrow> r = Inr () \<and> l' = lx\<lparr>l_sealedSeq := head, l_sealedHash := hash, l_segments := l_segments lx @ [seg]\<rparr>)"
    using assms(1) w1 w2 by (auto simp: after_rename_def split: sum.splits)
  moreover have "tail_step (l_path l) (Some data) w w1" using c1 assms(3) by (simp add: tail_step_def)
  moreover have "\<exists>b x. l\<lparr>l_sealErr := Some y\<rparr> = l\<lparr>l_file := b, l_sealErr := Some x\<rparr>" for y
    by (intro exI [of _ "l_file l"] exI [of _ y]) simp
  ultimately show "tail_step (l_path l) (Some data) w w' \<or> tail_step (l_path l) (Some (drop k data)) w w'"
    "r = Inr x \<Longrightarrow> tail_step (l_path l) (Some (drop k data)) w w'
       \<and> (\<exists>b. l' = l\<lparr>l_file := b, l_sealedSeq := head, l_sealedHash := hash, l_segments := l_segments l @ [seg]\<rparr>)"
    "r = Inl e \<Longrightarrow> \<exists>b x. l' = l\<lparr>l_file := b, l_sealErr := Some x\<rparr>"
    using e ts by (auto split: sum.splits)
qed

text \<open>An outcome of \<open>Seal\<close>: the records are still there, and the ledger in memory fits the files or refuses.\<close>

definition sealed_outcome ::
  "'sk prims \<Rightarrow> gz \<Rightarrow> bytes \<Rightarrow> uint64 \<Rightarrow> Ledger \<Rightarrow> Event list \<Rightarrow> ledger_err + unit \<Rightarrow> Ledger \<Rightarrow> world \<Rightarrow> bool" where
  "sealed_outcome P G pub head l log r l' w' \<longleftrightarrow>
     (\<exists>segs ess ov es. disk P G pub (l_path l) w' segs ess ov es [] \<and> map committed (concat ess @ es) = map committed log)
     \<and> (case r of Inr _ \<Rightarrow> represents P G pub l' w' log \<and> l_sealedSeq l' = head \<and> l_path l' = l_path l \<and> l_sealErr l' = l_sealErr l
        | Inl e \<Rightarrow> l' = l \<and> represents P G pub l w' log
            \<or> pending P G pub l' w' log \<and> l_path l' = l_path l \<and> l_frozenReason l' = l_frozenReason l)"

lemma unsealed_outcome:
  assumes "ledger_inv P G pub l w segs ess es" "map committed log = map committed (concat ess @ es)"
    "\<And>p. (\<forall>s. p \<noteq> CHR ''.'' # s) \<Longrightarrow> contents w' p = contents w p"
  shows "sealed_outcome P G pub head l log (Inl e) l w'"
proof -
  have p: "path_ok (l_path l)" using assms(1) by (simp add: ledger_inv_def)
  then have "contents w' (l_path l) = contents w (l_path l)" using assms(3) by (simp add: path_ok_def)
  moreover have "contents w' n = contents w n" if "segment_of n \<noteq> None" for n using that assms(3) dot_not_segment by metis
  ultimately have "ledger_inv P G pub l w' segs ess es"
    using assms(1) segments_cong [of w' w segs G ess] unfolding ledger_inv_def by auto
  then show ?thesis using ledger_inv_disk assms(2) unfolding sealed_outcome_def represents_def by fastforce
qed

lemma seal_range:
  assumes inv: "ledger_inv P G pub l w segs ess es" and g: "l_sealedSeq l < head" "head \<le> l_lastSeq l"
  shows "numbered (unat (l_sealedSeq l + 1)) es" "unat (l_sealedSeq l + 1) \<le> unat head"
    "segment_of (segmentName (l_sealedSeq l + 1) head) =
       Some \<lparr>s_first = l_sealedSeq l + 1, s_last = head, s_path = segmentName (l_sealedSeq l + 1) head\<rparr>"
proof -
  have iv: "numbered (Suc (length (concat ess))) es" "l_sealedSeq l = of_nat (length (concat ess))"
    "l_lastSeq l = of_nat (length (concat ess @ es))" using inv by (simp_all add: ledger_inv_def)
  have "es \<noteq> []"
  proof
    assume "es = []"
    then have "l_lastSeq l = l_sealedSeq l" using iv by simp
    then show False using g by simp
  qed
  then have "unat (Seq (hd es)) = Suc (length (concat ess))" using iv(1) by (cases es) simp_all
  then have lt: "Suc (length (concat ess)) < 2 ^ 64" using unsigned_less [of "Seq (hd es)", where ?'a = nat] by simp
  then have u: "unat (l_sealedSeq l) = length (concat ess)" using iv(2) by (simp add: unat_of_nat)
  then have u1: "unat (l_sealedSeq l + 1) = Suc (length (concat ess))" using lt by (simp add: unat_word_ariths)
  show "numbered (unat (l_sealedSeq l + 1)) es" using u1 iv(1) by simp
  show le: "unat (l_sealedSeq l + 1) \<le> unat head" using u u1 g(1) by (simp add: word_less_nat_alt)
  have "0 < l_sealedSeq l + 1" using u1 by (simp add: word_less_nat_alt)
  then show "segment_of (segmentName (l_sealedSeq l + 1) head) =
       Some \<lparr>s_first = l_sealedSeq l + 1, s_last = head, s_path = segmentName (l_sealedSeq l + 1) head\<rparr>"
    using parse_segmentName [of "l_sealedSeq l + 1" head] le by (simp add: segment_of_def word_le_nat_alt)
qed

lemma seal_published:
  assumes inv: "ledger_inv P G pub l w segs ess (xs @ h # ys)" "map committed log = map committed (concat ess @ xs @ h # ys)"
    and tl: "list_all2 written (xs @ h # ys) ls"
    and seg: "seg = \<lparr>s_first = l_sealedSeq l + 1, s_last = Seq h, s_path = segmentName (l_sealedSeq l + 1) (Seq h)\<rparr>"
    and head: "Type h = EventSystemWitnessed" "Sig h \<noteq> []" and sls: "list_all2 stored (map strip xs) sls"
    and w2: "\<forall>n. segment_of n \<noteq> None \<longrightarrow> n \<noteq> s_path seg \<longrightarrow> contents w2 n = contents w n"
      "contents w2 (s_path seg) = Some (gzip G (text_of (sls @ [ls ! length xs])))" "contents w2 (l_path l) = Some (text_of ls)"
    and sn: "segment_of (s_path seg) \<noteq> None"
    and ar: "after_rename (Seq h) (EntryHash P h) seg (length (text_of (take (Suc (length xs)) ls))) l w2 = ((r, l'), w')"
  shows "sealed_outcome P G pub (Seq h) l log r l' w'"
proof -
  have pk: "path_ok (l_path l)" and sg: "l_segments l = segs" using inv(1) by (simp_all add: ledger_inv_def)
  note e = after_rename_effect [OF ar pk w2(3), unfolded drop_lines]
  have c: "contents w' n = contents w2 n" if "segment_of n \<noteq> None" for n using e(1) tail_step_segments pk that by blast
  have "\<forall>n. segment_of n \<noteq> None \<longrightarrow> n \<noteq> s_path seg \<longrightarrow> contents w' n = contents w n" using c w2(1) by simp
  note s = sealed_store [OF inv(1) tl seg head sls this]
  have d: "contents w' (s_path seg) = Some (gzip G (text_of (sls @ [ls ! length xs])))" using c [OF sn] w2(2) by simp
  have cm: "map committed (concat (ess @ [map strip xs @ [h]]) @ ys) = map committed log" using s(3) d inv(2) by simp
  have st0: "\<exists>ov. disk P G pub (l_path l) w' (segs @ [seg]) (ess @ [map strip xs @ [h]]) ov ys []"
    using e(1)
  proof
    assume "tail_step (l_path l) (Some (text_of ls)) w2 w'"
    then show ?thesis using s(1) d by (auto simp: tail_step_def)
  next
    assume "tail_step (l_path l) (Some (text_of (drop (Suc (length xs)) ls))) w2 w'"
    then have "contents w' (l_path l) = Some (text_of (drop (Suc (length xs)) ls))" by (simp add: tail_step_def)
    from s(2) [OF d this, unfolded ledger_inv_disk] show ?thesis by auto
  qed
  have st: "\<exists>segs ess ov es. disk P G pub (l_path l) w' segs ess ov es [] \<and> map committed (concat ess @ es) = map committed log"
    using st0 cm by blast
  show ?thesis
  proof (cases r)
    case (Inl x)
    then obtain b y where l': "l' = l\<lparr>l_file := b, l_sealErr := Some y\<rparr>" using e(3) by blast
    obtain ov where ov: "disk P G pub (l_path l) w' (segs @ [seg]) (ess @ [map strip xs @ [h]]) ov ys []" using st0 ..
    have "pending P G pub l' w' log"
    proof (rule pendingI)
      show "disk P G pub (l_path l') w' (segs @ [seg]) (ess @ [map strip xs @ [h]]) ov ys []" using ov by (simp add: l')
      show "map committed (concat (ess @ [map strip xs @ [h]]) @ ys) = map committed log" by (rule cm)
      show "l_lastSeq l' = of_nat (length (concat (ess @ [map strip xs @ [h]]) @ ys))" using inv(1) by (simp add: l' ledger_inv_def)
      show "l_lastHash l' = chain_hash P [] (concat (ess @ [map strip xs @ [h]]) @ ys)"
        using inv(1) by (simp add: l' ledger_inv_def) (simp add: chain_hash_def)
    qed (simp add: l')
    then show ?thesis using Inl st l' unfolding sealed_outcome_def by auto
  next
    case (Inr x)
    then obtain b where b: "tail_step (l_path l) (Some (text_of (drop (Suc (length xs)) ls))) w2 w'"
      "l' = l\<lparr>l_file := b, l_sealedSeq := Seq h, l_sealedHash := EntryHash P h, l_segments := segs @ [seg]\<rparr>" using e(2) sg by auto
    then have "ledger_inv P G pub l' w' (segs @ [seg]) (ess @ [map strip xs @ [h]]) ys" using s(2) d by (simp add: tail_step_def)
    then have "represents P G pub l' w' log" using cm unfolding represents_def by metis
    then show ?thesis using Inr st b(2) unfolding sealed_outcome_def by auto
  qed
qed

lemma seal_outcome:
  assumes "represents P G pub l w log" "Seal P G head l w = ((r, l'), w')"
  shows "sealed_outcome P G pub head l log r l' w'"
proof -
  obtain segs ess es where inv: "ledger_inv P G pub l w segs ess es" "map committed log = map committed (concat ess @ es)"
    using assms(1) by (auto simp: represents_def)
  define f tmp where "f = l_sealedSeq l + 1" and "tmp = segment_temp f head (clock w)"
  define seg where "seg = \<lparr>s_first = f, s_last = head, s_path = segmentName f head\<rparr>"
  define w0 where "w0 = snd (time_Now w)"
  have w0: "contents w0 = contents w" by (simp add: w0_def time_Now_def)
  have dot: "\<exists>s. tmp = CHR ''.'' # s" using temp_dot(2) by (simp add: tmp_def)
  obtain q w1 where ws: "writeSegment P G (l_path l) tmp f head w0 = (q, w1)" by fastforce
  have c1: "contents w1 p = contents w p" if "\<forall>s. p \<noteq> CHR ''.'' # s" for p
    using writeSegment_frame [OF ws, of p] w0 dot that by auto
  have undone: "sealed_outcome P G pub head l log (Inl e) l (snd (os_Remove tmp v))" if "contents v = contents w1" for e v
    by (rule unsealed_outcome [OF inv]) (use that c1 os_Remove_frame dot in metis)
  have refused: "sealed_outcome P G pub head l log (Inl e) l w" for e by (rule unsealed_outcome [OF inv]) simp
  show ?thesis
  proof (cases "l_frozenReason l = None \<and> l_dirLock l \<and> l_sealErr l = None \<and> head \<le> l_lastSeq l \<and> l_sealedSeq l < head")
    case False
    then have "(\<exists>e. r = Inl e) \<and> l' = l \<and> w' = w"
      using assms(2) by (auto simp: Seal_def split: if_splits option.splits)
    then show ?thesis using refused by auto
  next
    case True
    then have nb: "\<not> l_lastSeq l < head" "\<not> head \<le> l_sealedSeq l" by auto
    have run: "(case q of Inl e \<Rightarrow> ((Inl e, l), snd (os_Remove tmp w1)) | Inr (k, hash) \<Rightarrow> (case Rename tmp (s_path seg) w1 of
        (Inl e, w2) \<Rightarrow> ((Inl (IoErr e), l), snd (os_Remove tmp w2)) | (Inr _, w2) \<Rightarrow> after_rename head hash seg k l w2)) = ((r, l'), w')"
      using assms(2) ws nb True unfolding tmp_def seg_def f_def w0_def by (cases q) (auto simp: Seal_def Let_def)
    show ?thesis
    proof (cases q)
      case (Inl e)
      then show ?thesis using run undone [of w1] by auto
    next
      case (Inr kh)
      obtain k hash where kh: "kh = (k, hash)" by fastforce
      obtain a w2 where rn: "Rename tmp (s_path seg) w1 = (a, w2)" by fastforce
      show ?thesis
      proof (cases a)
        case (Inl e)
        then show ?thesis using run Inr kh rn undone [of w2] os_Rename_fail by (auto simp: Rename_def)
      next
        case a: (Inr x)
        then have ar: "after_rename head hash seg k l w2 = ((r, l'), w')" using run Inr kh rn by simp
        note rg = seal_range [OF inv(1), of head, folded f_def]
        obtain ls where ls: "contents w (l_path l) = Some (text_of ls)" "list_all2 written es ls" using inv(1) by (auto simp: ledger_inv_def)
        obtain xs h ys sls where h: "es = xs @ h # ys" "Seq h = head" "Type h = EventSystemWitnessed" "Sig h \<noteq> []"
           "k = length (text_of (take (Suc (length xs)) ls))" "hash = EntryHash P h"
           "contents w1 tmp = Some (gzip G (text_of (sls @ [ls ! length xs])))" "list_all2 stored (map strip xs) sls"
          using writeSegment_ok [OF ws [unfolded Inr kh] _ ls(2)] rg True ls(1) w0 by auto
        have sn: "segment_of (s_path seg) \<noteq> None" using rg(3) True by (simp add: seg_def)
        have ne: "s_path seg \<noteq> tmp" "l_path l \<noteq> s_path seg" "\<forall>s. l_path l \<noteq> CHR ''.'' # s"
          using sn dot dot_not_segment inv(1) by (auto simp: ledger_inv_def path_ok_def)
        have c2: "contents w2 = (contents w1)(tmp := None, s_path seg \<mapsto> gzip G (text_of (sls @ [ls ! length xs])))"
          using os_Rename_ok [of tmp "s_path seg" w1] rn a h(7) ne(1) by (auto simp: Rename_def)
        have seg: "seg = \<lparr>s_first = l_sealedSeq l + 1, s_last = Seq h, s_path = segmentName (l_sealedSeq l + 1) (Seq h)\<rparr>"
          by (simp add: seg_def f_def h(2))
        have "\<forall>n. segment_of n \<noteq> None \<longrightarrow> n \<noteq> s_path seg \<longrightarrow> contents w2 n = contents w n"
          using c2 c1 dot dot_not_segment by (metis fun_upd_other)
        moreover have "contents w2 (l_path l) = Some (text_of ls)" using c2 c1 ne ls(1) dot by auto
        ultimately show ?thesis
          using seal_published [OF inv [unfolded h(1)] ls(2) [unfolded h(1)] seg h(3,4,8), of w2 r l' w'] c2 sn ar h by simp
      qed
    qed
  qed
qed

subsection \<open>What a reader sees\<close>

lemma committed_delivered:
  "length segs = length ess \<Longrightarrow> map committed (delivered path segs ess es) = map committed (concat ess @ es)"
proof -
  assume "length segs = length ess"
  then have "map committed (concat (map2 (\<lambda>seg. map (in_segment seg)) segs ess)) = map committed (concat ess)"
    by (induction segs ess rule: list_induct2) (simp_all add: in_segment_def committed_def)
  then show ?thesis by (simp add: delivered_def in_tail_def committed_def)
qed

lemma store_quiet: "store P G path (w\<lparr>plan := pl\<rparr>) segs ess ov es = store P G path w segs ess ov es"
proof -
  have c: "contents (w\<lparr>plan := pl\<rparr>) = contents w" by (simp add: contents_def)
  have "segment_holds G (w\<lparr>plan := pl\<rparr>) = segment_holds G w" by (intro ext) (simp add: segment_holds_def c)
  moreover have "directory (w\<lparr>plan := pl\<rparr>) segs = directory w segs" by (simp add: directory_def c)
  ultimately show ?thesis by (simp add: store_def tail_holds_def c)
qed

text \<open>What is on the disk is what a reader without failing calls reads.\<close>

lemma disk_read:
  assumes "gzip_laws G" "disk P G pub path w segs ess ov es []"
  shows "\<exists>evs. fst (ReadAll P G path (w\<lparr>plan := []\<rparr>)) = Inr evs \<and> map committed evs = map committed (concat ess @ es)"
proof -
  have st: "store P G path w segs ess ov es" using assms(2) by (simp add: disk_store)
  have "stream_source P G path None (w\<lparr>plan := []\<rparr>) = ((delivered path segs ess es, None), w\<lparr>plan := []\<rparr>)"
    by (rule stream_source_store [OF assms(1), of _ _ _ _ _ ov]) (simp_all add: st store_quiet)
  moreover have "length segs = length ess" using st by (auto simp: store_def list_all2_lengthD)
  ultimately show ?thesis using committed_delivered by (auto simp: ReadAll_def)
qed

lemma represents_read:
  assumes "gzip_laws G" "represents P G pub l w log"
  shows "\<exists>evs. fst (ReadAll P G (l_path l) (w\<lparr>plan := []\<rparr>)) = Inr evs \<and> map committed evs = map committed log"
  using assms(2) disk_read [OF assms(1)] unfolding represents_def ledger_inv_disk by metis

text \<open>
  C14. Every record is read exactly once and in order, whatever part of the log has been moved into
  segments: reading a store delivers the records of its segments followed by those of its tail, also
  when the tail still begins with records the newest segment already holds.
\<close>

theorem readall_store:
  assumes "gzip_laws G" "store P G path w segs ess ov es" "plan w = []"
  shows "ReadAll P G path w = (Inr (concat (map2 (\<lambda>seg. map (in_segment seg)) segs ess) @ map (in_tail path) es), w)"
  using stream_source_store [OF assms] by (simp add: ReadAll_def delivered_def)

text \<open>
  C3. Sealing neither loses nor alters a record. Whatever call fails on the way, the directory still
  holds a store that a later reader reads as exactly the committed records of the log. When \<open>Seal\<close>
  returns without an error the ledger represents the same log and its sealed boundary is the head it was
  given; when it returns an error, either nothing it holds has changed or it is marked for recovery, and
  then refuses to append.
\<close>

theorem seal_never_loses_records:
  assumes "gzip_laws G" "represents P G pub l w log" "Seal P G head l w = ((r, l'), w')"
  shows "(\<exists>evs. fst (ReadAll P G (l_path l) (w'\<lparr>plan := []\<rparr>)) = Inr evs \<and> map committed evs = map committed log)
     \<and> (case r of Inr _ \<Rightarrow> represents P G pub l' w' log \<and> l_sealedSeq l' = head
        | Inl e \<Rightarrow> l' = l \<and> represents P G pub l w' log \<or> pending P G pub l' w' log)"
proof -
  have s: "sealed_outcome P G pub head l log r l' w'" by (rule seal_outcome [OF assms(2,3)])
  then obtain segs ess ov es where "disk P G pub (l_path l) w' segs ess ov es []" "map committed (concat ess @ es) = map committed log"
    unfolding sealed_outcome_def by blast
  from disk_read [OF assms(1) this(1)] this(2) show ?thesis using s unfolding sealed_outcome_def by (auto split: sum.splits)
qed

subsection \<open>Examples\<close>

text \<open>A ledger whose only record is a witnessed head, before and after it is sealed.\<close>

definition head_record :: Event where
  "head_record = (let e = sample_event\<lparr>Type := EventSystemWitnessed, Content := ContentHash demo_prims ''{}''\<rparr> in
     e\<lparr>Sig := b64_encode (''7'' @ SignatureInputGold SigAlg (PublicKeyFingerprint demo_prims ''P7'') (EntryHash demo_prims e))\<rparr>)"

definition head_line :: bytes where
  "head_line = (case MarshalJSON head_record of Inr line \<Rightarrow> line | Inl _ \<Rightarrow> [])"

lemma length_b64_encode: "length (b64_encode s) \<le> 4 * length s"
  by (induction s rule: b64_encode.induct) simp_all

lemma length_hex: "length (hex_encode s) = 2 * length s"
  by (induction s) simp_all

lemma length_jsonString: "list_all plain_char s \<Longrightarrow> length (jsonString s) = length s + 2"
  using jsonString_plain [OF plain_field_ascii] emit_plain by simp

lemma head_record_fields:
  "Seq head_record = 1" "Prev head_record = []" "Type head_record = EventSystemWitnessed" "Ring head_record = 0"
  "Content head_record = ContentHash demo_prims ''{}''" "Payload head_record = ''{}''" "\<not> sealed head_record"
  "\<not> closing head_record" "container head_record = []" "Timestamp head_record = ''2026-01-01T00:00:00Z''"
  by (simp_all add: head_record_def Let_def sample_event_def del: b64_encode.simps)

lemma head_record_signed:
  "Sig head_record \<noteq> []" "list_all plain_char (Sig head_record)" "verifyEventSignature demo_prims head_record ''P7'' = None"
  "length (Sig head_record) < 4000"
proof -
  show "list_all plain_char (Sig head_record)" using b64_plain by (simp add: head_record_def Let_def del: b64_encode.simps)
  show "Sig head_record \<noteq> []" "verifyEventSignature demo_prims head_record ''P7'' = None"
    by (simp_all add: head_record_def verifyEventSignature_def Verify_def demo_prims_def EntryHash_def entrySum_def EntryBytes_def)
  have "length (sha256 demo_prims s) = 32" for s by (simp add: demo_prims_def)
  then have "length (''7'' @ SignatureInputGold SigAlg (PublicKeyFingerprint demo_prims ''P7'') (EntryHash demo_prims e)) < 1000" for e
    by (simp add: SignatureInputGold_def length_hex PublicKeyFingerprint_def EntryHash_def entrySum_def SigAlg_def
        goldSignatureTag_def goldArtifactKind_def goldCanonicalization_def goldSuiteID_def goldRoleIdentity_def)
  then have "length (b64_encode (''7'' @ SignatureInputGold SigAlg (PublicKeyFingerprint demo_prims ''P7'') (EntryHash demo_prims e))) < 4 * 1000" for e
    by (rule order.strict_trans1 [OF length_b64_encode mult_strict_left_mono]) simp
  then show "length (Sig head_record) < 4000" unfolding head_record_def Let_def by (simp del: b64_encode.simps)
qed

lemma head_written: "written head_record head_line"
proof -
  obtain line where l: "MarshalJSON head_record = Inr line" by (simp add: MarshalJSON_def head_record_fields)
  have "list_all plain_char (ContentHash demo_prims s)" "length (ContentHash demo_prims s) = 64" for s
    using hex_plain by (simp_all add: ContentHash_def length_hex demo_prims_def)
  then have "storable head_record []"
    using plain_field_ascii head_record_signed(2)
    by (simp add: storable_def head_record_fields plain_field_Nil plain_char_def EventSystemWitnessed_def list_all_iff)
  moreover have "length line < 6000"
  proof -
    have "length (jsonString (hex_encode (sha256 demo_prims ''{}''))) = 66"
    proof -
      have "length (sha256 demo_prims ''{}'') = 32" by (simp add: demo_prims_def)
      then show ?thesis using length_jsonString [OF hex_plain, of "sha256 demo_prims ''{}''"] by (simp only: length_hex)
    qed
    then show ?thesis using l head_record_signed(4) length_jsonString [OF head_record_signed(2)]
      by (auto simp: MarshalJSON_def EntryBytes_def head_record_fields json_key_def length_jsonString ContentHash_def
          format_int_def FormatUint_def format_nat_small plain_char_def EventSystemWitnessed_def)
  qed
  ultimately show ?thesis using l by (auto simp: written_def head_record_fields head_line_def MaxEventLineBytes_def)
qed

definition head_world :: world where
  "head_world = \<lparr>files = [(demo_path, text_of [head_line])], plan = [], clock = 0\<rparr>"

definition head_ledger :: Ledger where
  "head_ledger = demo_ledger\<lparr>l_lastSeq := 1, l_lastHash := EntryHash demo_prims head_record\<rparr>"

definition head_segment :: segment where
  "head_segment = \<lparr>s_first = 1, s_last = 1, s_path = segmentName 1 1\<rparr>"

text \<open>The same after a seal that was interrupted before the tail was cut.\<close>

definition overlap_world :: world where
  "overlap_world = \<lparr>files = [(demo_path, text_of [head_line]), (segmentName 1 1, text_of [head_line])], plan = [], clock = 0\<rparr>"

lemma head_inv: "ledger_inv demo_prims demo_gz ''P7'' head_ledger head_world [] [] [head_record]"
proof -
  have "segment_of demo_path = None" using demo_path_ok by (simp add: path_ok_def)
  then have "directory head_world []" by (auto simp: directory_def head_world_def contents_def)
  moreover have "\<exists>ls. contents head_world demo_path = Some (text_of ls) \<and> list_all2 written [head_record] ls"
    using head_written by (intro exI [of _ "[head_line]"]) (simp add: head_world_def contents_def)
  ultimately show ?thesis
    using demo_path_ok head_record_signed(3)
    by (simp add: ledger_inv_def head_ledger_def demo_ledger_def new_ledger_def head_record_fields)
       (simp add: head_record_fields)?
qed

lemma head_represents: "represents demo_prims demo_gz ''P7'' head_ledger head_world [head_record]"
  unfolding represents_def using head_inv by (intro exI [of _ "[]"] exI [of _ "[head_record]"]) simp

lemma overlap_store: "store demo_prims demo_gz demo_path overlap_world [head_segment] [[head_record]] [head_record] []"
proof -
  have n: "segment_of demo_path = None" "segment_of (segmentName 1 1) = Some head_segment"
    using demo_path_ok parse_segmentName [of 1 1] by (simp_all add: path_ok_def segment_of_def head_segment_def)
  then have ne: "demo_path \<noteq> segmentName 1 1" by auto
  then have c: "contents overlap_world demo_path = Some (text_of [head_line])" "contents overlap_world (segmentName 1 1) = Some (text_of [head_line])"
    "contents overlap_world p \<noteq> None \<longleftrightarrow> p = demo_path \<or> p = segmentName 1 1" for p
    by (auto simp: overlap_world_def contents_def)
  have "directory overlap_world [head_segment]"
    unfolding directory_def c(3) using n by (auto simp: head_segment_def)
  moreover have ls: "\<exists>ls. Some (text_of [head_line]) = Some (text_of ls) \<and> list_all2 stored [head_record] ls"
    using written_stored [OF head_written] by (intro exI [of _ "[head_line]"]) simp
  then have "segment_holds demo_gz overlap_world head_segment [head_record]"
    using head_record_signed(1) c(2) by (simp add: segment_holds_def head_segment_def demo_gz_def head_record_fields)
  ultimately show ?thesis
    using c(1) ls by (simp add: store_def tail_holds_def head_record_fields same_record_def)
qed

lemma demo_gzip_laws: "gzip_laws demo_gz"
  by (simp add: gzip_laws_def demo_gz_def)

theorem readall_store_witness:
  "ReadAll demo_prims demo_gz demo_path overlap_world = (Inr [in_segment head_segment head_record], overlap_world)"
  using readall_store [OF demo_gzip_laws overlap_store] by (simp add: overlap_world_def)

theorem seal_never_loses_records_witness:
  "represents demo_prims demo_gz ''P7'' head_ledger head_world [head_record] \<and>
   (case Seal demo_prims demo_gz 1 head_ledger head_world of ((r, l'), w') \<Rightarrow>
      \<exists>evs. fst (ReadAll demo_prims demo_gz demo_path (w'\<lparr>plan := []\<rparr>)) = Inr evs \<and> map committed evs = map committed [head_record])"
proof -
  have "l_path head_ledger = demo_path" by (simp add: head_ledger_def demo_ledger_def new_ledger_def)
  then show ?thesis using head_represents seal_never_loses_records [OF demo_gzip_laws head_represents]
    by (fastforce split: prod.split)
qed

end
