(* ===== verification/Ledger_Open.thy ===== *)
theory Ledger_Open
  imports Ledger_Store
begin

text \<open>
  Opening a ledger again: \<open>OpenVerified\<close> with the recovery of a tail that ends in a part of a line
  (\<open>open_verified.go\<close>), \<open>RecoverSeal\<close> (\<open>seal_recovery.go\<close>) and \<open>Capture\<close> (\<open>capture.go\<close>).
\<close>

subsection \<open>A torn tail\<close>

definition torn_name :: "'sk prims \<Rightarrow> bytes \<Rightarrow> bytes \<Rightarrow> bytes" where
  "torn_name P path torn = path @ ''.torn-'' @ hex_encode (sha256 P torn)"

text \<open>The bytes are staged in a temporary file and published under a name that carries their hash.\<close>

definition publish_suffix :: "'sk prims \<Rightarrow> bytes \<Rightarrow> bytes \<Rightarrow> bytes \<Rightarrow> world \<Rightarrow> io_err option \<times> world" where
  "publish_suffix P path torn tmp w = (case io_then (os_Append tmp torn) (io_then os_touch os_touch) w of
      (Inl e, w1) \<Rightarrow> (Some e, w1)
    | (Inr _, w1) \<Rightarrow> (case Replace tmp (torn_name P path torn) w1 of ((published, err), w2) \<Rightarrow> (err, w2)))"

definition preserveSuffix :: "'sk prims \<Rightarrow> bytes \<Rightarrow> bytes \<Rightarrow> world \<Rightarrow> io_err option \<times> world" where
  "preserveSuffix P path torn w = (case os_CreateTemp (tailTempPrefix @ ''torn-'') tempSuffix w of
      (Inl e, w1) \<Rightarrow> (Some e, w1)
    | (Inr tmp, w1) \<Rightarrow> (case publish_suffix P path torn tmp w1 of (err, w2) \<Rightarrow> (case os_Remove tmp w2 of
          (Inl e, w3) \<Rightarrow> (if err = None \<and> e \<noteq> ErrNotExist then Some e else err, w3)
        | (Inr _, w3) \<Rightarrow> (err, w3))))"

text \<open>\<open>afterPreserve\<close> is what that call returned, \<open>None\<close> where there is none.\<close>

definition trimPreservedSuffix :: "'sk prims \<Rightarrow> bytes \<Rightarrow> bytes \<Rightarrow> nat \<Rightarrow> ledger_err option \<Rightarrow> world \<Rightarrow> ledger_err option \<times> world" where
  "trimPreservedSuffix P path data end_pos afterPreserve w = (case preserveSuffix P path (drop end_pos data) w of
      (Some e, w1) \<Rightarrow> (Some (IoErr e), w1)
    | (None, w1) \<Rightarrow> (case afterPreserve of Some e \<Rightarrow> (Some e, w1)
      | None \<Rightarrow> (case io_then os_touch (io_then (os_Truncate path end_pos) (io_then os_touch os_touch)) w1 of
            (Inl e, w2) \<Rightarrow> (Some (IoErr e), w2) | (Inr _, w2) \<Rightarrow> (None, w2))))"

subsection \<open>OpenVerified\<close>

text \<open>The variables of \<open>openVerified\<close>, and what its caller's head verifier and visitor have become.\<close>

record ('h, 'v) open_vars =
  o_count :: nat
  o_boundary :: Boundary
  o_heads :: "'h option"
  o_visitor :: 'v

definition note_boundary ::
  "'sk prims \<Rightarrow> (Event \<Rightarrow> 'v \<Rightarrow> ledger_err option \<times> 'v) option \<Rightarrow> Event \<Rightarrow> Boundary \<times> 'v \<Rightarrow> ledger_err option \<times> Boundary \<times> 'v" where
  "note_boundary P visit evt s = (let b = \<lparr>B_Seq = Seq evt, B_Hash = EntryHash P evt\<rparr> in
     case visit of None \<Rightarrow> (None, b, snd s) | Some f \<Rightarrow> (case f evt (snd s) of (err, v) \<Rightarrow> (err, b, v)))"

text \<open>The record is read up to where its complete lines end, and proved; what is left over is then moved aside.\<close>

definition verify_tail ::
  "'sk prims \<Rightarrow> gz \<Rightarrow> bytes \<Rightarrow> bytes \<Rightarrow> 'h verify_head \<Rightarrow> (Event \<Rightarrow> 'v \<Rightarrow> ledger_err option \<times> 'v) option
     \<Rightarrow> (uint64 \<Rightarrow> ledger_err option) option \<Rightarrow> ledger_err option \<Rightarrow> bytes \<Rightarrow> nat option
     \<Rightarrow> ('h, 'v) open_vars \<Rightarrow> world \<Rightarrow> (verify_error option \<times> ('h, 'v) open_vars) \<times> world" where
  "verify_tail P G path pubKey VH visit check afterPreserve data brk st w =
    (let end_pos = completeTailEnd data in
     case stream_source P G path (Some (lines_read (take end_pos data) brk None)) w of (source, w1) \<Rightarrow>
     (case verifyChain P pubKey VH (o_heads st) (Some (note_boundary P visit)) (o_boundary st, o_visitor st) source of (r, walk) \<Rightarrow>
      let st' = st\<lparr>o_count := (case r of Inl _ \<Rightarrow> 0 | Inr n \<Rightarrow> n), o_boundary := fst (visitor walk), o_heads := heads walk,
                   o_visitor := snd (visitor walk)\<rparr> in
      (case r of Inl e \<Rightarrow> ((Some e, st'), w1)
       | Inr n \<Rightarrow>
          if n = 0 then ((Some (OtherError (ErrRecordUnreadable NoRecords)), st'), w1)
          else (case (case check of None \<Rightarrow> None | Some f \<Rightarrow> f (B_Seq (o_boundary st'))) of
              Some e \<Rightarrow> ((Some (OtherError e), st'), w1)
            | None \<Rightarrow>
               if end_pos < length data
               then (case trimPreservedSuffix P path data end_pos afterPreserve w1 of (err, w2) \<Rightarrow> ((map_option OtherError err, st'), w2))
               else ((None, st'), w1)))))"

text \<open>
  Opening the tail; the second call stands for the calls on the open file (stat, and the reads of its end),
  and the last one closes it. A call whose failure could only be joined to an error that is already
  returned is left out here and below: which calls fail is arbitrary.
\<close>

definition verify_before ::
  "'sk prims \<Rightarrow> gz \<Rightarrow> bytes \<Rightarrow> bytes \<Rightarrow> 'h verify_head \<Rightarrow> (Event \<Rightarrow> 'v \<Rightarrow> ledger_err option \<times> 'v) option
     \<Rightarrow> (uint64 \<Rightarrow> ledger_err option) option \<Rightarrow> ledger_err option
     \<Rightarrow> ('h, 'v) open_vars \<Rightarrow> world \<Rightarrow> (verify_error option \<times> ('h, 'v) open_vars) \<times> world" where
  "verify_before P G path pubKey VH visit check afterPreserve st w = (case os_Open path w of
      (Inl e, w1) \<Rightarrow> if e \<noteq> ErrNotExist then ((Some (OtherError (IoErr e)), st), w1)
         else verify_tail P G path pubKey VH visit check afterPreserve [] None st w1
    | (Inr (data, brk), w1) \<Rightarrow> (case os_touch w1 of
        (Inl e, w2) \<Rightarrow> ((Some (OtherError (IoErr e)), st), w2)
      | (Inr _, w2) \<Rightarrow> (case verify_tail P G path pubKey VH visit check afterPreserve data brk st w2 of ((err, st'), w3) \<Rightarrow>
          (case os_touch w3 of (Inl e, w4) \<Rightarrow> ((if err = None then Some (OtherError (IoErr e)) else err, st'), w4)
           | (Inr _, w4) \<Rightarrow> ((err, st'), w4)))))"

definition openVerified ::
  "'sk prims \<Rightarrow> gz \<Rightarrow> bytes \<Rightarrow> bytes \<Rightarrow> 'h verify_head \<Rightarrow> 'h option \<Rightarrow> (Event \<Rightarrow> 'v \<Rightarrow> ledger_err option \<times> 'v) option \<Rightarrow> 'v
     \<Rightarrow> (uint64 \<Rightarrow> ledger_err option) option \<Rightarrow> ledger_err option \<Rightarrow> world
     \<Rightarrow> ((verify_error + Ledger) \<times> ('h, 'v) open_vars) \<times> world" where
  "openVerified P G path pubKey VH hs visit v check afterPreserve w =
    (case openLedger P G path (verify_before P G path pubKey VH visit check afterPreserve)
        \<lparr>o_count = 0, o_boundary = \<lparr>B_Seq = 0, B_Hash = []\<rparr>, o_heads = hs, o_visitor = v\<rparr> w of
       ((Inl e, st), w') \<Rightarrow> ((Inl e, st), w')
     | ((Inr l, st), w') \<Rightarrow>
         if LastSeq l \<noteq> B_Seq (o_boundary st) \<or> LastHash l \<noteq> B_Hash (o_boundary st)
         then ((Inl (OtherError ErrTailConflict), st), snd (Close l w'))
         else ((Inr l, st), w'))"

definition OpenVerified ::
  "'sk prims \<Rightarrow> gz \<Rightarrow> bytes \<Rightarrow> bytes \<Rightarrow> 'h verify_head \<Rightarrow> 'h option \<Rightarrow> (Event \<Rightarrow> 'v \<Rightarrow> ledger_err option \<times> 'v) option \<Rightarrow> 'v
     \<Rightarrow> (uint64 \<Rightarrow> ledger_err option) option \<Rightarrow> world \<Rightarrow> ((verify_error + Ledger) \<times> ('h, 'v) open_vars) \<times> world" where
  "OpenVerified P G path pubKey VH hs visit v check = openVerified P G path pubKey VH hs visit v check None"

subsection \<open>RecoverSeal\<close>

text \<open>The errors that say nothing about the record: a failed system call, a witness key that is not there.\<close>

fun io_cause :: "ledger_err \<Rightarrow> bool" where
  "io_cause (IoErr _) = True"
| "io_cause (ErrRecordUnreadable e) = io_cause e"
| "io_cause (ErrTailIntegrity e) = io_cause e"
| "io_cause (ErrSealRecoveryRequired e) = io_cause e"
| "io_cause (ErrCaptureRefused e) = io_cause e"
| "io_cause _ = False"

definition verify_cause :: "verify_error \<Rightarrow> ledger_err" where
  "verify_cause e = (case e of OtherError x \<Rightarrow> x | ChainFailure f \<Rightarrow> Err f)"

definition refuseSealIntegrity :: "ledger_err \<Rightarrow> Ledger \<Rightarrow> ledger_err \<times> Ledger" where
  "refuseSealIntegrity cause l = (ErrTailIntegrity cause, l\<lparr>l_frozenReason := Some (FrozenErr (ErrTailIntegrity cause))\<rparr>)"

text \<open>What follows the proof: the sealed boundary is read again, the tail cut where a seal was interrupted, and opened.\<close>

definition reopen_tail :: "uint64 \<times> bytes \<Rightarrow> segment list \<Rightarrow> Ledger \<Rightarrow> world \<Rightarrow> (ledger_err option \<times> Ledger) \<times> world" where
  "reopen_tail ending segs l w = (case os_OpenAppend (l_path l) w of
      (Inl e, w1) \<Rightarrow> ((Some (IoErr e), l), w1)
    | (Inr _, w1) \<Rightarrow> (case lockLedgerFile w1 of (Some e, w2) \<Rightarrow> ((Some e, l), w2)
      | (None, w2) \<Rightarrow> ((None, l\<lparr>l_file := True, l_sealedSeq := fst ending, l_sealedHash := snd ending, l_segments := segs,
            l_sealErr := None\<rparr>), w2)))"

definition close_file :: "Ledger \<Rightarrow> world \<Rightarrow> (ledger_err option \<times> Ledger) \<times> world" where
  "close_file l w = (if \<not> l_file l then ((None, l), w) else (case os_touch w of (Inl e, w1) \<Rightarrow> ((Some (IoErr e), l), w1)
     | (Inr _, w1) \<Rightarrow> (case os_touch w1 of (Inl e, w2) \<Rightarrow> ((Some (IoErr e), l\<lparr>l_file := False\<rparr>), w2)
       | (Inr _, w2) \<Rightarrow> ((None, l\<lparr>l_file := False\<rparr>), w2))))"

definition recover_files :: "'sk prims \<Rightarrow> gz \<Rightarrow> Ledger \<Rightarrow> world \<Rightarrow> (ledger_err option \<times> Ledger) \<times> world" where
  "recover_files P G l w = (case listSegments w of (Inl e, w1) \<Rightarrow> ((Some e, l), w1)
    | (Inr segs, w1) \<Rightarrow> (case (if segs = [] then (Inr (0, []), w1) else segmentEnd G (last segs) P w1) of
          (Inl e, w2) \<Rightarrow> ((Some e, l), w2)
        | (Inr ending, w2) \<Rightarrow> (case close_file l w2 of ((Some e, l1), w3) \<Rightarrow> ((Some e, l1), w3)
          | ((None, l1), w3) \<Rightarrow> (case sweepDebris w3 of (Some e, w4) \<Rightarrow> ((Some e, l1), w4)
            | (None, w4) \<Rightarrow> (case (if segs = [] then (None, w4) else reconcileTail P G (l_path l) (last segs) w4) of
                  (Some e, w5) \<Rightarrow> ((Some e, l1), w5)
                | (None, w5) \<Rightarrow> reopen_tail ending segs l1 w5)))))"

text \<open>The proof of the containers under the head verifier, whose state is returned beside the result.\<close>

definition recover_verified ::
  "'sk prims \<Rightarrow> gz \<Rightarrow> bytes \<Rightarrow> 'h verify_head \<Rightarrow> 'h option \<Rightarrow> bytes \<Rightarrow> nat option \<Rightarrow> Ledger \<Rightarrow> world
     \<Rightarrow> ((ledger_err option \<times> Ledger) \<times> 'h option) \<times> world" where
  "recover_verified P G pubKey VH hs data brk l w =
    (let end_pos = completeTailEnd data in
     case stream_source P G (l_path l) (Some (lines_read (take end_pos data) brk None)) w of (source, w1) \<Rightarrow>
     (case verifyChain P pubKey VH hs (Some (note_boundary P None)) (\<lparr>B_Seq = 0, B_Hash = []\<rparr>, ()) source of (r, walk) \<Rightarrow>
      (case r of
         Inl e \<Rightarrow> let c = verify_cause e in
           if io_cause c \<or> c = ErrSealedWithoutWitness \<or> c = ErrWitnessKeyUnknown then (((Some c, l), heads walk), w1)
           else (((Some (fst (refuseSealIntegrity c l)), snd (refuseSealIntegrity c l)), heads walk), w1)
       | Inr _ \<Rightarrow> let b = fst (visitor walk) in
           if B_Seq b \<noteq> l_lastSeq l \<or> B_Hash b \<noteq> l_lastHash l
           then (((Some (fst (refuseSealIntegrity StateDiverged l)), snd (refuseSealIntegrity StateDiverged l)), heads walk), w1)
           else (case SyncDir w1 of (Inl e, w2) \<Rightarrow> (((Some (IoErr e), l), heads walk), w2)
             | (Inr _, w2) \<Rightarrow>
                (case (if end_pos < length data then trimPreservedSuffix P (l_path l) data end_pos None w2 else (None, w2)) of
                   (Some e, w3) \<Rightarrow> (((Some e, l), heads walk), w3)
                 | (None, w3) \<Rightarrow> (case os_touch w3 of (Inl e, w4) \<Rightarrow> (((Some (IoErr e), l), heads walk), w4)
                   | (Inr _, w4) \<Rightarrow> (case recover_files P G l w4 of (p, w5) \<Rightarrow> ((p, heads walk), w5)))))))) "

definition RecoverSeal ::
  "'sk prims \<Rightarrow> gz \<Rightarrow> bytes \<Rightarrow> 'h verify_head \<Rightarrow> 'h option \<Rightarrow> Ledger \<Rightarrow> world \<Rightarrow> ((ledger_err option \<times> Ledger) \<times> 'h option) \<times> world" where
  "RecoverSeal P G pubKey VH hs l w =
    (if l_frozenReason l \<noteq> None then (((Some ErrFrozen, l), hs), w)
     else if \<not> l_dirLock l then (((Some ErrClosed, l), hs), w)
     else if l_sealErr l = None then (((None, l), hs), w)
     else (case os_Open (l_path l) w of (Inl e, w1) \<Rightarrow> (((Some (IoErr e), l), hs), w1)
       | (Inr (data, brk), w1) \<Rightarrow> (case os_touch w1 of (Inl e, w2) \<Rightarrow> (((Some (IoErr e), l), hs), w2)
         | (Inr _, w2) \<Rightarrow> recover_verified P G pubKey VH hs data brk l w2)))"

subsection \<open>Capture\<close>

record Capture =
  c_LastSeq :: uint64
  c_LastHash :: bytes
  c_SealedSeq :: uint64
  c_Segments :: "bytes list"

text \<open>The copy of the tail is read back, and must end in the last record the ledger appended.\<close>

definition check_capture :: "'sk prims \<Rightarrow> Ledger \<Rightarrow> bytes \<Rightarrow> ledger_err + Capture" where
  "check_capture P l copied = (case readTailEvents copied 0 of Inl e \<Rightarrow> Inl (ErrCaptureRefused e)
    | Inr evts \<Rightarrow>
       if evts = [] \<and> (l_lastSeq l \<noteq> l_sealedSeq l \<or> l_lastHash l \<noteq> l_sealedHash l) then Inl (ErrCaptureRefused TailTruncated)
       else if evts \<noteq> [] \<and> EntryHash P (last evts) \<noteq> l_lastHash l then Inl (ErrCaptureRefused StateDiverged)
       else Inr \<lparr>c_LastSeq = l_lastSeq l, c_LastHash = l_lastHash l, c_SealedSeq = l_sealedSeq l, c_Segments = map s_path (l_segments l)\<rparr>)"

text \<open>What was copied before the read broke off is written too; the source is closed whatever happened.\<close>

definition copy_bytes :: "bytes \<Rightarrow> bytes \<Rightarrow> world \<Rightarrow> ledger_err option \<times> world" where
  "copy_bytes path tailDst w = (case os_Open path w of (Inl e, w1) \<Rightarrow> (Some (IoErr e), w1)
    | (Inr (data, brk), w1) \<Rightarrow> (case lines_read data brk None of (text, err) \<Rightarrow> (case os_Append tailDst text w1 of (a, w2) \<Rightarrow>
        (case os_touch w2 of (c, w3) \<Rightarrow>
          (case a of Inl e \<Rightarrow> (Some (IoErr e), w3) | Inr _ \<Rightarrow> (case err of Some e \<Rightarrow> (Some e, w3) | None \<Rightarrow>
            (case c of Inl e \<Rightarrow> (Some (IoErr e), w3) | Inr _ \<Rightarrow> (None, w3))))))))"

definition copy_tail :: "'sk prims \<Rightarrow> Ledger \<Rightarrow> bytes \<Rightarrow> world \<Rightarrow> (ledger_err + Capture) \<times> world" where
  "copy_tail P l tailDst w = (case copy_bytes (l_path l) tailDst w of (Some e, w1) \<Rightarrow> (Inl e, w1)
    | (None, w1) \<Rightarrow> (case os_touch w1 of (Inl e, w2) \<Rightarrow> (Inl (IoErr e), w2)
      | (Inr _, w2) \<Rightarrow> (case os_ReadFile tailDst w2 of (Inl e, w3) \<Rightarrow> (Inl (ErrCaptureRefused (IoErr e)), w3)
        | (Inr copied, w3) \<Rightarrow> (check_capture P l copied, w3))))"

text \<open>
  The copy is closed whatever happened, and removed after a failure. The flush of the writer has nothing to
  write; it fails where the writer kept the error of an earlier write.
\<close>

definition Ledger_Capture :: "'sk prims \<Rightarrow> bytes \<Rightarrow> Ledger \<Rightarrow> world \<Rightarrow> (ledger_err + Capture) \<times> world" where
  "Ledger_Capture P tailDst l w =
    (if \<not> l_dirLock l then (Inl (ErrCaptureRefused ErrClosed), w)
     else if \<not> l_file l then (Inl (case l_sealErr l of Some e \<Rightarrow> ErrSealRecoveryRequired e | None \<Rightarrow> ErrCaptureRefused NotOpen), w)
     else (case io_then os_touch (os_Create tailDst) w of (Inl e, w1) \<Rightarrow> (Inl (IoErr e), w1)
       | (Inr _, w1) \<Rightarrow> (case copy_tail P l tailDst w1 of (r, w2) \<Rightarrow> (case os_touch w2 of (c, w3) \<Rightarrow>
           (case r of Inl e \<Rightarrow> (Inl e, snd (os_Remove tailDst w3))
            | Inr cap \<Rightarrow> (case c of Inl e \<Rightarrow> (Inl (IoErr e), snd (os_Remove tailDst w3)) | Inr _ \<Rightarrow> (Inr cap, w3)))))))"

end
