(* ===== verification/Ledger_Reopen.thy ===== *)
theory Ledger_Reopen
  imports Ledger_Seal Ledger_Open
begin

text \<open>
  Opening a ledger again on whatever an interrupted program left in its directory.
\<close>

subsection \<open>What reading and cleaning up leave alone\<close>

text \<open>Every file is kept but those whose name begins with a dot.\<close>

definition kept :: "world \<Rightarrow> world \<Rightarrow> bool" where
  "kept w w' \<longleftrightarrow> (\<forall>p. (\<forall>s. p \<noteq> CHR ''.'' # s) \<longrightarrow> contents w' p = contents w p)"

lemma kept_same: "contents w' = contents w \<Longrightarrow> kept w w'"
  by (simp add: kept_def)

lemma kept_trans: "kept a b \<Longrightarrow> kept b c \<Longrightarrow> kept a c"
  by (simp add: kept_def)

lemma open_segment_same: "open_segment G seg w = (r, w') \<Longrightarrow> contents w' = contents w"
  using os_Open_contents by (fastforce simp: open_segment_def split: prod.splits sum.splits option.splits)

lemma streamSegment_same: "streamSegment G seg fn st w = (r, w') \<Longrightarrow> contents w' = contents w"
  using open_segment_same by (fastforce simp: streamSegment_def split: prod.splits sum.splits option.splits)

lemma segmentEnd_same: "segmentEnd G seg P w = (r, w') \<Longrightarrow> contents w' = contents w"
  using streamSegment_same by (fastforce simp: segmentEnd_def split: prod.splits sum.splits option.splits)

lemma os_ReadDir_same: "os_ReadDir w = (r, w') \<Longrightarrow> contents w' = contents w"
  by (auto simp: os_ReadDir_def split: list.splits option.splits)

lemma listSegments_same: "listSegments w = (r, w') \<Longrightarrow> contents w' = contents w"
  using os_ReadDir_same by (fastforce simp: listSegments_def segmentFiles_def split: prod.splits sum.splits)

lemma stream_segments_same: "stream_segments G fn segs st w = (r, w') \<Longrightarrow> contents w' = contents w"
proof (induction segs arbitrary: st w)
  case (Cons seg segs)
  obtain q st1 w1 where s: "streamSegment G seg fn st w = ((q, st1), w1)" by (metis prod.exhaust)
  show ?case using Cons.prems Cons.IH [of st1 w1] s streamSegment_same [OF s] by (cases q) auto
qed simp

lemma newOverlapChecker_same: "newOverlapChecker G seg from w = (r, w') \<Longrightarrow> contents w' = contents w"
  using open_segment_same by (fastforce simp: newOverlapChecker_def split: prod.splits sum.splits)

lemma overlap_step_world: "ts_world (snd (overlap_step P evt oc t)) = ts_world t"
  by (simp add: overlap_step_def split: prod.split sum.split)

lemma tail_line_same:
  assumes "tail_line P G path fn line offset sz at (t, st) = (err, (t', st'))"
  shows "contents (ts_world t') = contents (ts_world t)"
proof -
  have o: "overlap_step P e oc u = (x, u') \<Longrightarrow> ts_world u' = ts_world u" for e oc u x u'
    using overlap_step_world [of P e oc u] by simp
  show ?thesis
    using assms by (auto simp: tail_line_def Let_def split: sum.splits option.splits if_splits prod.splits
        dest!: o newOverlapChecker_same)
qed

lemma scan_keeps:
  assumes "\<And>line offset sz at s err s'. fn line offset sz at s = (err, s') \<Longrightarrow> I s \<Longrightarrow> I s'" "I s"
  shows "I (snd (scan_tokens fn offset at err toks s))"
  using assms(2)
proof (induction toks arbitrary: offset at s)
  case (Cons tok toks)
  show ?case using Cons.prems Cons.IH assms(1) by (auto simp: scan_tokens.simps(2) Let_def split: prod.split option.split)
qed simp

lemma streamTail_same:
  assumes "streamTail P G r path newest fn st w = (q, w')"
  shows "contents w' = contents w"
proof -
  let ?t = "\<lparr>ts_world = w, ts_oc = None, ts_newest = newest, ts_n = 0\<rparr>"
  have "contents (ts_world (fst (snd (scan_tokens (tail_line P G path fn) 0 0 (snd r) (tokens (fst r)) (?t, st))))) = contents w"
    by (rule scan_keeps [where I = "\<lambda>s. contents (ts_world (fst s)) = contents w"]) (auto dest: tail_line_same)
  then show ?thesis using assms by (auto simp: streamTail_def scanLines_def split: prod.splits)
qed

lemma streamLines_same: "streamLines P G path tail fn st w = (r, w') \<Longrightarrow> contents w' = contents w"
  by (auto simp: streamLines_def split: prod.splits sum.splits option.splits if_splits
      dest!: listSegments_same stream_segments_same os_Open_contents streamTail_same)

lemma stream_source_same: "stream_source P G path tail w = (r, w') \<Longrightarrow> contents w' = contents w"
  using streamLines_same by (fastforce simp: stream_source_def split: prod.splits)

lemma sweep_names_kept: "sweep_names ns w = (r, w') \<Longrightarrow> kept w w'"
proof (induction ns arbitrary: w)
  case (Cons n ns)
  obtain q w1 where o: "os_Remove n w = (q, w1)" by fastforce
  show ?case
  proof (cases "is_debris n")
    case True
    then have "\<exists>s. n = CHR ''.'' # s"
      by (auto simp: is_debris_def has_prefix_def segmentTempPrefix_def tailTempPrefix_def) (metis take_Cons' list.sel(1) neq_Nil_conv take_Nil)+
    then have "kept w w1" using os_Remove_frame [of _ n w] o by (auto simp: kept_def)
    then show ?thesis using Cons.prems Cons.IH [of w1] True o kept_trans by (auto split: sum.splits if_splits)
  qed (use Cons in simp)
qed (simp add: kept_def)

lemma sweepDebris_kept: "sweepDebris w = (r, w') \<Longrightarrow> kept w w'"
  by (auto simp: sweepDebris_def split: prod.splits sum.splits dest!: os_ReadDir_same sweep_names_kept) (auto simp: kept_def)

lemma lockLedgerDir_kept: "lockLedgerDir w = (r, w') \<Longrightarrow> kept w w'"
proof -
  assume a: "lockLedgerDir w = (r, w')"
  obtain q w1 where q: "io_then os_touch (os_OpenAppend LedgerDirLockName) w = (q, w1)" by fastforce
  have f: "touching {LedgerDirLockName} (io_then os_touch (os_OpenAppend LedgerDirLockName))" by (intro io_frame) simp
  have "kept w w1" using touchingD [OF f q] by (auto simp: kept_def LedgerDirLockName_def)
  then show ?thesis using a q by (auto simp: lockLedgerDir_def kept_def split: sum.splits dest!: lockLedgerFile_contents)
qed

lemma disk_cong:
  assumes "disk P G pub path w segs ess ov es torn" "contents w' path = contents w path"
    "\<And>n. segment_of n \<noteq> None \<Longrightarrow> contents w' n = contents w n"
  shows "disk P G pub path w' segs ess ov es torn"
proof -
  have "directory w segs" "list_all2 (segment_holds G w) segs ess" using assms(1) by (simp_all add: disk_def)
  note c = segments_cong [OF assms(3) this]
  show ?thesis using assms(1,2) c unfolding disk_def by simp
qed

lemma disk_kept:
  assumes "disk P G pub path w segs ess ov es torn" "kept w w'"
  shows "disk P G pub path w' segs ess ov es torn"
proof (rule disk_cong [OF assms(1)])
  have "path_ok path" using assms(1) by (simp add: disk_def)
  then show "contents w' path = contents w path" using assms(2) by (simp add: path_ok_def kept_def)
  show "contents w' n = contents w n" if "segment_of n \<noteq> None" for n
    using that assms(2) dot_not_segment unfolding kept_def by metis
qed

lemma disk_same: "disk P G pub path w segs ess ov es torn \<Longrightarrow> contents w' = contents w \<Longrightarrow> disk P G pub path w' segs ess ov es torn"
  using disk_kept kept_same by metis

subsection \<open>Reading with faults\<close>

lemma decodeEvent_not_stop: "decodeEvent line \<noteq> Inl ErrStop"
  by (auto simp: decodeEvent_def UnmarshalJSON_def Let_def split: sum.splits if_splits)

text \<open>A read of a stored text gives all its lines, or breaks off among them with an error.\<close>

lemma lines_stored:
  assumes "list_all2 stored es ls"
  obtains "lines_read (text_of ls) brk None = (text_of ls, None)"
  | m where "lines_read (text_of ls) brk None = (text_of (take m ls), Some (IoErr ErrIO))"
proof (cases brk)
  case None
  then show thesis using that(1) by (simp add: lines_read_def)
next
  case (Some m)
  have "concat (take m (map nl ls)) = text_of (take m ls)" by (simp add: text_of_def take_map)
  then show thesis using that(2) Some stored_run(1) [OF assms] by (simp add: lines_read_def)
qed

lemma segment_scan_faulty:
  assumes "list_all2 stored es ls" "scan_tokens fn offset at (Some e) (map nl ls) st = (None, st')"
  shows False
  using assms
proof (induction arbitrary: offset at st)
  case (Cons x xs l ls)
  then show ?case using stored_line [OF Cons.hyps(1)] by (auto simp: scan_tokens.simps(2) Let_def split: prod.splits option.splits)
qed simp

lemma segment_end_lines:
  assumes "list_all2 stored es ls" "numbered (unat (s_first seg) + k) es" "lst = None \<longleftrightarrow> k = 0"
  shows "scan_tokens (segment_line seg (\<lambda>evt _ _ _. (None, (Seq evt, EntryHash P evt)))) offset at err (map nl ls) (lst, acc)
     = (err, if es = [] then (lst, acc) else (Some (in_segment seg (last es)), (Seq (last es), EntryHash P (last es))))"
  using assms
proof (induction arbitrary: offset at lst acc k)
  case (Cons e es l ls)
  let ?cb = "\<lambda>evt _ _ _. (None, (Seq evt, EntryHash P evt))"
  have "k = 0 \<Longrightarrow> Seq e = s_first seg" using Cons.prems by (intro seq_eqI) simp
  then have f: "\<not> (lst = None \<and> Seq e \<noteq> s_first seg)" using Cons.prems by auto
  have s: "segment_line seg ?cb l x y z (lst, acc) = (None, (Some (in_segment seg e), (Seq e, EntryHash P e)))" for x y z
    using stored_line(6) [OF Cons.hyps(1)] f
    by (auto simp: segment_line_def in_segment_def Let_def EntryHash_def entrySum_def EntryBytes_def)
  show ?case
    unfolding list.map scan_line(1) [OF Cons.hyps(1), of "segment_line seg ?cb", OF s]
    using Cons.IH [of "Suc k" "Some (in_segment seg e)"] Cons.prems by simp
qed simp

lemma open_segment_Inr:
  assumes "gzip_laws G" "contents w (s_path seg) = Some (gzip G text)" "open_segment G seg w = (Inr r, w')"
  obtains brk where "r = lines_read text brk None"
  using assms os_Open_Inr by (fastforce simp: open_segment_def gzip_laws_def split: prod.splits sum.splits option.splits)

lemma segmentEnd_ok:
  assumes "gzip_laws G" "segment_holds G w seg es" "segmentEnd G seg P w = (Inr r, w')"
  shows "r = (Seq (last es), EntryHash P (last es))"
proof -
  let ?cb = "\<lambda>evt _ _ _. (None, (Seq evt, EntryHash P evt))"
  obtain ls where c: "contents w (s_path seg) = Some (gzip G (text_of ls))" "list_all2 stored es ls"
    and n: "numbered (unat (s_first seg) + 0) es" "es \<noteq> []"
    using assms(2) by (auto simp: segment_holds_def)
  obtain t w1 where o: "open_segment G seg w = (Inr t, w1)"
    using assms(3) by (cases "open_segment G seg w") (auto simp: segmentEnd_def streamSegment_def split: sum.splits)
  obtain brk where t: "t = lines_read (text_of ls) brk None" using open_segment_Inr [OF assms(1) c(1) o] .
  obtain lst where s: "scanLines t (segment_line seg ?cb) (None, (0, [])) = (None, (lst, r))"
    using assms(3) o by (auto simp: segmentEnd_def streamSegment_def split: prod.splits option.splits)
  show ?thesis
    using c(2)
  proof (cases rule: lines_stored [of _ _ brk])
    case 1
    then show ?thesis using s t n segment_end_lines [OF c(2) n(1), of None P 0 0 None "(0, [])"] stored_run [OF c(2)] by (simp add: scanLines_def)
  next
    case (2 m)
    have m: "list_all2 stored (take m es) (take m ls)" using c(2) by (simp add: list_all2_takeI)
    have "scan_tokens (segment_line seg ?cb) 0 0 (Some (IoErr ErrIO)) (map nl (take m ls)) (None, (0, [])) = (None, (lst, r))"
      using s t 2 stored_run [OF m] by (simp add: scanLines_def)
    from segment_scan_faulty [OF m this] show ?thesis ..
  qed
qed

lemma oc_read_toks_end: "oc_read_toks err toks = (Inl e, toks') \<Longrightarrow> err \<noteq> Some ErrStop \<Longrightarrow> e \<noteq> ErrStop"
proof (induction toks)
  case (Cons tok toks)
  then show ?case using decodeEvent_not_stop [of "TrimSpace tok"]
    by (cases "decodeEvent (TrimSpace tok)") (auto simp: Let_def split: if_splits)
qed (auto split: option.splits)

lemma oc_check_cases:
  assumes "oc_check P e oc = (r, oc')" "oc_end oc \<noteq> Some ErrStop"
  shows "oc_seg oc' = oc_seg oc" "oc_end oc' = oc_end oc" "r = Inl x \<Longrightarrow> x \<noteq> ErrStop" "r = Inr b \<Longrightarrow> b = (Seq e = s_last (oc_seg oc))"
  using assms oc_read_toks_end
  by (auto simp: oc_check_def oc_read_def split: sum.splits option.splits if_splits prod.splits) 

lemma newOverlapChecker_Inr: "newOverlapChecker G seg n w = (Inr oc, w') \<Longrightarrow> oc_seg oc = seg \<and> oc_end oc \<noteq> Some ErrStop"
proof -
  assume a: "newOverlapChecker G seg n w = (Inr oc, w')"
  obtain q w1 where o: "open_segment G seg w = (q, w1)" by fastforce
  have "snd t \<noteq> Some ErrStop" if "q = Inr t" for t
    using o that by (auto simp: open_segment_def lines_read_def split: prod.splits sum.splits option.splits if_splits)
  then show ?thesis using a o by (cases q) (auto simp: newOverlapChecker_def map_sum_def split: prod.splits sum.splits)
qed

subsection \<open>Finishing an interrupted seal\<close>

lemma reconcile_scan:
  assumes "list_all2 stored es ls" "oc_seg oc = seg" "oc_end oc \<noteq> Some ErrStop"
    "scan_tokens (reconcile_line P) offset at err (map nl ls) (oc, None) = (r, (oc', kf))"
  shows "(\<exists>e. r = Some e \<and> e \<noteq> ErrStop)
    \<or> (\<exists>i < length es. r = Some ErrStop \<and> kf = Some (offset + length (text_of (take (Suc i) ls))) \<and> Seq (es ! i) = s_last seg)
    \<or> r = err \<and> kf = None \<and> (\<forall>e \<in> set es. Seq e \<noteq> s_last seg)"
  using assms
proof (induction arbitrary: offset at oc)
  case (Cons e es l ls)
  note st = stored_line [OF Cons.hyps(1)]
  obtain q oc1 where c: "oc_check P e oc = (q, oc1)" by fastforce
  note oc = oc_check_cases [OF c Cons.prems(2)]
  show ?case
  proof (cases q)
    case (Inl x)
    then have "reconcile_line P l a b d (oc, None) = (Some x, (oc1, None))" for a b d using st c by (simp add: reconcile_line_def)
    from scan_line(2) [OF Cons.hyps(1), of "reconcile_line P", OF this] Cons.prems(3) oc(3) Inl show ?thesis by auto
  next
    case (Inr fin)
    show ?thesis
    proof (cases fin)
      case True
      have "reconcile_line P l offset (Suc (length l)) d (oc, None) = (Some ErrStop, (oc1, Some (offset + Suc (length l))))" for d
        using st c Inr True by (simp add: reconcile_line_def)
      from scan_line(2) [OF Cons.hyps(1), of "reconcile_line P", OF this] Cons.prems(3) have "r = Some ErrStop" "kf = Some (offset + Suc (length l))" by auto
      then show ?thesis using oc(4) Inr True Cons.prems(1) by auto
    next
      case False
      have "reconcile_line P l a b d (oc, None) = (None, (oc1, None))" for a b d using st c Inr False by (simp add: reconcile_line_def)
      from scan_line(1) [OF Cons.hyps(1), of "reconcile_line P", OF this]
      have "scan_tokens (reconcile_line P) (Suc (offset + length l)) (Suc at) err (map nl ls) (oc1, None) = (r, (oc', kf))"
        using Cons.prems(3) by simp
      from Cons.IH [OF _ _ this] Cons.prems(1,2) oc(1,2,4) Inr False show ?thesis by (fastforce simp: nth_Cons')
    qed
  qed
qed simp

lemma replaceTail_step:
  assumes "replaceTail path data k w = (r, w')" "path_ok path" "contents w path = Some d"
  shows "tail_step path (Some d) w w' \<or> tail_step path (Some (drop k data)) w w'" "r = Inr x \<Longrightarrow> tail_step path (Some (drop k data)) w w'"
proof -
  have np: "path \<noteq> tail_temp (clock w)" using assms(2) temp_dot(1) by (metis path_ok_def)
  note e = replaceTail_effect [OF assms(1) np]
  have f: "tail_step path (contents w' path) w w'" using e(1) temp_dot(1) by (auto simp: tail_step_def)
  then show "tail_step path (Some d) w w' \<or> tail_step path (Some (drop k data)) w w'" using e(2) assms(3) by auto
  show "r = Inr x \<Longrightarrow> tail_step path (Some (drop k data)) w w'" using e(3) f by auto
qed

lemma overlap_position:
  assumes "disk P G pub path w segs ess ov es torn" "segs \<noteq> []"
  shows "e \<in> set es \<Longrightarrow> s_last (last segs) < Seq e" "ov \<noteq> [] \<Longrightarrow> Seq (hd ov) \<le> s_last (last segs)"
    "ov \<noteq> [] \<Longrightarrow> Seq (last ov) = s_last (last segs)"
    "i < length (ov @ es) \<Longrightarrow> Seq ((ov @ es) ! i) = s_last (last segs) \<Longrightarrow> Suc i = length ov"
proof -
  have d: "list_all2 (segment_holds G w) segs ess" "numbered 1 (concat ess @ es)" using assms(1) by (simp_all add: disk_def)
  note nr = newest_run [OF d assms(2)]
  define n where "n = unat (s_first (last segs))"
  have ses: "numbered n (last ess)" "Seq (last (last ess)) = s_last (last segs)" "last ess \<noteq> []" using nr(2) by (simp_all add: segment_holds_def n_def)
  have last_n: "Suc (unat (s_last (last segs))) = n + length (last ess)" using nr(4) by (simp add: n_def)
  have new: "unat (Seq (es ! j)) = unat (s_last (last segs)) + 1 + j" if "j < length es" for j using numbered_nth [OF nr(3) that] .
  show gt: "s_last (last segs) < Seq e" if "e \<in> set es" for e
    using that new by (fastforce simp: in_set_conv_nth word_less_nat_alt)
  have old: "\<exists>k < length (last ess). length ov + k = length (last ess) \<and> (\<forall>j < length ov. unat (Seq (ov ! j)) = n + k + j)" if ne: "ov \<noteq> []"
  proof -
    obtain k where k: "k < length (last ess)" "list_all2 (same_record P) (drop k (last ess)) ov"
      using assms(1) ne by (auto simp: disk_def)
    have l: "length ov + k = length (last ess)" using k list_all2_lengthD [OF k(2)] by simp
    have "unat (Seq (ov ! j)) = n + k + j" if "j < length ov" for j
    proof -
      have "Seq (last ess ! (k + j)) = Seq (ov ! j)" using list_all2_nthD2 [OF k(2) that] k(1) by (simp add: same_record_def)
      then show ?thesis using numbered_nth [OF ses(1), of "k + j"] that l by simp
    qed
    then show ?thesis using k l by blast
  qed
  show "Seq (hd ov) \<le> s_last (last segs)" if "ov \<noteq> []"
    using old [OF that] that last_n by (auto simp: word_le_nat_alt hd_conv_nth)
  show "Seq (last ov) = s_last (last segs)" if "ov \<noteq> []"
    using old [OF that] that last_n by (intro seq_eqI) (fastforce simp: last_conv_nth)
  show "Suc i = length ov" if i: "i < length (ov @ es)" "Seq ((ov @ es) ! i) = s_last (last segs)"
  proof (cases "i < length ov")
    case True
    then have "ov \<noteq> []" by auto
    then show ?thesis using old True i last_n by (fastforce simp: nth_append)
  next
    case False
    then have "(ov @ es) ! i \<in> set es" using i(1) by (simp add: nth_append)
    from gt [OF this] i(2) show ?thesis by simp
  qed
qed

lemma disk_cut:
  assumes "disk P G pub path w segs ess ov es []" "contents w path = Some (text_of ls)" "list_all2 written (ov @ es) ls"
    "tail_step path (Some (text_of (drop (length ov) ls))) w w'"
  shows "disk P G pub path w' segs ess [] es []"
proof -
  have d: "directory w segs" "list_all2 (segment_holds G w) segs ess" "path_ok path" using assms(1) by (simp_all add: disk_def)
  have "contents w' n = contents w n" if "segment_of n \<noteq> None" for n by (rule tail_step_segments [OF assms(4) d(3) that])
  note c = segments_cong [OF this d(1,2)]
  have "list_all2 written es (drop (length ov) ls)" using list_all2_dropI [OF assms(3), of "length ov"] by simp
  then show ?thesis using assms(1,4) c unfolding disk_def tail_step_def by auto
qed

lemma first_scan:
  assumes "list_all2 stored es ls"
  shows "scan_tokens first_line 0 0 err (map nl ls) None = (if es = [] then (err, None) else (Some ErrStop, Some (hd es)))"
  using assms
proof cases
  case (Cons e es l ls)
  have "first_line l a b d None = (Some ErrStop, Some e)" for a b d using stored_line(6) [OF Cons(3)] by (simp add: first_line_def)
  from scan_line(2) [OF Cons(3), of first_line, OF this] show ?thesis using Cons by simp
qed simp

text \<open>The part of a tail that was read: all of it, or some of its first lines and an error.\<close>

lemma read_part:
  assumes "list_all2 stored es ls"
  obtains m err where "lines_read (text_of ls) brk None = (text_of (take m ls), err)" "tokens (text_of (take m ls)) = map nl (take m ls)"
    "list_all2 stored (take m es) (take m ls)" "err = None \<and> length ls \<le> m \<or> err = Some (IoErr ErrIO)"
proof -
  have p: "list_all2 stored (take m es) (take m ls)" for m using assms by (simp add: list_all2_takeI)
  show thesis
    using assms
  proof (cases rule: lines_stored [of _ _ brk])
    case 1
    then show thesis using that [of "length ls" None] stored_run(1) [OF p [of "length ls"]] p [of "length ls"] by simp
  next
    case (2 m)
    then show thesis using that [of m] stored_run(1) [OF p [of m]] p by simp
  qed
qed

lemma reconcile_found:
  assumes "disk P G pub path w segs ess ov es []" "segs \<noteq> []" "ov \<noteq> []" "contents w path = Some (text_of ls)" "list_all2 written (ov @ es) ls"
    "newOverlapChecker G (last segs) sq w = (Inr oc, w1)"
    "scanLines (lines_read (text_of ls) brk None) (reconcile_line P) (oc, None) = (err, (oc', kf))"
  shows "(\<exists>e. err = Some e \<and> e \<noteq> ErrStop) \<or> err = Some ErrStop \<and> kf = Some (length (text_of (take (length ov) ls)))"
proof -
  note st = written_all [OF assms(5)]
  have len: "length ls = length (ov @ es)" using list_all2_lengthD [OF st] by simp
  obtain m e0 where m: "lines_read (text_of ls) brk None = (text_of (take m ls), e0)" "tokens (text_of (take m ls)) = map nl (take m ls)"
    "list_all2 stored (take m (ov @ es)) (take m ls)" "e0 = None \<and> length ls \<le> m \<or> e0 = Some (IoErr ErrIO)"
    using read_part [OF st] by blast
  note oc = newOverlapChecker_Inr [OF assms(6)]
  have "scan_tokens (reconcile_line P) 0 0 e0 (map nl (take m ls)) (oc, None) = (err, (oc', kf))"
    using assms(7) m by (simp add: scanLines_def)
  note sc = reconcile_scan [OF m(3) _ _ this, of "last segs"]
  consider "\<exists>e. err = Some e \<and> e \<noteq> ErrStop"
    | i where "i < length (take m (ov @ es))" "err = Some ErrStop" "kf = Some (length (text_of (take (Suc i) (take m ls))))"
        "Seq (take m (ov @ es) ! i) = s_last (last segs)"
    | "err = e0" "\<forall>e \<in> set (take m (ov @ es)). Seq e \<noteq> s_last (last segs)"
    using sc oc by auto
  then show ?thesis
  proof cases
    case (2 i)
    then have i: "i < m" "i < length (ov @ es)" by (simp_all del: take_append length_append)
    then have "Suc i = length ov" using overlap_position(4) [OF assms(1,2), of i] 2(4) by (simp del: take_append)
    then show ?thesis using 2 i(1) by (simp add: min_absorb1)
  next
    case 3
    have "last ov \<in> set (ov @ es)" using assms(3) by simp
    then have "e0 = Some (IoErr ErrIO)"
      using 3(2) m(4) overlap_position(3) [OF assms(1-3)] len by auto
    then show ?thesis using 3 by simp
  qed simp
qed

lemma reconcile_overlap:
  assumes "disk P G pub path w segs ess ov es []" "segs \<noteq> []" "ov \<noteq> []" "contents w path = Some (text_of ls)" "list_all2 written (ov @ es) ls"
    "(case os_touch w of (Inl e, w2) \<Rightarrow> (Some (IoErr e), w2)
      | (Inr _, w2) \<Rightarrow> (case newOverlapChecker G (last segs) sq w2 of (Inl e, w3) \<Rightarrow> (Some e, w3)
        | (Inr oc, w3) \<Rightarrow> (case scanLines (lines_read (text_of ls) brk None) (reconcile_line P) (oc, None) of (err2, (_, kf)) \<Rightarrow>
            if err2 \<noteq> None \<and> err2 \<noteq> Some ErrStop then (err2, w3)
            else (case replaceTail path (text_of ls) (case kf of None \<Rightarrow> length (text_of ls) | Some k \<Rightarrow> k) w3 of
                (Inl e, w4) \<Rightarrow> (Some (IoErr e), w4) | (Inr _, w4) \<Rightarrow> (None, w4))))) = (r, w')"
  shows "\<exists>ov'. disk P G pub path w' segs ess ov' es [] \<and> (r = None \<longrightarrow> ov' = [])"
proof -
  obtain a w2 where a: "os_touch w = (a, w2)" by fastforce
  obtain b w3 where b: "newOverlapChecker G (last segs) sq w2 = (b, w3)" by fastforce
  have c: "contents w2 = contents w" "contents w3 = contents w" using os_touch_contents [OF a] newOverlapChecker_same [OF b] by simp_all
  have stay: ?thesis if "w' \<in> {w2, w3}" "r \<noteq> None" using disk_same [OF assms(1), of w'] c that by auto
  show ?thesis
  proof (cases "a \<in> range Inl \<or> b \<in> range Inl")
    case True
    then show ?thesis using assms(6) a b by (intro stay) (auto split: sum.splits prod.splits if_splits)
  next
    case False
    then obtain x oc where ab: "a = Inr x" "b = Inr oc" by (metis old.sum.exhaust rangeI)
    obtain err oc' kf where s: "scanLines (lines_read (text_of ls) brk None) (reconcile_line P) (oc, None) = (err, (oc', kf))"
      by (metis prod.exhaust)
    have d2: "disk P G pub path w2 segs ess ov es []" "contents w2 path = Some (text_of ls)"
      using disk_same [OF assms(1) c(1)] c(1) assms(4) by simp_all
    show ?thesis
      using reconcile_found [OF d2(1) assms(2,3) d2(2) assms(5) b [unfolded ab] s]
    proof
      assume "\<exists>e. err = Some e \<and> e \<noteq> ErrStop"
      then show ?thesis using assms(6) a b ab s by (intro stay) auto
    next
      let ?k = "length (text_of (take (length ov) ls))"
      assume e: "err = Some ErrStop \<and> kf = Some ?k"
      obtain p w4 where p: "replaceTail path (text_of ls) ?k w3 = (p, w4)" by fastforce
      have "path_ok path" using assms(1) by (simp add: disk_def)
      note rs = replaceTail_step [OF p this, unfolded drop_lines, of "text_of ls"]
      have r: "w' = w4" "r = None \<Longrightarrow> p \<in> range Inr" using assms(6) a b ab s e p by (auto split: sum.splits)
      have t: "tail_step path x w3 w' \<Longrightarrow> tail_step path x w w'" for x using c(2) by (simp add: tail_step_def)
      have cut: "disk P G pub path w' segs ess [] es []" if "tail_step path (Some (text_of (drop (length ov) ls))) w3 w'"
        using disk_cut [OF assms(1,4,5) t [OF that]] .
      have "disk P G pub path w' segs ess ov es []" if "tail_step path (Some (text_of ls)) w3 w'"
      proof (rule disk_cong [OF assms(1)])
        show "contents w' path = contents w path" using that assms(4) by (simp add: tail_step_def)
        show "contents w' n = contents w n" if "segment_of n \<noteq> None" for n
          using tail_step_segments [OF t] \<open>path_ok path\<close> that \<open>tail_step path (Some (text_of ls)) w3 w'\<close> by blast
      qed
      moreover have "r = None \<Longrightarrow> disk P G pub path w' segs ess [] es []" using r rs(2) c(2) assms(4) cut by auto
      ultimately show ?thesis using rs(1) r(1) cut c(2) assms(4) by (cases r) auto
    qed
  qed
qed

lemma reconcileTail_effect:
  assumes "disk P G pub path w segs ess ov es []" "segs \<noteq> []" "reconcileTail P G path (last segs) w = (r, w')"
  shows "\<exists>ov'. disk P G pub path w' segs ess ov' es [] \<and> (r = None \<longrightarrow> ov' = [])"
proof -
  obtain ls where ls: "contents w path = Some (text_of ls)" "list_all2 written (ov @ es) ls" and pk: "path_ok path"
    using assms(1) by (auto simp: disk_def)
  note st = written_all [OF ls(2)]
  obtain q w1 where o: "os_Open path w = (q, w1)" by fastforce
  have c1: "contents w1 = contents w" by (rule os_Open_contents [OF o])
  have same: "disk P G pub path v segs ess ov es []" if "contents v = contents w" for v using disk_same [OF assms(1) that] .
  have stay: ?thesis if "contents w' = contents w" "r = None \<Longrightarrow> ov = []" using same [OF that(1)] that(2) by auto
  show ?thesis
  proof (cases q)
    case (Inl e)
    then have "e = ErrIO" using o ls(1) c1 by (auto simp: os_Open_def split: list.splits option.splits if_splits)
    then show ?thesis using assms(3) o Inl c1 by (intro stay) (auto simp: reconcileTail_def)
  next
    case (Inr d)
    obtain brk where d: "d = (text_of ls, brk)" using os_Open_Inr o Inr ls(1) by (cases d) fastforce
    obtain m e0 where m: "lines_read (text_of ls) brk None = (text_of (take m ls), e0)" "tokens (text_of (take m ls)) = map nl (take m ls)"
      "list_all2 stored (take m (ov @ es)) (take m ls)" "e0 = None \<and> length ls \<le> m \<or> e0 = Some (IoErr ErrIO)"
      using read_part [OF st] by blast
    have f: "scanLines (lines_read (text_of ls) brk None) first_line None
        = (if take m (ov @ es) = [] then (e0, None) else (Some ErrStop, Some (hd (ov @ es))))"
      using first_scan [OF m(3), of e0] m(1,2) by (auto simp: scanLines_def hd_take simp del: take_append)
    note run = assms(3) [unfolded reconcileTail_def o Inr d, simplified, unfolded f]
    show ?thesis
    proof (cases "take m (ov @ es) = []")
      case True
      have "r = None \<Longrightarrow> ov = []" using run True m(4) list_all2_lengthD [OF st] by (auto simp del: take_append split: if_splits)
      moreover have "w' = w1" using run True m(4) by (auto simp del: take_append split: if_splits)
      ultimately show ?thesis using c1 by (intro stay) auto
    next
      case False
      then have "ov @ es \<noteq> []" by auto
      then have ov: "ov \<noteq> []" if "\<not> s_last (last segs) < Seq (hd (ov @ es))"
        using that overlap_position(1) [OF assms(1,2), of "hd (ov @ es)"] by auto
      show ?thesis
      proof (cases "s_last (last segs) < Seq (hd (ov @ es)) \<or> Seq (hd (ov @ es)) < s_first (last segs)")
        case True
        have "w' = w1" "r = None \<Longrightarrow> s_last (last segs) < Seq (hd (ov @ es))" using run True False by (auto split: if_splits)
        moreover have "s_last (last segs) < Seq (hd (ov @ es)) \<Longrightarrow> ov = []" using overlap_position(2) [OF assms(1,2)] by (cases "ov = []") (auto dest: leD)
        ultimately show ?thesis using c1 by (intro stay) auto
      next
        case in_range: False
        have "disk P G pub path w1 segs ess ov es []" "contents w1 path = Some (text_of ls)" using same [OF c1] c1 ls(1) by simp_all
        from reconcile_overlap [OF this(1) assms(2) ov this(2) ls(2), of brk "Seq (hd (ov @ es))" r w']
          run [unfolded if_not_P [OF False]] in_range show ?thesis by simp
      qed
    qed
  qed
qed

subsection \<open>Opening\<close>

lemma chain_state_run:
  assumes "list_all2 stored es ls"
    "b \<Longrightarrow> es \<noteq> [] \<Longrightarrow> 0 < l_sealedSeq l \<Longrightarrow> Seq (hd es) = l_sealedSeq l + 1 \<and> Prev (hd es) = l_sealedHash l"
  shows "chain_state P b (map nl ls) l = Inr (if es = [] then l else l\<lparr>l_lastSeq := Seq (last es), l_lastHash := EntryHash P (last es)\<rparr>)"
  using assms
proof (induction arbitrary: b l)
  case (Cons e es l' ls)
  let ?l = "l\<lparr>l_lastSeq := Seq e, l_lastHash := EntryHash P e\<rparr>"
  have "chain_state P b (map nl (l' # ls)) l = chain_state P False (map nl ls) ?l"
    using stored_line [OF Cons.hyps(1)] Cons.prems by auto
  then show ?case using Cons.IH [of False ?l] by simp
qed simp

lemma open_tail_effect:
  assumes "open_tail P l w = (r, w')" "contents w (l_path l) = Some (text_of ls)" "list_all2 stored es ls"
    "es \<noteq> [] \<Longrightarrow> 0 < l_sealedSeq l \<Longrightarrow> Seq (hd es) = l_sealedSeq l + 1 \<and> Prev (hd es) = l_sealedHash l"
  shows "contents w' = contents w"
    "r = Inr l' \<Longrightarrow> l' = (if es = [] then l else l\<lparr>l_lastSeq := Seq (last es), l_lastHash := EntryHash P (last es)\<rparr>)\<lparr>l_file := True\<rparr>"
proof -
  obtain a w1 where a: "os_OpenAppend (l_path l) w = (a, w1)" by fastforce
  obtain b w2 where b: "lockLedgerFile w1 = (b, w2)" by fastforce
  obtain c w3 where c: "os_ReadFile (l_path l) w2 = (c, w3)" by fastforce
  have s: "contents w1 = contents w" "contents w2 = contents w" "contents w3 = contents w"
    using os_OpenAppend_contents [OF a] lockLedgerFile_contents [OF b] os_ReadFile_contents [OF c] assms(2) by simp_all
  show "contents w' = contents w"
    using assms(1) a b c s by (auto simp: open_tail_def readChainState_def split: sum.splits option.splits)
  have "c = Inr s \<Longrightarrow> s = text_of ls" for s using c s(2) assms(2) os_ReadFile_ok by fastforce
  then show "r = Inr l' \<Longrightarrow> l' = (if es = [] then l else l\<lparr>l_lastSeq := Seq (last es), l_lastHash := EntryHash P (last es)\<rparr>)\<lparr>l_file := True\<rparr>"
    using assms(1) a b c chain_state_run [OF assms(3), of True l P] assms(4) stored_run(1) [OF assms(3)]
    by (auto simp: open_tail_def readChainState_def split: sum.splits option.splits)
qed

lemma run_boundary:
  assumes "numbered 1 xs" "xs \<noteq> []"
  shows "Seq (last xs) = of_nat (length xs)" "EntryHash P (last xs) = chain_hash P [] xs"
  using seq_of_nat [of "Seq (last xs)" "length xs"] numbered_last [OF assms] assms(2) by (simp_all add: chain_hash_def)

lemma run_continues:
  assumes "linked P [] 0 (xs @ es)" "es \<noteq> []"
  shows "Seq (hd es) = of_nat (length xs) + 1" "Prev (hd es) = chain_hash P [] xs"
  using assms linked_append [of P "[]" 0 xs es] by (cases es; simp)+

text \<open>The ledger that opening returns, on the records the files hold.\<close>

definition reopened :: "bytes \<Rightarrow> Ledger \<Rightarrow> bool" where
  "reopened path l \<longleftrightarrow> l_path l = path \<and> l_dirLock l \<and> l_file l \<and> l_sealErr l = None \<and> l_frozenReason l = None"

lemma open_tail_inv:
  assumes "disk P G pub path w segs ess [] es []" "open_tail P l w = (r, w')"
    "l = (new_ledger path)\<lparr>l_sealedSeq := of_nat (length (concat ess)), l_sealedHash := chain_hash P [] (concat ess), l_segments := segs,
       l_lastSeq := of_nat (length (concat ess)), l_lastHash := chain_hash P [] (concat ess)\<rparr>"
  shows "disk P G pub path w' segs ess [] es []" "r = Inr l' \<Longrightarrow> ledger_inv P G pub l' w' segs ess es \<and> reopened path l'"
proof -
  have d: "numbered 1 (concat ess @ es)" "linked P [] 0 (concat ess @ es)" using assms(1) by (simp_all add: disk_def)
  obtain ls where ls: "contents w path = Some (text_of ls)" "list_all2 written es ls" using assms(1) by (auto simp: disk_def)
  have lp: "l_path l = path" "l_sealedSeq l = of_nat (length (concat ess))" "l_sealedHash l = chain_hash P [] (concat ess)"
    by (simp_all add: assms(3) new_ledger_def)
  have "es \<noteq> [] \<Longrightarrow> Seq (hd es) = l_sealedSeq l + 1 \<and> Prev (hd es) = l_sealedHash l" using run_continues [OF d(2)] lp by simp
  note e = open_tail_effect [OF assms(2) _ written_all [OF ls(2)], unfolded lp(1), OF ls(1) this]
  show disk': "disk P G pub path w' segs ess [] es []" using disk_same [OF assms(1)] e(1) by blast
  have "bounds P l' segs ess es \<and> reopened path l'" if "r = Inr l'"
  proof (cases "es = []")
    case True
    then show ?thesis using e(2) that by (simp add: bounds_def reopened_def assms(3) new_ledger_def)
  next
    case False
    then show ?thesis using e(2) that run_boundary [OF d(1)]
      by (simp add: bounds_def reopened_def assms(3) new_ledger_def)
  qed
  then show "r = Inr l' \<Longrightarrow> ledger_inv P G pub l' w' segs ess es \<and> reopened path l'"
    using disk' by (simp add: ledger_inv_disk reopened_def)
qed

lemma listSegments_ok:
  assumes "directory w segs" "listSegments w = (Inr ss, w')"
  shows "ss = segs"
proof -
  have "directory (w\<lparr>plan := []\<rparr>) segs" using assms(1) by (simp add: directory_def)
  from listSegments_directory [OF this] have "listSegments (w\<lparr>plan := []\<rparr>) = (Inr segs, w\<lparr>plan := []\<rparr>)" by simp
  moreover have "fst (listSegments (w\<lparr>plan := []\<rparr>)) = Inr ss"
    using assms(2) by (auto simp: listSegments_def segmentFiles_def os_ReadDir_def split: list.splits option.splits if_splits)
  ultimately show ?thesis by simp
qed

lemma newest_boundary:
  assumes "disk P G pub path w segs ess ov es torn" "segs \<noteq> []"
  shows "segment_holds G w (last segs) (last ess)" "Seq (last (last ess)) = of_nat (length (concat ess))"
    "EntryHash P (last (last ess)) = chain_hash P [] (concat ess)"
proof -
  have d: "list_all2 (segment_holds G w) segs ess" "numbered 1 (concat ess @ es)" using assms(1) by (simp_all add: disk_def)
  note nr = newest_run [OF d assms(2)]
  show "segment_holds G w (last segs) (last ess)" by (rule nr(2))
  have ne: "last ess \<noteq> []" using nr(2) by (simp add: segment_holds_def)
  obtain fs where fs: "ess = fs @ [last ess]" using nr(1) by (metis append_butlast_last_id)
  have c: "concat ess \<noteq> []" "last (concat ess) = last (last ess)" using ne by (subst fs, simp)+
  have "numbered 1 (concat ess)" using d(2) by simp
  from run_boundary [OF this c(1)] c(2)
  show "Seq (last (last ess)) = of_nat (length (concat ess))" "EntryHash P (last (last ess)) = chain_hash P [] (concat ess)" by simp_all
qed

lemma open_cleaned_effect:
  assumes "gzip_laws G" "disk P G pub path w segs ess ov es []" "open_cleaned P G path w = (r, w')"
  shows "\<exists>ov'. disk P G pub path w' segs ess ov' es []"
    "r = Inr l \<Longrightarrow> ledger_inv P G pub l w' segs ess es \<and> reopened path l"
proof -
  obtain a w1 where a: "sweepDebris w = (a, w1)" by fastforce
  obtain b w2 where b: "listSegments w1 = (b, w2)" by fastforce
  obtain c w3 where c: "segmentEnd G (last segs) P w2 = (c, w3)" by fastforce
  obtain d w4 where d: "reconcileTail P G path (last segs) w3 = (d, w4)" by fastforce
  have d1: "disk P G pub path w1 segs ess ov es []" using disk_kept [OF assms(2) sweepDebris_kept [OF a]] .
  have d2: "disk P G pub path w2 segs ess ov es []" using disk_same [OF d1 listSegments_same [OF b]] .
  have d3: "disk P G pub path w3 segs ess ov es []" using disk_same [OF d2 segmentEnd_same [OF c]] .
  have bs: "b = Inr ss \<Longrightarrow> ss = segs" for ss using listSegments_ok [of w1 segs ss w2] d1 b by (simp add: disk_def)
  let ?l = "(new_ledger path)\<lparr>l_sealedSeq := of_nat (length (concat ess)), l_sealedHash := chain_hash P [] (concat ess), l_segments := segs,
       l_lastSeq := of_nat (length (concat ess)), l_lastHash := chain_hash P [] (concat ess)\<rparr>"
  consider (failed) "w' \<in> {w1, w2, w3}" "r \<in> range Inl"
    | (empty) "segs = []" "open_tail P (new_ledger path) w2 = (r, w')"
    | (cut_failed) e where "segs \<noteq> []" "d = Some e" "w' = w4" "r = Inl e"
    | (sealed) x where "segs \<noteq> []" "c = Inr x" "d = None" "open_tail P ((new_ledger path)\<lparr>l_sealedSeq := fst x, l_sealedHash := snd x, l_segments := segs,
         l_lastSeq := fst x, l_lastHash := snd x\<rparr>) w4 = (r, w')"
    using assms(3) a b c d bs by (auto simp: open_cleaned_def split: sum.splits option.splits if_splits prod.splits)
  then have "(\<exists>ov'. disk P G pub path w' segs ess ov' es []) \<and> (r = Inr l \<longrightarrow> ledger_inv P G pub l w' segs ess es \<and> reopened path l)"
  proof cases
    case failed
    then show ?thesis using d1 d2 d3 by auto
  next
    case empty
    have "ess = []" "ov = []" using d2 empty(1) by (auto simp: disk_def)
    moreover have "new_ledger path = ?l" using empty(1) \<open>ess = []\<close> by (simp add: new_ledger_def)
    ultimately show ?thesis using open_tail_inv(1) [of P G pub path w2 segs ess es ?l r w']
      open_tail_inv(2) [of P G pub path w2 segs ess es ?l r w' l] d2 empty(2) by auto
  next
    case cut_failed
    then show ?thesis using reconcileTail_effect [OF d3 _ d] by auto
  next
    case sealed
    note nb = newest_boundary [OF d2 sealed(1)]
    have x: "x = (of_nat (length (concat ess)), chain_hash P [] (concat ess))"
      using segmentEnd_ok [OF assms(1) nb(1) c [unfolded sealed(2)]] nb(2,3) by simp
    have "disk P G pub path w4 segs ess [] es []" using reconcileTail_effect [OF d3 sealed(1) d] sealed(3) by auto
    from open_tail_inv(1) [OF this, of ?l r w'] open_tail_inv(2) [OF this, of ?l r w' l] show ?thesis using sealed(4) x by auto
  qed
  then show "\<exists>ov'. disk P G pub path w' segs ess ov' es []"
    "r = Inr l \<Longrightarrow> ledger_inv P G pub l w' segs ess es \<and> reopened path l" by simp_all
qed

subsection \<open>A torn tail\<close>

lemma torn_name_last: "bval (last (torn_name P path torn)) \<le> 102" "torn_name P path torn \<noteq> []"
proof -
  have d: "bval (hex_digit d) \<le> 102" if "d < 16" for d using bval_hex_digit [OF that] that by (auto split: if_splits)
  have h: "bval (last (hex_encode s)) \<le> 102" if ne: "s \<noteq> []" for s
  proof -
    obtain xs c where s: "s = xs @ [c]" using ne by (cases s rule: rev_cases) auto
    then show ?thesis using d [of "bval c mod 16"] by (simp add: hex_encode_def)
  qed
  show "bval (last (torn_name P path torn)) \<le> 102"
  proof (cases "sha256 P torn = []")
    case True
    then show ?thesis by (simp add: torn_name_def)
  next
    case False
    then have "hex_encode (sha256 P torn) \<noteq> []" by (cases "sha256 P torn") simp_all
    then show ?thesis using h [OF False] by (simp add: torn_name_def)
  qed
  show "torn_name P path torn \<noteq> []" by (simp add: torn_name_def)
qed

lemma suffix_last: "has_suffix s p \<Longrightarrow> p \<noteq> [] \<Longrightarrow> last s = last p"
  unfolding has_suffix_def by (metis last_drop list.size(3) drop_eq_Nil2 leI)

lemma torn_name_apart:
  "torn_name P path torn \<noteq> path" "segment_of (torn_name P path torn) = None" "torn_name P path torn \<noteq> pre @ tempSuffix"
proof -
  show "torn_name P path torn \<noteq> path" by (simp add: torn_name_def)
  note n = torn_name_last [of P path torn]
  show "torn_name P path torn \<noteq> pre @ tempSuffix"
  proof
    assume "torn_name P path torn = pre @ tempSuffix"
    then show False using n(1) by (simp add: tempSuffix_def)
  qed
  have "\<not> has_suffix (torn_name P path torn) segmentSuffix"
    using suffix_last [of "torn_name P path torn" segmentSuffix] n by (auto simp: segmentSuffix_def)
  then show "segment_of (torn_name P path torn) = None" by (simp add: segment_of_def parseSegmentName_def)
qed

lemma Replace_spec:
  assumes "Replace tmp path w = (r, w')" "contents w tmp = Some data" "tmp \<noteq> path"
  shows "publishes tmp path data r w w'"
proof -
  obtain q w1 where t: "os_touch w = (q, w1)" by fastforce
  have c: "contents w1 = contents w" by (rule os_touch_contents [OF t])
  show ?thesis
  proof (cases q)
    case (Inl e)
    then show ?thesis using assms t c by (auto simp: Replace_def publishes_def)
  next
    case (Inr u)
    then have "replace tmp path w1 = (r, w')" using assms(1) t by (simp add: Replace_def)
    from replace_spec [OF this, of data] show ?thesis using c assms(2,3) by (simp add: publishes_def)
  qed
qed

lemma publish_suffix_effect:
  assumes "publish_suffix P path torn tmp w = (r, w')" "contents w tmp = Some []" "tmp \<noteq> torn_name P path torn"
  shows "p \<noteq> tmp \<Longrightarrow> p \<noteq> torn_name P path torn \<Longrightarrow> contents w' p = contents w p"
    "r = None \<Longrightarrow> contents w' (torn_name P path torn) = Some torn"
proof -
  let ?m = "io_then (os_Append tmp torn) (io_then os_touch os_touch)"
  obtain a w1 where a: "?m w = (a, w1)" by fastforce
  have f: "touching {tmp} ?m" by (intro io_frame) simp_all
  have c: "contents w1 p = contents w p" if "p \<noteq> tmp" for p using touchingD [OF f a] that by simp
  obtain b err w2 where b: "Replace tmp (torn_name P path torn) w1 = ((b, err), w2)" by (metis prod.exhaust)
  have ok: "contents w1 tmp = Some torn" if "a = Inr x" for x
    using a that assms(2) by (auto simp: io_then_Inr dest!: os_touch_contents os_Append_ok)
  have "(\<exists>x. a = Inr x) \<and> w' = w2 \<and> r = err \<or> w' = w1 \<and> r \<noteq> None"
    using assms(1) a b by (auto simp: publish_suffix_def split: sum.splits)
  then have "(p \<noteq> tmp \<longrightarrow> p \<noteq> torn_name P path torn \<longrightarrow> contents w' p = contents w p)
     \<and> (r = None \<longrightarrow> contents w' (torn_name P path torn) = Some torn)" for p
    using c ok Replace_spec [OF b _ assms(3)] by (auto simp: publishes_def)
  then show "p \<noteq> tmp \<Longrightarrow> p \<noteq> torn_name P path torn \<Longrightarrow> contents w' p = contents w p"
    "r = None \<Longrightarrow> contents w' (torn_name P path torn) = Some torn" by simp_all
qed

lemma preserveSuffix_effect:
  assumes "preserveSuffix P path torn w = (r, w')"
  shows "p \<noteq> torn_name P path torn \<Longrightarrow> \<forall>s. p \<noteq> CHR ''.'' # s \<Longrightarrow> contents w' p = contents w p"
    "r = None \<Longrightarrow> contents w' (torn_name P path torn) = Some torn"
proof -
  obtain a w1 where a: "os_CreateTemp (tailTempPrefix @ ''torn-'') tempSuffix w = (a, w1)" by fastforce
  have "(p \<noteq> torn_name P path torn \<longrightarrow> (\<forall>s. p \<noteq> CHR ''.'' # s) \<longrightarrow> contents w' p = contents w p)
     \<and> (r = None \<longrightarrow> contents w' (torn_name P path torn) = Some torn)" for p
    using a
  proof (cases rule: os_CreateTemp_cases)
    case (fail e)
    then show ?thesis using assms a by (auto simp: preserveSuffix_def)
  next
    case (ok n)
    define tmp where "tmp = (tailTempPrefix @ ''torn-'') @ format_nat n @ tempSuffix"
    have tmp: "a = Inr tmp" "contents w1 = (contents w)(tmp \<mapsto> [])" "\<exists>s. tmp = CHR ''.'' # s"
      using ok by (simp_all add: tmp_def tailTempPrefix_def)
    have ne: "tmp \<noteq> torn_name P path torn"
      using torn_name_apart(3) [of P path torn "tailTempPrefix @ ''torn-'' @ format_nat n"] by (auto simp: tmp_def)
    obtain b w2 where b: "publish_suffix P path torn tmp w1 = (b, w2)" by fastforce
    note e = publish_suffix_effect [OF b _ ne]
    have f: "contents w' q = contents w2 q" if "q \<noteq> tmp" for q
      using assms a tmp(1) b os_Remove_frame [OF that, of w2] by (auto simp: preserveSuffix_def split: sum.splits prod.splits)
    have "r = None \<Longrightarrow> b = None" using assms a tmp(1) b by (auto simp: preserveSuffix_def split: sum.splits prod.splits if_splits)
    then show ?thesis using e f ne tmp by (metis fun_upd_other fun_upd_same)
  qed
  then show "p \<noteq> torn_name P path torn \<Longrightarrow> \<forall>s. p \<noteq> CHR ''.'' # s \<Longrightarrow> contents w' p = contents w p"
    "r = None \<Longrightarrow> contents w' (torn_name P path torn) = Some torn" by simp_all
qed

lemma os_Truncate_effect:
  assumes "os_Truncate path n w = (r, w')"
  shows "contents w' = contents w \<and> r \<in> range Inl \<or> (\<exists>s. contents w path = Some s \<and> contents w' = (contents w)(path \<mapsto> take n s))"
  using assms by (auto simp: os_Truncate_def split: list.splits option.splits)

lemma truncate_effect:
  assumes "io_then os_touch (io_then (os_Truncate path n) (io_then os_touch os_touch)) w = (r, w')" "contents w path = Some s"
  shows "contents w' = contents w \<and> r \<in> range Inl \<or> contents w' = (contents w)(path \<mapsto> take n s)"
  using assms(1)
proof (cases rule: io_then_cases)
  case (fail e)
  then show ?thesis using os_touch_contents by auto
next
  case (ok x w1)
  have c1: "contents w1 = contents w" using os_touch_contents [OF ok(1)] .
  obtain q w2 where t: "os_Truncate path n w1 = (q, w2)" by fastforce
  show ?thesis
    using ok(2)
  proof (cases rule: io_then_cases)
    case (fail e)
    then show ?thesis using os_Truncate_effect [OF fail(1)] c1 assms(2) by auto
  next
    case o2: (ok y w3)
    have "contents w' = contents w3" using o2(2) by (cases rule: io_then_cases) (auto dest!: os_touch_contents)
    then show ?thesis using os_Truncate_effect [OF o2(1)] c1 assms(2) by auto
  qed
qed

lemma trim_effect:
  assumes "disk P G pub path w segs ess ov es torn" "contents w path = Some (text_of ls @ torn)" "list_all2 written (ov @ es) ls"
    "trimPreservedSuffix P path (text_of ls @ torn) (length (text_of ls)) ap w = (r, w')"
  shows "\<exists>t. disk P G pub path w' segs ess ov es t \<and> (r = None \<longrightarrow> t = [] \<and> contents w' (torn_name P path torn) = Some torn)"
proof -
  have pk: "path_ok path" using assms(1) by (simp add: disk_def)
  obtain a w1 where a: "preserveSuffix P path torn w = (a, w1)" by fastforce
  note e = preserveSuffix_effect [OF a]
  have c: "contents w1 path = contents w path" using e(1) torn_name_apart(1) pk by (metis path_ok_def)
  have sg: "contents w1 n = contents w n" if "segment_of n \<noteq> None" for n
    using that e(1) torn_name_apart(2) dot_not_segment by metis
  have d1: "disk P G pub path w1 segs ess ov es torn" by (rule disk_cong [OF assms(1) c sg])
  let ?m = "io_then os_touch (io_then (os_Truncate path (length (text_of ls))) (io_then os_touch os_touch))"
  obtain b w2 where b: "?m w1 = (b, w2)" by fastforce
  note t = truncate_effect [OF b, of "text_of ls @ torn"]
  have cut: "disk P G pub path w2 segs ess ov es []" if u: "contents w2 = (contents w1)(path \<mapsto> text_of ls)"
  proof -
    have "contents w2 n = contents w1 n" if "segment_of n \<noteq> None" for n using u that pk by (auto simp: path_ok_def)
    note s = segments_cong [OF this]
    show ?thesis using d1 u s assms(3) unfolding disk_def torn_line_def by auto
  qed
  have "w' = w1 \<and> r \<noteq> None \<or> w' = w2 \<and> a = None \<and> (r = None \<longrightarrow> b \<in> range Inr)"
    using assms(4) a b by (auto simp: trimPreservedSuffix_def split: option.splits sum.splits)
  then show ?thesis
  proof
    assume w2: "w' = w2 \<and> a = None \<and> (r = None \<longrightarrow> b \<in> range Inr)"
    from t c assms(2) consider "contents w2 = contents w1" "b \<in> range Inl" | "contents w2 = (contents w1)(path \<mapsto> text_of ls)" by auto
    then show ?thesis
    proof cases
      case 1
      then show ?thesis using w2 disk_same [OF d1] by auto
    next
      case 2
      then have "contents w2 (torn_name P path torn) = Some torn" using e(2) w2 torn_name_apart(1) by auto
      then show ?thesis using cut [OF 2] w2 by auto
    qed
  qed (use d1 in auto)
qed

subsection \<open>OpenVerified\<close>

lemma reconcileTail_beside:
  assumes "reconcileTail P G path seg w = (r, w')" "path_ok path" "p \<noteq> path" "\<forall>s. p \<noteq> CHR ''.'' # s"
  shows "contents w' p = contents w p"
proof -
  have f: "contents v' p = contents v p" if r: "replaceTail path data k v = (q, v')" for data k v q v'
  proof -
    have "path \<noteq> tail_temp (clock v)" using assms(2) temp_dot(1) by (metis path_ok_def)
    then show ?thesis using replaceTail_effect(1) [OF r] assms(3,4) temp_dot(1) by metis
  qed
  show ?thesis
    using assms(1)
    by (auto simp: reconcileTail_def split: prod.splits sum.splits option.splits if_splits
        dest!: os_Open_contents os_touch_contents newOverlapChecker_same f)
qed

lemma open_tail_beside:
  assumes "open_tail P l w = (r, w')" "p \<noteq> l_path l"
  shows "contents w' p = contents w p"
proof -
  have "touching {l_path l} (os_OpenAppend (l_path l))" by (intro io_frame) simp
  then have f: "os_OpenAppend (l_path l) w = (q, v) \<Longrightarrow> contents v p = contents w p" for q v using touchingD assms(2) by fastforce
  show ?thesis
    using assms(1) by (auto simp: open_tail_def readChainState_def split: prod.splits sum.splits option.splits
        dest!: f lockLedgerFile_contents os_ReadFile_contents)
qed

lemma open_cleaned_beside:
  assumes "open_cleaned P G path w = (r, w')" "path_ok path" "p \<noteq> path" "\<forall>s. p \<noteq> CHR ''.'' # s"
  shows "contents w' p = contents w p"
proof -
  have t: "open_tail P l v = (q, v') \<Longrightarrow> l_path l = path \<Longrightarrow> contents v' p = contents v p" for l v q v'
    using open_tail_beside assms(3) by metis
  have k: "sweepDebris v = (q, v') \<Longrightarrow> contents v' p = contents v p" for v q v'
    using sweepDebris_kept assms(4) by (auto simp: kept_def)
  have l: "l_path (new_ledger path) = path" by (simp add: new_ledger_def)
  have c: "reconcileTail P G path seg v = (q, v') \<Longrightarrow> contents v' p = contents v p" for seg v q v'
    using reconcileTail_beside assms(2-4) by blast
  show ?thesis
    using assms(1) l by (auto simp: open_cleaned_def split: prod.splits sum.splits option.splits if_splits
        dest!: k listSegments_same segmentEnd_same c dest: t)
qed

lemma complete_part:
  assumes "torn_line torn"
  shows "completeTailEnd (text_of ls @ torn) = length (text_of ls)"
proof (cases torn)
  case Nil
  then show ?thesis by (simp add: completeTailEnd_text)
next
  case (Cons c t)
  then have "c = CHR 0x7B" "NL \<notin> set (c # t)" using assms by (auto simp: torn_line_def)
  then show ?thesis using Cons completeTailEnd_torn [of c t ls] by (simp add: solid_def)
qed

lemma verify_tail_effect:
  assumes "disk P G pub path w segs ess ov es torn" "contents w path = Some data"
    "verify_tail P G path key VH visit check ap data brk st w = ((r, st'), w')"
  shows "\<exists>t. disk P G pub path w' segs ess ov es t \<and> (r = None \<longrightarrow> t = [] \<and> (torn \<noteq> [] \<longrightarrow> contents w' (torn_name P path torn) = Some torn))"
proof -
  obtain ls where ls: "data = text_of ls @ torn" "list_all2 written (ov @ es) ls" and tl: "torn_line torn" using assms(1,2) by (auto simp: disk_def)
  note cp = complete_part [OF tl, of ls]
  obtain source w1 where s: "stream_source P G path (Some (lines_read (text_of ls) brk None)) w = (source, w1)" by fastforce
  have c1: "contents w1 = contents w" by (rule stream_source_same [OF s])
  have d1: "disk P G pub path w1 segs ess ov es torn" by (rule disk_same [OF assms(1) c1])
  obtain q w2 where t: "trimPreservedSuffix P path data (length (text_of ls)) ap w1 = (q, w2)" by fastforce
  note te = trim_effect [OF d1 _ ls(2), folded ls(1), OF _ t]
  have "w' = w1 \<and> (r = None \<longrightarrow> torn = []) \<or> w' = w2 \<and> (r = None \<longrightarrow> q = None)"
    using assms(3) s t cp unfolding verify_tail_def ls(1)
    by (auto simp: Let_def split: prod.splits sum.splits option.splits if_splits)
  then show ?thesis using d1 te c1 assms(2) by auto
qed

lemma verify_before_effect:
  assumes "disk P G pub path w segs ess ov es torn" "verify_before P G path key VH visit check ap st w = ((r, st'), w')"
  shows "\<exists>t. disk P G pub path w' segs ess ov es t \<and> (r = None \<longrightarrow> t = [] \<and> (torn \<noteq> [] \<longrightarrow> contents w' (torn_name P path torn) = Some torn))"
proof -
  obtain s where s: "contents w path = Some s" using assms(1) by (auto simp: disk_def)
  obtain a w1 where a: "os_Open path w = (a, w1)" by fastforce
  obtain b w2 where b: "os_touch w1 = (b, w2)" by fastforce
  have c: "contents w1 = contents w" "contents w2 = contents w" using os_Open_contents [OF a] os_touch_contents [OF b] by simp_all
  have stay: ?thesis if "w' \<in> {w1, w2}" "r \<noteq> None" using disk_same [OF assms(1), of w'] c that by auto
  show ?thesis
  proof (cases a)
    case (Inl e)
    then have "e \<noteq> ErrNotExist" using a s c by (auto simp: os_Open_def split: list.splits option.splits if_splits)
    then show ?thesis using assms(2) a Inl by (intro stay) (auto simp: verify_before_def)
  next
    case (Inr d)
    then obtain brk where d: "d = (s, brk)" using os_Open_Inr a s by (cases d) fastforce
    show ?thesis
    proof (cases b)
      case i: (Inl e)
      then show ?thesis using assms(2) a b Inr d by (intro stay) (auto simp: verify_before_def)
    next
      case i: (Inr x)
      obtain r3 st3 w3 where v: "verify_tail P G path key VH visit check ap s brk st w2 = ((r3, st3), w3)" by (metis prod.exhaust)
      obtain z w4 where z: "os_touch w3 = (z, w4)" by fastforce
      have e: "w' = w4" "r = None \<Longrightarrow> r3 = None"
        using assms(2) a b i Inr d v z by (auto simp: verify_before_def split: sum.splits if_splits)
      obtain t where t: "disk P G pub path w3 segs ess ov es t"
        "r3 = None \<longrightarrow> t = [] \<and> (torn \<noteq> [] \<longrightarrow> contents w3 (torn_name P path torn) = Some torn)"
        using verify_tail_effect [OF disk_same [OF assms(1) c(2)] _ v] c(2) s by auto
      show ?thesis using disk_same [OF t(1), of w'] os_touch_contents [OF z] e t(2) by auto
    qed
  qed
qed

lemma Close_same: "Close l w = (r, w') \<Longrightarrow> contents w' = contents w"
proof -
  have s: "step_err due err v = (e, v') \<Longrightarrow> contents v' = contents v" for due err v e v'
    using os_touch_contents by (fastforce simp: step_err_def split: prod.splits sum.splits if_splits)
  assume "Close l w = (r, w')"
  then show ?thesis by (auto simp: Close_def split: prod.splits dest!: s)
qed

lemma openLedger_effect:
  assumes "gzip_laws G" "disk P G pub path w segs ess ov es torn" "openLedger P G path (verify_before P G path key VH visit check ap) b w = ((r, b'), w')"
  shows "\<exists>ov' t. disk P G pub path w' segs ess ov' es t"
    "r = Inr l \<Longrightarrow> ledger_inv P G pub l w' segs ess es \<and> reopened path l \<and> (torn \<noteq> [] \<longrightarrow> contents w' (torn_name P path torn) = Some torn)"
proof -
  obtain a w1 where a: "lockLedgerDir w = (a, w1)" by fastforce
  have d1: "disk P G pub path w1 segs ess ov es torn" using disk_kept [OF assms(2) lockLedgerDir_kept [OF a]] .
  obtain c b1 w2 where v: "verify_before P G path key VH visit check ap b w1 = ((c, b1), w2)" by (metis prod.exhaust)
  obtain t where t: "disk P G pub path w2 segs ess ov es t"
    "c = None \<longrightarrow> t = [] \<and> (torn \<noteq> [] \<longrightarrow> contents w2 (torn_name P path torn) = Some torn)"
    using verify_before_effect [OF d1 v] by blast
  obtain q w3 where o: "open_cleaned P G path w2 = (q, w3)" by fastforce
  have pk: "path_ok path" using assms(2) by (simp add: disk_def)
  have "(\<exists>ov' t. disk P G pub path w' segs ess ov' es t) \<and> (r = Inr l \<longrightarrow> ledger_inv P G pub l w' segs ess es \<and> reopened path l
      \<and> (torn \<noteq> [] \<longrightarrow> contents w' (torn_name P path torn) = Some torn))"
  proof (cases "a = None \<and> c = None")
    case True
    then have w3: "w' = w3" "r = map_sum OtherError id q" using assms(3) a v o by (simp_all add: openLedger_def)
    have d2: "disk P G pub path w2 segs ess ov es []" using t True by simp
    note oe = open_cleaned_effect [OF assms(1) d2 o]
    have "\<forall>s. torn_name P path torn \<noteq> CHR ''.'' # s" using pk by (cases path) (auto simp: path_ok_def torn_name_def)
    then have "contents w3 (torn_name P path torn) = contents w2 (torn_name P path torn)"
      using open_cleaned_beside [OF o pk] torn_name_apart(1) by blast
    moreover have "r = Inr l \<Longrightarrow> q = Inr l" using w3(2) by (cases q) auto
    ultimately show ?thesis using oe w3 t True by auto
  next
    case False
    then have "w' \<in> {w1, w2} \<and> r \<in> range Inl" using assms(3) a v by (auto simp: openLedger_def split: option.splits)
    then show ?thesis using d1 t(1) by auto
  qed
  then show "\<exists>ov' t. disk P G pub path w' segs ess ov' es t"
    "r = Inr l \<Longrightarrow> ledger_inv P G pub l w' segs ess es \<and> reopened path l \<and> (torn \<noteq> [] \<longrightarrow> contents w' (torn_name P path torn) = Some torn)" by simp_all
qed

lemma openVerified_effect:
  assumes "gzip_laws G" "disk P G pub path w segs ess ov es torn" "openVerified P G path key VH hs visit v check ap w = ((r, st), w')"
  shows "\<exists>ov' t. disk P G pub path w' segs ess ov' es t"
    "r = Inr l \<Longrightarrow> ledger_inv P G pub l w' segs ess es \<and> reopened path l \<and> (torn \<noteq> [] \<longrightarrow> contents w' (torn_name P path torn) = Some torn)"
proof -
  let ?b = "\<lparr>o_count = 0, o_boundary = \<lparr>B_Seq = 0, B_Hash = []\<rparr>, o_heads = hs, o_visitor = v\<rparr>"
  obtain q b w1 where o: "openLedger P G path (verify_before P G path key VH visit check ap) ?b w = ((q, b), w1)" by (metis prod.exhaust)
  note e = openLedger_effect [OF assms(1,2) o]
  have "(w' = w1 \<or> r \<in> range Inl \<and> (\<exists>m. w' = snd (Close m w1))) \<and> (r = Inr l \<longrightarrow> q = Inr l \<and> w' = w1)"
    using assms(3) o by (auto simp: openVerified_def split: sum.splits if_splits)
  moreover have "contents (snd (Close m w1)) = contents w1" for m using Close_same by (metis prod.collapse)
  ultimately have "contents w' = contents w1 \<and> (r = Inr l \<longrightarrow> q = Inr l \<and> w' = w1)" by auto
  then show "\<exists>ov' t. disk P G pub path w' segs ess ov' es t"
    "r = Inr l \<Longrightarrow> ledger_inv P G pub l w' segs ess es \<and> reopened path l \<and> (torn \<noteq> [] \<longrightarrow> contents w' (torn_name P path torn) = Some torn)"
    using e disk_same by blast+
qed

subsection \<open>RecoverSeal\<close>

lemma reopen_tail_effect:
  assumes "reopen_tail ending segs l w = ((r, l'), w')" "contents w (l_path l) \<noteq> None"
  shows "contents w' = contents w" "r \<noteq> None \<Longrightarrow> l' = l"
    "r = None \<Longrightarrow> l' = l\<lparr>l_file := True, l_sealedSeq := fst ending, l_sealedHash := snd ending, l_segments := segs, l_sealErr := None\<rparr>"
  using assms by (auto simp: reopen_tail_def split: prod.splits sum.splits option.splits dest!: os_OpenAppend_contents lockLedgerFile_contents)

lemma close_file_effect:
  assumes "close_file l w = ((r, l'), w')"
  shows "contents w' = contents w" "\<exists>b. l' = l\<lparr>l_file := b\<rparr>"
proof -
  have "\<exists>b. l = l\<lparr>l_file := b\<rparr>" by (intro exI [of _ "l_file l"]) simp
  then show "contents w' = contents w" "\<exists>b. l' = l\<lparr>l_file := b\<rparr>"
    using assms by (auto simp: close_file_def split: prod.splits sum.splits if_splits dest!: os_touch_contents)
qed

lemma recover_files_effect:
  assumes "gzip_laws G" "disk P G pub (l_path l) w segs ess ov es []" "recover_files P G l w = ((r, l'), w')"
  shows "\<exists>ov' b. disk P G pub (l_path l) w' segs ess ov' es [] \<and> (if r = None
     then ov' = [] \<and> l' = l\<lparr>l_file := True, l_sealedSeq := of_nat (length (concat ess)), l_sealedHash := chain_hash P [] (concat ess),
         l_segments := segs, l_sealErr := None\<rparr>
     else l' = l\<lparr>l_file := b\<rparr>)"
proof -
  let ?path = "l_path l"
  obtain a w1 where a: "listSegments w = (a, w1)" by fastforce
  obtain b w2 where b: "(if segs = [] then (Inr (0, []), w1) else segmentEnd G (last segs) P w1) = (b, w2)" by fastforce
  obtain c l1 w3 where c: "close_file l w2 = ((c, l1), w3)" by (metis prod.exhaust)
  obtain d w4 where d: "sweepDebris w3 = (d, w4)" by fastforce
  obtain f w5 where f: "(if segs = [] then (None, w4) else reconcileTail P G ?path (last segs) w4) = (f, w5)" by fastforce
  have d1: "disk P G pub ?path w1 segs ess ov es []" by (rule disk_same [OF assms(2) listSegments_same [OF a]])
  have d2: "disk P G pub ?path w2 segs ess ov es []"
    using disk_same [OF d1, of w2] segmentEnd_same [of G _ P w1] b by (auto split: if_splits)
  note ce = close_file_effect [OF c]
  have d3: "disk P G pub ?path w3 segs ess ov es []" by (rule disk_same [OF d2 ce(1)])
  have d4: "disk P G pub ?path w4 segs ess ov es []" by (rule disk_kept [OF d3 sweepDebris_kept [OF d]])
  obtain ov' where d5: "disk P G pub ?path w5 segs ess ov' es []" "f = None \<longrightarrow> ov' = []"
  proof (cases "segs = []")
    case True
    then have "ov = []" using d4 by (auto simp: disk_def)
    then show thesis using that [of ov] d4 f True by simp
  next
    case False
    then show thesis using that reconcileTail_effect [OF d4 False] f by auto
  qed
  have as: "a = Inr ss \<Longrightarrow> ss = segs" for ss using listSegments_ok a assms(2) by (auto simp: disk_def)
  obtain fl where l1: "l1 = l\<lparr>l_file := fl\<rparr>" using ce(2) by blast
  show ?thesis
  proof (cases "(\<exists>x. a = Inr x) \<and> (\<exists>x. b = Inr x) \<and> c = None \<and> d = None \<and> f = None")
    case True
    then obtain ending where en: "a = Inr segs" "b = Inr ending" "c = None" "d = None" "f = None" using as by auto
    have ro: "reopen_tail ending segs l1 w5 = ((r, l'), w')" using assms(3) a b c d f en by (simp add: recover_files_def)
    have "ending = (of_nat (length (concat ess)), chain_hash P [] (concat ess))"
    proof (cases "segs = []")
      case True
      then have "ess = []" using d1 by (simp add: disk_def)
      then show ?thesis using True b en(2) by simp
    next
      case False
      then have "segmentEnd G (last segs) P w1 = (Inr ending, w2)" using b en(2) by simp
      from segmentEnd_ok [OF assms(1) newest_boundary(1) [OF d1 False] this] show ?thesis using newest_boundary(2,3) [OF d1 False] by simp
    qed
    moreover have "contents w5 (l_path l1) \<noteq> None" using d5 l1 by (auto simp: disk_def)
    ultimately show ?thesis using reopen_tail_effect [OF ro] disk_same [OF d5(1), of w'] d5(2) en(5) l1 by (intro exI [of _ ov'] exI [of _ fl]) simp
  next
    case False
    have "r \<noteq> None \<and> (w' \<in> {w1, w2} \<and> l' = l \<or> w' \<in> {w3, w4, w5} \<and> l' = l1)"
      using assms(3) a b c d f False as by (auto simp: recover_files_def split: sum.splits option.splits prod.splits)
    moreover have "l = l\<lparr>l_file := l_file l\<rparr>" by simp
    ultimately show ?thesis using d1 d2 d3 d4 d5(1) l1 by (metis insertE singletonD)
  qed
qed

lemma recover_verified_effect:
  assumes "gzip_laws G" "disk P G pub (l_path l) w segs ess ov es []" "contents w (l_path l) = Some data"
    "recover_verified P G key VH hs data brk l w = (((r, l'), hs'), w')"
  shows "\<exists>ov' b fr. disk P G pub (l_path l) w' segs ess ov' es [] \<and> (if r = None
     then ov' = [] \<and> l' = l\<lparr>l_file := True, l_sealedSeq := of_nat (length (concat ess)), l_sealedHash := chain_hash P [] (concat ess),
         l_segments := segs, l_sealErr := None\<rparr>
     else l' = l\<lparr>l_file := b, l_frozenReason := fr\<rparr>)"
proof -
  let ?path = "l_path l"
  obtain ls where ls: "data = text_of ls" using assms(2,3) by (auto simp: disk_def)
  have cp: "completeTailEnd data = length data" "take (length data) data = data" using complete_part [of "[]" ls] ls by (simp_all add: torn_line_def)
  obtain source w1 where s: "stream_source P G ?path (Some (lines_read data brk None)) w = (source, w1)" by fastforce
  obtain b w2 where b: "SyncDir w1 = (b, w2)" by fastforce
  obtain c w3 where c: "os_touch w2 = (c, w3)" by fastforce
  obtain q w4 where q: "recover_files P G l w3 = (q, w4)" by fastforce
  have c1: "contents w1 = contents w" by (rule stream_source_same [OF s])
  have c2: "contents w2 = contents w" using touchingD [OF touching_SyncDir b, of _ "{}"] c1 by auto
  have c3: "contents w3 = contents w" using os_touch_contents [OF c] c2 by simp
  have same: "l = l\<lparr>l_file := l_file l, l_frozenReason := l_frozenReason l\<rparr>" by simp
  have stay: ?thesis if "w' \<in> {w1, w2, w3}" "r \<noteq> None" "\<exists>b fr. l' = l\<lparr>l_file := b, l_frozenReason := fr\<rparr>"
    using that disk_same [OF assms(2), of w'] c1 c2 c3 by auto
  have "w' \<in> {w1, w2, w3} \<and> r \<noteq> None \<and> (l' = l \<or> (\<exists>fr. l' = l\<lparr>l_frozenReason := fr\<rparr>)) \<or> w' = w4 \<and> q = (r, l')"
    using assms(4) s b c q cp unfolding recover_verified_def refuseSealIntegrity_def
    by (auto simp: Let_def split: prod.splits sum.splits if_splits)
  then show ?thesis
  proof
    assume w: "w' \<in> {w1, w2, w3} \<and> r \<noteq> None \<and> (l' = l \<or> (\<exists>fr. l' = l\<lparr>l_frozenReason := fr\<rparr>))"
    moreover have "l\<lparr>l_frozenReason := fr\<rparr> = l\<lparr>l_file := l_file l, l_frozenReason := fr\<rparr>" for fr by simp
    ultimately show ?thesis using same by (intro stay) metis+
  next
    assume w: "w' = w4 \<and> q = (r, l')"
    then have "recover_files P G l w3 = ((r, l'), w')" using q by simp
    from recover_files_effect [OF assms(1) disk_same [OF assms(2) c3] this]
    obtain ov' b where o: "disk P G pub ?path w' segs ess ov' es []" "if r = None
     then ov' = [] \<and> l' = l\<lparr>l_file := True, l_sealedSeq := of_nat (length (concat ess)), l_sealedHash := chain_hash P [] (concat ess),
         l_segments := segs, l_sealErr := None\<rparr>
     else l' = l\<lparr>l_file := b\<rparr>" by blast
    moreover have "l\<lparr>l_file := b\<rparr> = l\<lparr>l_file := b, l_frozenReason := l_frozenReason l\<rparr>" by simp
    ultimately show ?thesis by (intro exI [of _ ov'] exI [of _ b] exI [of _ "l_frozenReason l"]) (auto split: if_splits)
  qed
qed

lemma pendingE:
  assumes "pending P G pub l w log"
  obtains segs ess ov es where "disk P G pub (l_path l) w segs ess ov es []" "map committed (concat ess @ es) = map committed log"
    "l_lastSeq l = of_nat (length (concat ess @ es))" "l_lastHash l = chain_hash P [] (concat ess @ es)" "l_sealErr l \<noteq> None"
  using assms unfolding pending_def by blast

lemma RecoverSeal_outcome:
  assumes "gzip_laws G" "pending P G pub l w log" "RecoverSeal P G key VH hs l w = (((r, l'), hs'), w')"
  shows "l_path l' = l_path l" "r = None \<Longrightarrow> represents P G pub l' w' log \<and> l_sealErr l' = None" "r \<noteq> None \<Longrightarrow> pending P G pub l' w' log"
proof -
  obtain segs ess ov es where p: "disk P G pub (l_path l) w segs ess ov es []" "map committed (concat ess @ es) = map committed log"
    "l_lastSeq l = of_nat (length (concat ess @ es))" "l_lastHash l = chain_hash P [] (concat ess @ es)" "l_sealErr l \<noteq> None"
    using pendingE [OF assms(2)] by blast
  obtain s where s: "contents w (l_path l) = Some s" using p(1) by (auto simp: disk_def)
  obtain a w1 where a: "os_Open (l_path l) w = (a, w1)" by fastforce
  obtain b w2 where b: "os_touch w1 = (b, w2)" by fastforce
  have c: "contents w1 = contents w" "contents w2 = contents w" using os_Open_contents [OF a] os_touch_contents [OF b] by simp_all
  have d: "a = Inr x \<Longrightarrow> fst x = s" for x using os_Open_Inr a s by (cases x) fastforce
  have "(r \<noteq> None \<and> l' = l \<and> w' \<in> {w, w1, w2}) \<or> (\<exists>brk. recover_verified P G key VH hs s brk l w2 = (((r, l'), hs'), w'))"
    using assms(3) a b p(5) d by (auto simp: RecoverSeal_def split: if_splits sum.splits prod.splits)
  then have "l_path l' = l_path l \<and> (r = None \<longrightarrow> represents P G pub l' w' log \<and> l_sealErr l' = None) \<and> (r \<noteq> None \<longrightarrow> pending P G pub l' w' log)"
  proof
    assume w: "r \<noteq> None \<and> l' = l \<and> w' \<in> {w, w1, w2}"
    then have "disk P G pub (l_path l) w' segs ess ov es []" using disk_same [OF p(1), of w'] c by auto
    then show ?thesis using w p(2-5) pendingI by blast
  next
    assume "\<exists>brk. recover_verified P G key VH hs s brk l w2 = (((r, l'), hs'), w')"
    then obtain brk where rv: "recover_verified P G key VH hs s brk l w2 = (((r, l'), hs'), w')" ..
    have "contents w2 (l_path l) = Some s" using c s by simp
    from recover_verified_effect [OF assms(1) disk_same [OF p(1) c(2)] this rv]
    obtain ov' b fr where o: "disk P G pub (l_path l) w' segs ess ov' es []" "if r = None
       then ov' = [] \<and> l' = l\<lparr>l_file := True, l_sealedSeq := of_nat (length (concat ess)), l_sealedHash := chain_hash P [] (concat ess),
           l_segments := segs, l_sealErr := None\<rparr>
       else l' = l\<lparr>l_file := b, l_frozenReason := fr\<rparr>" by blast
    show ?thesis
    proof (cases "r = None")
      case True
      then have "ledger_inv P G pub l' w' segs ess es" using o p(3,4) by (simp add: ledger_inv_disk bounds_def)
      then have "represents P G pub l' w' log" using p(2) unfolding represents_def by metis
      then show ?thesis using o True by simp
    next
      case False
      then have "pending P G pub l' w' log" using o p(2-5) by (intro pendingI [of P G pub l' w' segs ess ov' es]) simp_all
      moreover have "l_path l' = l_path l" using False o by simp
      ultimately show ?thesis using False by blast
    qed
  qed
  then show "l_path l' = l_path l" "r = None \<Longrightarrow> represents P G pub l' w' log \<and> l_sealErr l' = None" "r \<noteq> None \<Longrightarrow> pending P G pub l' w' log"
    by simp_all
qed

end
