(* ===== verification/Ledger_Boot.thy ===== *)
theory Ledger_Boot
  imports Ledger_Reopen
begin

text \<open>
  Opening makes progress: without failing calls \<open>OpenVerified\<close> opens every directory that holds a log it
  accepts, also when a seal was interrupted or the tail ends in a part of a line.
\<close>

subsection \<open>Calls that do not fail\<close>

lemma plan_set_file [simp]: "plan (set_file p d w) = plan w" "plan (del_file p w) = plan w"
  by (simp_all add: set_file_def del_file_def)

lemma quiet_touch: "plan w = [] \<Longrightarrow> os_touch w = (Inr (), w)"
  by (simp add: os_touch_def)

lemma quiet_OpenAppend: "plan w = [] \<Longrightarrow> \<exists>w'. os_OpenAppend p w = (Inr (), w') \<and> plan w' = []"
  by (auto simp: os_OpenAppend_def split: option.split)

lemma quiet_lockLedgerFile: "plan w = [] \<Longrightarrow> lockLedgerFile w = (None, w)"
  by (simp add: lockLedgerFile_def quiet_touch)

lemma quiet_lockLedgerDir: "plan w = [] \<Longrightarrow> \<exists>w'. lockLedgerDir w = (None, w') \<and> plan w' = []"
  using quiet_OpenAppend [of w LedgerDirLockName] quiet_lockLedgerFile
  by (auto simp: lockLedgerDir_def io_then_def io_bind_def quiet_touch)

lemma quiet_SyncDir: "plan w = [] \<Longrightarrow> SyncDir w = (Inr (), w)"
  by (simp add: SyncDir_def io_then_def io_bind_def quiet_touch)

lemma quiet_sweep:
  assumes "plan w = []"
  shows "\<exists>w'. sweep_names ns w = (None, w') \<and> plan w' = [] \<and> (\<forall>n. is_debris n \<longrightarrow> n \<in> set ns \<or> contents w n = None \<longrightarrow> contents w' n = None)"
  using assms
proof (induction ns arbitrary: w)
  case (Cons n ns)
  show ?case
  proof (cases "is_debris n")
    case False
    then show ?thesis using Cons.IH [OF Cons.prems] by auto
  next
    case True
    define w1 where "w1 = snd (os_Remove n w)"
    have w1: "plan w1 = []" "contents w1 n = None" "m \<noteq> n \<Longrightarrow> contents w1 m = contents w m" for m
      using Cons.prems by (auto simp: w1_def os_Remove_def split: option.split)
    have "sweep_names (n # ns) w = sweep_names ns w1"
      using True Cons.prems by (auto simp: w1_def os_Remove_def split: option.split)
    then show ?thesis using Cons.IH [OF w1(1)] w1(2,3) by (metis set_ConsD)
  qed
qed simp

lemma quiet_sweepDebris:
  assumes "plan w = []"
  shows "\<exists>w'. sweepDebris w = (None, w') \<and> plan w' = [] \<and> (\<forall>n. is_debris n \<longrightarrow> contents w' n = None)"
proof -
  let ?ns = "sort (remdups (map fst (files w)))"
  obtain w' where w': "sweep_names ?ns w = (None, w')" "plan w' = []" "\<forall>n. is_debris n \<longrightarrow> n \<in> set ?ns \<or> contents w n = None \<longrightarrow> contents w' n = None"
    using quiet_sweep [OF assms] by blast
  have "n \<in> set ?ns \<or> contents w n = None" for n by (auto simp: contents_def map_of_eq_None_iff)
  then show ?thesis using w' assms by (auto simp: sweepDebris_def os_ReadDir_def)
qed

lemma quiet_Append: "plan w = [] \<Longrightarrow> contents w p = Some s \<Longrightarrow> os_Append p d w = (Inr (), set_file p (s @ d) w)"
  by (simp add: os_Append_def)

lemma quiet_replaceTail:
  assumes "plan w = []" "contents w (tail_temp (clock w)) = None" "path_ok path"
  shows "\<exists>w'. replaceTail path data k w = (Inr (), w') \<and> plan w' = []"
proof -
  let ?tmp = "tail_temp (clock w)"
  have "path \<noteq> ?tmp" using assms(3) temp_dot(1) by (metis path_ok_def)
  then show ?thesis using assms(1,2)
    by (simp add: replaceTail_def io_then_def io_bind_def time_Now_def os_Create_def on_fail_def os_touch_def os_Append_def
        Rename_def os_Rename_def SyncDir_def)
qed

lemma quiet_CreateTemp:
  assumes "plan w = []"
  shows "\<exists>n w'. os_CreateTemp pre suf w = (Inr (pre @ format_nat n @ suf), w') \<and> plan w' = [] \<and> contents w' = (contents w)(pre @ format_nat n @ suf \<mapsto> [])"
proof -
  let ?name = "\<lambda>n. pre @ format_nat n @ suf"
  let ?range = "[clock w ..< clock w + length (files w) + 1]"
  have "\<exists>n \<in> set ?range. contents w (?name n) = None"
  proof (rule ccontr)
    assume "\<not> ?thesis"
    then have "?name ` set ?range \<subseteq> fst ` set (files w)" by (auto simp: contents_def map_of_eq_None_iff)
    then have "card (?name ` set ?range) \<le> card (fst ` set (files w))" by (intro card_mono) simp_all
    moreover have "inj_on ?name (set ?range)" by (rule inj_onI) (simp add: format_nat_inj)
    then have "card (?name ` set ?range) = length (files w) + 1" by (simp add: card_image)
    moreover have "card (fst ` set (files w)) \<le> length (files w)" by (metis card_length length_map set_map)
    ultimately show False by simp
  qed
  then obtain n where "find (\<lambda>n. contents w (?name n) = None) ?range = Some n" by (metis (mono_tags, lifting) find_None_iff not_Some_eq)
  moreover have "contents w (?name n) = None" using calculation by (metis (mono_tags, lifting) find_Some_iff)
  ultimately show ?thesis using assms
    by (intro exI [of _ n]) (simp add: os_CreateTemp_def io_then_def io_bind_def io_return_def os_Create_def)
qed

lemma quiet_Replace:
  assumes "plan w = []" "contents w tmp = Some s" "tmp \<noteq> path"
  shows "\<exists>w'. Replace tmp path w = ((True, None), w') \<and> plan w' = [] \<and> contents w' tmp = None"
  using assms
  by (auto simp: Replace_def replace_def openEarlier_def openToEmpty_def os_Lstat_def io_bind_def io_then_def io_return_def
      quiet_touch os_Rename_def earlier_empty_def split: option.split)

lemma quiet_preserveSuffix:
  assumes "plan w = []"
  shows "\<exists>w'. preserveSuffix P path torn w = (None, w') \<and> plan w' = []"
proof -
  obtain n w1 where t: "os_CreateTemp (tailTempPrefix @ ''torn-'') tempSuffix w = (Inr ((tailTempPrefix @ ''torn-'') @ format_nat n @ tempSuffix), w1)"
    "plan w1 = []" "contents w1 = (contents w)((tailTempPrefix @ ''torn-'') @ format_nat n @ tempSuffix \<mapsto> [])"
    using quiet_CreateTemp [OF assms] by blast
  define tmp where "tmp = (tailTempPrefix @ ''torn-'') @ format_nat n @ tempSuffix"
  have ne: "tmp \<noteq> torn_name P path torn"
    using torn_name_apart(3) [of P path torn "tailTempPrefix @ ''torn-'' @ format_nat n"] by (auto simp: tmp_def)
  have c: "contents w1 tmp = Some []" using t(3) by (simp add: tmp_def)
  obtain w2 where r: "Replace tmp (torn_name P path torn) (set_file tmp torn w1) = ((True, None), w2)" "plan w2 = []" "contents w2 tmp = None"
    using quiet_Replace [of "set_file tmp torn w1" tmp torn "torn_name P path torn"] t(2) ne by auto
  have "publish_suffix P path torn tmp w1 = (None, w2)"
    using r(1) t(2) c by (simp add: publish_suffix_def io_then_def io_bind_def quiet_Append quiet_touch)
  moreover have "os_Remove tmp w2 = (Inl ErrNotExist, w2)" using r by (simp add: os_Remove_def)
  ultimately show ?thesis using t(1) r(2) by (simp add: preserveSuffix_def tmp_def)
qed

lemma quiet_trim:
  assumes "plan w = []" "contents w path \<noteq> None" "path_ok path"
  shows "\<exists>w'. trimPreservedSuffix P path data n None w = (None, w') \<and> plan w' = []"
proof -
  obtain w1 where p: "preserveSuffix P path (drop n data) w = (None, w1)" "plan w1 = []" using quiet_preserveSuffix [OF assms(1)] by blast
  have "contents w1 path = contents w path"
    using preserveSuffix_effect(1) [OF p(1)] torn_name_apart(1) assms(3) by (metis path_ok_def)
  then obtain s where s: "contents w1 path = Some s" using assms(2) by auto
  show ?thesis using p s by (simp add: trimPreservedSuffix_def io_then_def io_bind_def quiet_touch os_Truncate_def)
qed

subsection \<open>Opening without failing calls\<close>

lemma quiet_segmentEnd:
  assumes "gzip_laws G" "segment_holds G w seg es" "plan w = []"
  shows "segmentEnd G seg P w = (Inr (Seq (last es), EntryHash P (last es)), w)"
proof -
  let ?cb = "\<lambda>evt _ _ _. (None, (Seq evt, EntryHash P evt))"
  obtain ls where c: "contents w (s_path seg) = Some (gzip G (text_of ls))" "list_all2 stored es ls"
    and n: "numbered (unat (s_first seg) + 0) es" "es \<noteq> []"
    using assms(2) by (auto simp: segment_holds_def)
  have "open_segment G seg w = (Inr (text_of ls, None), w)"
    using assms(1,3) c(1) by (simp add: open_segment_def os_Open_quiet gzip_laws_def lines_read_def)
  moreover have "scanLines (text_of ls, None) (segment_line seg ?cb) (None, (0, []))
      = (None, (Some (in_segment seg (last es)), (Seq (last es), EntryHash P (last es))))"
    using segment_end_lines [OF c(2) n(1), of None P 0 0 None "(0, [])"] n(2) stored_run [OF c(2)] by (simp add: scanLines_def)
  moreover have "segment_closes seg (Some (in_segment seg (last es))) = None"
    using assms(2) by (simp add: segment_closes_def in_segment_def segment_holds_def)
  ultimately show ?thesis by (simp add: segmentEnd_def streamSegment_def)
qed

lemma reconcile_overlapping:
  assumes "list_all2 stored ov ols" "list_all2 (\<lambda>a b. EntryHash P a = EntryHash P b) (drop i ses) ov"
    "list_all2 stored ses sls" "numbered n ses" "s_last seg = Seq (last ses)" "numbered (n + i) ov" "i < length ses"
    "oc_at oc ses sls i" "unat (oc_next oc) = n + i" "oc_seg oc = seg"
  shows "\<exists>oc' k. scan_tokens (reconcile_line P) offset at err (map nl ols @ toks) (oc, None) = (Some ErrStop, (oc', Some k))"
  using assms(1,2,6-)
proof (induction arbitrary: i offset at oc)
  case Nil
  then show ?case by simp
next
  case (Cons e es l ls)
  have d: "drop i ses = ses ! i # drop (Suc i) ses" using Cons.prems(3) by (simp add: Cons_nth_drop_Suc)
  have u: "unat (Seq e) = n + i" using Cons.prems(2) by simp
  have nx: "oc_next oc = Seq e" using Cons.prems(5) u by (intro seq_eqI) simp
  have q: "Seq (ses ! i) = Seq e" using numbered_nth [OF assms(4) Cons.prems(3)] u by (intro seq_eqI) simp
  have h: "EntryHash P (ses ! i) = EntryHash P e" using Cons.prems(1) d by simp
  obtain oc' where c: "oc_check P e oc = (Inr (Seq e = s_last seg), oc')" "oc_at oc' ses sls (Suc i)" "oc_next oc' = Seq e + 1" "oc_seg oc' = seg"
    using oc_check_at [OF assms(3) Cons.prems(4,3) nx q h] Cons.prems(6) by auto
  have fin: "Seq e = s_last seg \<longleftrightarrow> Suc i = length ses"
    using numbered_last [OF assms(4)] Cons.prems(3) u assms(5) by (cases "ses = []") (auto simp: word_unat_eq_iff)
  show ?case
  proof (cases "Suc i = length ses")
    case True
    have "reconcile_line P l offset (Suc (length l)) d (oc, None) = (Some ErrStop, (oc', Some (offset + Suc (length l))))" for d
      using stored_line(6) [OF Cons.hyps(1)] c(1) fin True by (simp add: reconcile_line_def)
    from scan_line(2) [OF Cons.hyps(1), of "reconcile_line P", OF this] show ?thesis by auto
  next
    case False
    have "reconcile_line P l a b d (oc, None) = (None, (oc', None))" for a b d
      using stored_line(6) [OF Cons.hyps(1)] c(1) fin False by (simp add: reconcile_line_def)
    note s = scan_line(1) [OF Cons.hyps(1), of "reconcile_line P", OF this]
    have "unat (Seq e + 1) = n + Suc i"
      using numbered_nth [OF assms(4), of "Suc i"] False Cons.prems(3) u unsigned_less [of "Seq (ses ! Suc i)", where ?'a = nat]
      by (simp add: unat_word_ariths)
    then show ?thesis using s Cons.IH [of "Suc i" oc'] False Cons.prems c d by simp
  qed
qed

lemma tail_temp_debris: "is_debris (tail_temp n)"
  by (simp add: is_debris_def tail_temp_def has_suffix_def has_prefix_def tailTempPrefix_def tempSuffix_def)

lemma quiet_reconcileTail:
  assumes "gzip_laws G" "disk P G pub path w segs ess ov es []" "segs \<noteq> []" "plan w = []" "\<forall>n. is_debris n \<longrightarrow> contents w n = None"
  shows "\<exists>w'. reconcileTail P G path (last segs) w = (None, w') \<and> plan w' = []"
proof -
  obtain ls where ls: "contents w path = Some (text_of ls)" "list_all2 written (ov @ es) ls" and pk: "path_ok path"
    using assms(2) by (auto simp: disk_def)
  note st = written_all [OF ls(2)]
  have o: "os_Open path w = (Inr (text_of ls, None), w)" using os_Open_quiet [OF assms(4) ls(1)] .
  have f: "scanLines (text_of ls, None) first_line None = (if ov @ es = [] then (None, None) else (Some ErrStop, Some (hd (ov @ es))))"
    using first_scan [OF st, of None] stored_run [OF st] by (simp add: scanLines_def)
  show ?thesis
  proof (cases "ov = []")
    case True
    have "es \<noteq> [] \<Longrightarrow> s_last (last segs) < Seq (hd es)" using overlap_position(1) [OF assms(2,3)] by simp
    then show ?thesis using o f True assms(4) by (simp add: reconcileTail_def lines_read_def)
  next
    case False
    then obtain k where k: "k < length (last ess)" "list_all2 (same_record P) (drop k (last ess)) ov" using assms(2) by (auto simp: disk_def)
    have d: "list_all2 (segment_holds G w) segs ess" "numbered 1 (concat ess @ es)" using assms(2) by (simp_all add: disk_def)
    note nr = newest_run [OF d assms(3)]
    obtain sls where sl: "contents w (s_path (last segs)) = Some (gzip G (text_of sls))" "list_all2 stored (last ess) sls"
      and g: "numbered (unat (s_first (last segs))) (last ess)" "s_last (last segs) = Seq (last (last ess))"
      using nr(2) by (auto simp: segment_holds_def)
    have nv: "numbered (unat (s_first (last segs)) + k) ov" using numbered_same [OF k(2)] numbered_drop [OF g(1)] by blast
    then have u: "unat (Seq (hd ov)) = unat (s_first (last segs)) + k" using False by (cases ov) simp_all
    obtain oc where oc: "newOverlapChecker G (last segs) (Seq (hd ov)) w = (Inr oc, w)" "oc_at oc (last ess) sls k" "oc_next oc = Seq (hd ov)" "oc_seg oc = last segs"
      using newOverlapChecker_quiet [OF assms(1) sl assms(4) g(1) u k(1)] by blast
    obtain ols nls where l: "ls = ols @ nls" "list_all2 stored ov ols" using st by (auto simp: list_all2_append1)
    have "list_all2 (\<lambda>a b. EntryHash P a = EntryHash P b) (drop k (last ess)) ov"
      using k(2) by (rule list_all2_mono) (simp add: same_record_def)
    from reconcile_overlapping [OF l(2) this sl(2) g nv k(1) oc(2) _ oc(4), of 0 0 None "map nl nls"]
    obtain oc' c where r: "scanLines (text_of ls, None) (reconcile_line P) (oc, None) = (Some ErrStop, (oc', Some c))"
      using oc(3) u stored_run [OF st] l(1) by (auto simp: scanLines_def)
    have "Seq (hd ov) \<le> s_last (last segs)" "\<not> Seq (hd ov) < s_first (last segs)"
      using overlap_position(2) [OF assms(2,3) False] u by (simp_all add: word_less_nat_alt)
    moreover obtain w' where "replaceTail path (text_of ls) c w = (Inr (), w')" "plan w' = []"
      using quiet_replaceTail [OF assms(4) _ pk] assms(5) tail_temp_debris by blast
    ultimately show ?thesis using o f False oc(1) r by (simp add: reconcileTail_def lines_read_def quiet_touch [OF assms(4)] leD)
  qed
qed

lemma quiet_open_tail:
  assumes "plan w = []" "contents w (l_path l) = Some (text_of ls)" "list_all2 stored es ls"
    "es \<noteq> [] \<Longrightarrow> 0 < l_sealedSeq l \<Longrightarrow> Seq (hd es) = l_sealedSeq l + 1 \<and> Prev (hd es) = l_sealedHash l"
  shows "\<exists>l' w'. open_tail P l w = (Inr l', w')"
  using chain_state_run [OF assms(3), of True l P] assms(1,2,4) stored_run(1) [OF assms(3)]
  by (simp add: open_tail_def os_OpenAppend_def quiet_lockLedgerFile readChainState_def os_ReadFile_def)

lemma quiet_open_cleaned:
  assumes "gzip_laws G" "disk P G pub path w segs ess ov es []" "plan w = []"
  shows "\<exists>l w'. open_cleaned P G path w = (Inr l, w')"
proof -
  obtain w1 where s: "sweepDebris w = (None, w1)" "plan w1 = []" "\<forall>n. is_debris n \<longrightarrow> contents w1 n = None"
    using quiet_sweepDebris [OF assms(3)] by blast
  have d1: "disk P G pub path w1 segs ess ov es []" using disk_kept [OF assms(2) sweepDebris_kept [OF s(1)]] .
  have ld: "listSegments w1 = (Inr segs, w1)" using listSegments_directory s(2) d1 by (simp add: disk_def)
  have lk: "linked P [] 0 (concat ess @ es)" using d1 by (simp add: disk_def)
  have tail: "\<exists>l' w'. open_tail P l v = (Inr l', w')"
    if v: "disk P G pub path v segs ess [] es []" "plan v = []" "l_path l = path" "l_sealedSeq l = of_nat (length (concat ess))"
      "l_sealedHash l = chain_hash P [] (concat ess)" for l v
  proof -
    obtain ls where "contents v path = Some (text_of ls)" "list_all2 written es ls" using v(1) by (auto simp: disk_def)
    then show ?thesis using quiet_open_tail [OF v(2), of l ls es P] run_continues [OF lk] v(3-5) written_all by auto
  qed
  show ?thesis
  proof (cases "segs = []")
    case True
    then have "ess = []" "ov = []" using d1 by (auto simp: disk_def)
    then show ?thesis using tail [of w1 "new_ledger path"] d1 s ld True by (simp add: open_cleaned_def new_ledger_def)
  next
    case False
    note nb = newest_boundary [OF d1 False]
    have e: "segmentEnd G (last segs) P w1 = (Inr (of_nat (length (concat ess)), chain_hash P [] (concat ess)), w1)"
      using quiet_segmentEnd [OF assms(1) nb(1) s(2), of P] nb(2,3) by simp
    obtain w2 where r: "reconcileTail P G path (last segs) w1 = (None, w2)" "plan w2 = []"
      using quiet_reconcileTail [OF assms(1) d1 False s(2,3)] by blast
    have "disk P G pub path w2 segs ess [] es []" using reconcileTail_effect [OF d1 False r(1)] by auto
    then show ?thesis
      using tail [of w2 "(new_ledger path)\<lparr>l_sealedSeq := of_nat (length (concat ess)), l_sealedHash := chain_hash P [] (concat ess), l_segments := segs,
         l_lastSeq := of_nat (length (concat ess)), l_lastHash := chain_hash P [] (concat ess)\<rparr>"] r s ld e False
      by (simp add: open_cleaned_def new_ledger_def)
  qed
qed

subsection \<open>The boundary that is noted\<close>

lemma walk_step_stopped:
  assumes "walk_step P k VH visit st e = (Some s, st')"
  shows "counted st' = counted st"
proof -
  let ?st1 = "st\<lparr>expectedSeq := expectedSeq st + 1\<rparr>"
  let ?st2 = "?st1\<lparr>traversed := \<lparr>B_Seq = Seq e, B_Hash = hex_encode (entrySum P e)\<rparr>\<rparr>"
  note run = assms [unfolded walk_step_def Let_def]
  show ?thesis
  proof (cases "check_links P ?st1 e")
    case None
    show ?thesis
    proof (cases "check_proof P k ?st2 e")
      case (Inr st3)
      have 3: "counted st3 = counted st" using Inr check_proof_Inr [of P k ?st2 e st3] by simp
      obtain q st4 where h: "check_head VH st3 e = (q, st4)" by fastforce
      then have "counted st4 = counted st" using check_head_keeps(3) [OF h] 3 by simp
      then show ?thesis using run None Inr h by (auto split: option.splits prod.splits)
    qed (use run None in auto)
  qed (use run in auto)
qed

lemma walk_stopped_early:
  assumes "walk_events P k VH visit st evs = (Some s, st')"
  shows "counted st' < counted st + length evs"
  using assms
proof (induction evs arbitrary: st)
  case (Cons e es)
  obtain q st1 where q: "walk_step P k VH visit st e = (q, st1)" by fastforce
  show ?case
  proof (cases q)
    case None
    then show ?thesis using Cons q walk_step_None(7) [of P k VH visit st e st1] Cons.IH [of st1] by simp
  next
    case (Some x)
    then show ?thesis using Cons.prems q walk_step_stopped [of P k VH visit st e x st1] by simp
  qed
qed simp

text \<open>A walk that also notes the boundary goes the way of the walk that does not.\<close>

definition noted :: "('h, 'v) walk \<Rightarrow> ('h, Boundary \<times> 'v) walk \<Rightarrow> bool" where
  "noted a b \<longleftrightarrow> expectedPrev b = expectedPrev a \<and> expectedSeq b = expectedSeq a \<and> proved b = proved a \<and> traversed b = traversed a
     \<and> since b = since a \<and> counted b = counted a \<and> heads b = heads a \<and> snd (visitor b) = visitor a"

lemma noted_links: "noted st t \<Longrightarrow> check_links P t e = check_links P st e"
  by (simp add: check_links_def refuse_def noted_def)

lemma noted_proof:
  assumes "noted st t"
  shows "case check_proof P k st e of Inl s \<Rightarrow> check_proof P k t e = Inl s | Inr st' \<Rightarrow> \<exists>t'. check_proof P k t e = Inr t' \<and> noted st' t'"
  using assms by (auto simp: check_proof_def refuse_def noted_def split: option.split)

lemma noted_head:
  assumes "noted st t" "check_head VH st e = (s, st')"
  shows "\<exists>t'. check_head VH t e = (s, t') \<and> noted st' t'"
  using assms by (auto simp: check_head_def refuse_def noted_def split: option.splits prod.splits if_splits)

lemma noted_step:
  assumes "noted st t" "walk_step P k VH visit st e = (s, st')"
  shows "\<exists>t'. walk_step P k VH (Some (note_boundary P visit)) t e = (s, t') \<and> noted st' t'
     \<and> (s = None \<longrightarrow> fst (visitor t') = \<lparr>B_Seq = Seq e, B_Hash = EntryHash P e\<rparr>)"
proof -
  let ?up = "\<lambda>st. st\<lparr>expectedSeq := expectedSeq st + 1\<rparr>"
  let ?b = "\<lparr>B_Seq = Seq e, B_Hash = hex_encode (entrySum P e)\<rparr>"
  have n1: "noted (?up st) (?up t)" "noted ((?up st)\<lparr>traversed := ?b\<rparr>) ((?up t)\<lparr>traversed := ?b\<rparr>)" using assms(1) by (simp_all add: noted_def)
  note run = assms(2) [unfolded walk_step_def Let_def]
  show ?thesis
  proof (cases "check_links P (?up st) e")
    case (Some x)
    then have "s = Some x" "st' = ?up st" using run by auto
    moreover have "check_links P (?up t) e = Some x" using Some noted_links [OF n1(1), of P e] by simp
    ultimately show ?thesis using n1(1) by (simp add: walk_step_def Let_def)
  next
    case links: None
    then have lt: "check_links P (?up t) e = None" using noted_links [OF n1(1), of P e] by simp
    show ?thesis
    proof (cases "check_proof P k ((?up st)\<lparr>traversed := ?b\<rparr>) e")
      case (Inl x)
      then have "s = Some x" "st' = (?up st)\<lparr>traversed := ?b\<rparr>" using run links by auto
      moreover have "check_proof P k ((?up t)\<lparr>traversed := ?b\<rparr>) e = Inl x" using Inl noted_proof [OF n1(2), of P k e] by simp
      ultimately show ?thesis using n1(2) lt by (simp add: walk_step_def Let_def)
    next
      case pr: (Inr st3)
      then obtain t3 where t3: "check_proof P k ((?up t)\<lparr>traversed := ?b\<rparr>) e = Inr t3" "noted st3 t3"
        using noted_proof [OF n1(2), of P k e] by auto
      obtain q st4 where h: "check_head VH st3 e = (q, st4)" by fastforce
      then obtain t4 where t4: "check_head VH t3 e = (q, t4)" "noted st4 t4" using noted_head [OF t3(2)] by blast
      note ev = walk_step_def Let_def links lt pr t3(1) h t4(1)
      show ?thesis
      proof (cases q)
        case (Some x)
        then show ?thesis using run t4(2) by (auto simp: ev)
      next
        case None
        obtain err v where v: "(case visit of None \<Rightarrow> (None, visitor st4) | Some f \<Rightarrow> f e (visitor st4)) = (err, v)" by fastforce
        then have vt: "note_boundary P visit e (visitor t4) = (err, (\<lparr>B_Seq = Seq e, B_Hash = EntryHash P e\<rparr>, v))"
          using t4(2) by (auto simp: note_boundary_def noted_def split: option.splits)
        show ?thesis
          using run t4(2) v vt None by (cases err) (auto simp: ev noted_def EntryHash_def)
      qed
    qed
  qed
qed

lemma noted_events:
  assumes "noted st t" "walk_events P k VH visit st evs = (s, st')"
  shows "\<exists>t'. walk_events P k VH (Some (note_boundary P visit)) t evs = (s, t') \<and> noted st' t'
     \<and> (s = None \<longrightarrow> evs \<noteq> [] \<longrightarrow> fst (visitor t') = \<lparr>B_Seq = Seq (last evs), B_Hash = EntryHash P (last evs)\<rparr>)"
  using assms
proof (induction evs arbitrary: st t)
  case (Cons e es)
  obtain q st1 where q: "walk_step P k VH visit st e = (q, st1)" by fastforce
  obtain t1 where t1: "walk_step P k VH (Some (note_boundary P visit)) t e = (q, t1)" "noted st1 t1"
    "q = None \<longrightarrow> fst (visitor t1) = \<lparr>B_Seq = Seq e, B_Hash = EntryHash P e\<rparr>"
    using noted_step [OF Cons.prems(1) q] by blast
  show ?case
  proof (cases q)
    case (Some x)
    then show ?thesis using Cons.prems(2) q t1 by auto
  next
    case None
    then have "walk_events P k VH visit st1 es = (s, st')" using Cons.prems(2) q by simp
    from Cons.IH [OF t1(2) this] show ?thesis using t1 None Cons.prems(2) q by (cases es) auto
  qed
qed simp

lemma verifyChain_noted:
  assumes "fst (verifyChain P k VH h visit v (evs, None)) = Inr (length evs)" "evs \<noteq> []"
  shows "\<exists>t. verifyChain P k VH h (Some (note_boundary P visit)) (b, v) (evs, None) = (Inr (length evs), t)
     \<and> fst (visitor t) = \<lparr>B_Seq = Seq (last evs), B_Hash = EntryHash P (last evs)\<rparr>"
proof -
  obtain s st where s: "walk_events P k VH visit (walk_start h v) evs = (s, st)" by fastforce
  have "noted (walk_start h v) (walk_start h (b, v))" by (simp add: noted_def walk_start_def)
  from noted_events [OF this s] obtain t where t: "walk_events P k VH (Some (note_boundary P visit)) (walk_start h (b, v)) evs = (s, t)" "noted st t"
     "s = None \<longrightarrow> fst (visitor t) = \<lparr>B_Seq = Seq (last evs), B_Hash = EntryHash P (last evs)\<rparr>" using assms(2) by auto
  have "s = None"
  proof (cases s)
    case (Some x)
    then have "counted st < length evs" using walk_stopped_early [of P k VH visit "walk_start h v" evs x st] s by (simp add: walk_start_def)
    then show ?thesis using assms(1) s Some by (auto simp: verifyChain_def split: stop.splits if_splits)
  qed
  moreover have "counted st = length evs" using assms(1) s calculation by (simp add: verifyChain_def)
  ultimately show ?thesis using t by (simp add: verifyChain_def noted_def)
qed

lemma committed_hash: "committed a = committed b \<Longrightarrow> Seq a = Seq b \<and> EntryHash P a = EntryHash P b"
  by (simp add: committed_def EntryHash_def entrySum_def EntryBytes_def)

lemma delivered_last:
  assumes "disk P G pub path w segs ess ov es torn" "concat ess @ es \<noteq> []"
  shows "length (delivered path segs ess es) = length (concat ess @ es)" "delivered path segs ess es \<noteq> []"
    "Seq (last (delivered path segs ess es)) = of_nat (length (concat ess @ es))"
    "EntryHash P (last (delivered path segs ess es)) = chain_hash P [] (concat ess @ es)"
proof -
  have d: "length segs = length ess" "numbered 1 (concat ess @ es)" using assms(1) by (auto simp: disk_def list_all2_lengthD)
  have c: "map committed (delivered path segs ess es) = map committed (concat ess @ es)" using committed_delivered [OF d(1)] .
  show l: "length (delivered path segs ess es) = length (concat ess @ es)" using c by (metis length_map)
  then show ne: "delivered path segs ess es \<noteq> []" using assms(2) by (metis length_0_conv)
  have "committed (last (delivered path segs ess es)) = committed (last (concat ess @ es))"
    using c ne assms(2) by (metis last_map)
  from committed_hash [OF this, of P] run_boundary [OF d(2) assms(2)]
  show "Seq (last (delivered path segs ess es)) = of_nat (length (concat ess @ es))"
    "EntryHash P (last (delivered path segs ess es)) = chain_hash P [] (concat ess @ es)" by simp_all
qed

lemma quiet_verify_before:
  assumes "gzip_laws G" "disk P G pub path w segs ess ov es torn" "plan w = []" "concat ess @ es \<noteq> []"
    "fst (verifyChain P key VH (o_heads st) visit (o_visitor st) (delivered path segs ess es, None)) = Inr (length (concat ess @ es))"
    "case check of None \<Rightarrow> True | Some f \<Rightarrow> f (of_nat (length (concat ess @ es))) = None"
  shows "\<exists>st' w'. verify_before P G path key VH visit check None st w = ((None, st'), w') \<and> plan w' = []
     \<and> o_boundary st' = \<lparr>B_Seq = of_nat (length (concat ess @ es)), B_Hash = chain_hash P [] (concat ess @ es)\<rparr>"
proof -
  obtain ls where ls: "contents w path = Some (text_of ls @ torn)" "list_all2 written (ov @ es) ls" and pk: "path_ok path" "torn_line torn"
    using assms(2) by (auto simp: disk_def)
  have d: "directory w segs" "list_all2 (segment_holds G w) segs ess" "numbered 1 (concat ess @ es)"
    "ov = [] \<or> ess \<noteq> [] \<and> (\<exists>k < length (last ess). list_all2 (same_record P) (drop k (last ess)) ov)"
    using assms(2) by (simp_all add: disk_def)
  have s: "stream_source P G path (Some (text_of ls, None)) w = ((delivered path segs ess es, None), w)"
    by (rule stream_source_tail [OF assms(1) d(1-3) assms(3) written_all [OF ls(2)] d(4)])
  note dl = delivered_last [OF assms(2,4)]
  obtain t where t: "verifyChain P key VH (o_heads st) (Some (note_boundary P visit)) (o_boundary st, o_visitor st) (delivered path segs ess es, None)
      = (Inr (length (concat ess @ es)), t)"
    "fst (visitor t) = \<lparr>B_Seq = of_nat (length (concat ess @ es)), B_Hash = chain_hash P [] (concat ess @ es)\<rparr>"
    using verifyChain_noted [of P key VH "o_heads st" visit "o_visitor st" "delivered path segs ess es" "o_boundary st"] assms(5) dl by auto
  have o: "os_Open path w = (Inr (text_of ls @ torn, None), w)" by (rule os_Open_quiet [OF assms(3) ls(1)])
  have len: "length (concat ess @ es) \<noteq> 0" using assms(4) by (metis length_0_conv)
  obtain w' where w': "trimPreservedSuffix P path (text_of ls @ torn) (length (text_of ls)) None w = (None, w')" "plan w' = []"
    using quiet_trim [OF assms(3) _ pk(1)] ls(1) by (metis option.distinct(1))
  have lt: "length (text_of ls) < length (text_of ls @ torn) \<longleftrightarrow> torn \<noteq> []" by simp
  let ?st = "st\<lparr>o_count := length (concat ess @ es), o_boundary := fst (visitor t), o_heads := heads t, o_visitor := snd (visitor t)\<rparr>"
  have "verify_tail P G path key VH visit check None (text_of ls @ torn) None st w
      = (if torn = [] then ((None, ?st), w) else ((None, ?st), w'))"
    using s t len w' assms(6) complete_part [OF pk(2), of ls] lt
    by (simp add: verify_tail_def lines_read_def Let_def del: length_append split: option.splits)
  then show ?thesis using o w'(2) assms(3) t(2) by (simp add: verify_before_def quiet_touch)
qed

lemma quiet_openVerified:
  assumes "gzip_laws G" "disk P G pub path w segs ess ov es torn" "plan w = []" "concat ess @ es \<noteq> []"
    "fst (verifyChain P key VH hs visit v (delivered path segs ess es, None)) = Inr (length (concat ess @ es))"
    "case check of None \<Rightarrow> True | Some f \<Rightarrow> f (of_nat (length (concat ess @ es))) = None"
  shows "\<exists>l st w'. openVerified P G path key VH hs visit v check None w = ((Inr l, st), w')"
proof -
  let ?b = "\<lparr>o_count = 0, o_boundary = \<lparr>B_Seq = 0, B_Hash = []\<rparr>, o_heads = hs, o_visitor = v\<rparr>"
  obtain w1 where a: "lockLedgerDir w = (None, w1)" "plan w1 = []" using quiet_lockLedgerDir [OF assms(3)] by blast
  have d1: "disk P G pub path w1 segs ess ov es torn" using disk_kept [OF assms(2) lockLedgerDir_kept [OF a(1)]] .
  obtain st w2 where c: "verify_before P G path key VH visit check None ?b w1 = ((None, st), w2)" "plan w2 = []"
    "o_boundary st = \<lparr>B_Seq = of_nat (length (concat ess @ es)), B_Hash = chain_hash P [] (concat ess @ es)\<rparr>"
    using quiet_verify_before [OF assms(1) d1 a(2) assms(4), of key VH ?b visit check] assms(5,6) by auto
  have d2: "disk P G pub path w2 segs ess ov es []" using verify_before_effect [OF d1 c(1)] by blast
  obtain l w3 where o: "open_cleaned P G path w2 = (Inr l, w3)" using quiet_open_cleaned [OF assms(1) d2 c(2)] by blast
  then have "ledger_inv P G pub l w3 segs ess es" using open_cleaned_effect(2) [OF assms(1) d2 o] by blast
  then have "LastSeq l = of_nat (length (concat ess @ es)) \<and> LastHash l = chain_hash P [] (concat ess @ es)"
    by (simp add: ledger_inv_def LastSeq_def LastHash_def)
  then show ?thesis using a(1) c(1,3) o by (simp add: openVerified_def openLedger_def)
qed

subsection \<open>Capture\<close>

lemma copy_bytes_effect:
  assumes "copy_bytes path tailDst w = (r, w')"
  shows "p \<noteq> tailDst \<Longrightarrow> contents w' p = contents w p"
    "r = None \<Longrightarrow> contents w tailDst = Some [] \<Longrightarrow> contents w path = Some s \<Longrightarrow> contents w' tailDst = Some s"
proof -
  obtain q w1 where o: "os_Open path w = (q, w1)" by fastforce
  note c1 = os_Open_contents [OF o]
  have "(p \<noteq> tailDst \<longrightarrow> contents w' p = contents w p)
      \<and> (r = None \<longrightarrow> contents w tailDst = Some [] \<longrightarrow> contents w path = Some s \<longrightarrow> contents w' tailDst = Some s)"
  proof (cases q)
    case (Inl e)
    then show ?thesis using assms o c1 by (auto simp: copy_bytes_def)
  next
    case (Inr x)
    obtain data brk where x: "x = (data, brk)" by fastforce
    obtain body err where l: "lines_read data brk None = (body, err)" by fastforce
    obtain a w2 where a: "os_Append tailDst body w1 = (a, w2)" by fastforce
    obtain c w3 where c: "os_touch w2 = (c, w3)" by fastforce
    have f: "p \<noteq> tailDst \<Longrightarrow> contents w2 p = contents w1 p" using touchingD [OF touching_append a, of "{tailDst}"] by simp
    have e: "w' = w3" "r = None \<Longrightarrow> a = Inr () \<and> err = None"
      using assms o Inr x l a c by (auto simp: copy_bytes_def split: sum.splits option.splits)
    have d: "contents w path = Some s \<Longrightarrow> data = s" using os_Open_Inr o Inr x by fastforce
    have t: "err = None \<Longrightarrow> body = data" using l by (auto simp: lines_read_def split: option.splits)
    have n: "a = Inr () \<Longrightarrow> contents w tailDst = Some [] \<Longrightarrow> contents w2 tailDst = Some body" using os_Append_ok a c1 by fastforce
    show ?thesis using f e d t n c1 os_touch_contents [OF c] by auto
  qed
  then show "p \<noteq> tailDst \<Longrightarrow> contents w' p = contents w p"
    "r = None \<Longrightarrow> contents w tailDst = Some [] \<Longrightarrow> contents w path = Some s \<Longrightarrow> contents w' tailDst = Some s" by simp_all
qed

lemma copy_tail_effect:
  assumes "copy_tail P l tailDst w = (r, w')"
  shows "p \<noteq> tailDst \<Longrightarrow> contents w' p = contents w p"
    "r = Inr cap \<Longrightarrow> contents w tailDst = Some [] \<Longrightarrow> contents w (l_path l) = Some s
       \<Longrightarrow> contents w' tailDst = Some s \<and> check_capture P l s = Inr cap"
proof -
  obtain q w1 where q: "copy_bytes (l_path l) tailDst w = (q, w1)" by fastforce
  obtain a w2 where a: "os_touch w1 = (a, w2)" by fastforce
  obtain b w3 where b: "os_ReadFile tailDst w2 = (b, w3)" by fastforce
  have c: "contents w2 = contents w1" "contents w3 = contents w2" using os_touch_contents [OF a] os_ReadFile_contents [OF b] by simp_all
  have v: "w' \<in> {w1, w2, w3}" "r = Inr cap \<Longrightarrow> q = None \<and> w' = w3 \<and> (\<exists>copied. b = Inr copied \<and> check_capture P l copied = Inr cap)"
    using assms q a b by (auto simp: copy_tail_def split: option.splits sum.splits)
  show "p \<noteq> tailDst \<Longrightarrow> contents w' p = contents w p" using v(1) c copy_bytes_effect(1) [OF q] by auto
  assume r: "r = Inr cap" "contents w tailDst = Some []" "contents w (l_path l) = Some s"
  then have "contents w1 tailDst = Some s" using v(2) copy_bytes_effect(2) [OF q] by blast
  then show "contents w' tailDst = Some s \<and> check_capture P l s = Inr cap" using v(2) [OF r(1)] c b os_ReadFile_ok by fastforce
qed

lemma check_capture_ok:
  assumes "ledger_inv P G pub l w segs ess es" "contents w (l_path l) = Some s"
  shows "check_capture P l s = Inr \<lparr>c_LastSeq = l_lastSeq l, c_LastHash = l_lastHash l, c_SealedSeq = l_sealedSeq l, c_Segments = map s_path segs\<rparr>"
proof -
  obtain ls where ls: "s = text_of ls" "list_all2 written es ls" using assms by (auto simp: ledger_inv_def)
  have r: "readTailEvents s 0 = Inr (drop (length es - 1) es)" using readTailEvents_text [OF written_all [OF ls(2)], of 0] ls(1) by simp
  have i: "numbered 1 (concat ess @ es)" "l_lastHash l = chain_hash P [] (concat ess @ es)" "l_segments l = segs"
    using assms(1) by (simp_all add: ledger_inv_def)
  show ?thesis
  proof (cases "es = []")
    case True
    then show ?thesis using r assms(1) by (simp add: check_capture_def ledger_inv_def)
  next
    case False
    have "last (drop (length es - 1) es) = last (concat ess @ es)" "drop (length es - 1) es \<noteq> []"
      using False by (cases es rule: rev_cases; simp)+
    moreover have "EntryHash P (last (concat ess @ es)) = l_lastHash l" using run_boundary(2) [OF i(1)] False i(2) by simp
    ultimately show ?thesis using r i(3) by (simp add: check_capture_def)
  qed
qed

lemma Ledger_Capture_effect:
  assumes "Ledger_Capture P tailDst l w = (r, w')" "tailDst \<noteq> l_path l"
  shows "p \<noteq> tailDst \<Longrightarrow> contents w' p = contents w p" "contents w tailDst \<noteq> None \<Longrightarrow> contents w' = contents w \<and> r \<in> range Inl"
    "r = Inr cap \<Longrightarrow> contents w (l_path l) = Some s \<Longrightarrow> contents w' tailDst = Some s \<and> check_capture P l s = Inr cap"
proof -
  obtain q w1 where q: "io_then os_touch (os_Create tailDst) w = (q, w1)" by fastforce
  obtain t w2 where t: "copy_tail P l tailDst w1 = (t, w2)" by fastforce
  obtain c w3 where c: "os_touch w2 = (c, w3)" by fastforce
  obtain d w4 where d: "os_Remove tailDst w3 = (d, w4)" by fastforce
  have c1: "q = Inr () \<and> contents w tailDst = None \<and> contents w1 = (contents w)(tailDst \<mapsto> []) \<or> q \<in> range Inl \<and> contents w1 = contents w"
    using q by (cases q) (auto simp: io_then_def io_bind_def split: prod.splits sum.splits dest!: os_touch_contents dest: os_Create_ok os_Create_fail)
  have c3: "contents w3 = contents w2" by (rule os_touch_contents [OF c])
  have c4: "p \<noteq> tailDst \<Longrightarrow> contents w4 p = contents w3 p" for p using os_Remove_frame [of p tailDst w3] d by simp
  have v: "r \<in> range Inl \<and> w' = w \<or> q \<in> range Inl \<and> r \<in> range Inl \<and> w' = w1
      \<or> q = Inr () \<and> (r \<in> range Inl \<and> w' = w4 \<or> r = t \<and> w' = w3)"
    using assms(1) q t c d c1 by (auto simp: Ledger_Capture_def split: if_splits sum.splits)
  show "p \<noteq> tailDst \<Longrightarrow> contents w' p = contents w p" using v c1 c3 c4 [of p] copy_tail_effect(1) [OF t, of p] by auto
  show "contents w tailDst \<noteq> None \<Longrightarrow> contents w' = contents w \<and> r \<in> range Inl" using v c1 by auto
  assume r: "r = Inr cap" "contents w (l_path l) = Some s"
  then have "q = Inr () \<and> t = Inr cap \<and> w' = w3" using v by auto
  then show "contents w' tailDst = Some s \<and> check_capture P l s = Inr cap"
    using c1 c3 copy_tail_effect(2) [OF t, of cap s] r(2) assms(2) by auto
qed

lemma quiet_Ledger_Capture:
  assumes "ledger_inv P G pub l w segs ess es" "plan w = []" "contents w tailDst = None" "l_dirLock l" "l_file l"
  shows "\<exists>cap w'. Ledger_Capture P tailDst l w = (Inr cap, w')"
proof -
  obtain s where s: "contents w (l_path l) = Some s" using assms(1) by (auto simp: ledger_inv_def)
  let ?w1 = "set_file tailDst [] w" and ?w2 = "set_file tailDst s (set_file tailDst [] w)"
  have ne: "tailDst \<noteq> l_path l" using s assms(3) by auto
  have p: "plan ?w1 = []" "plan ?w2 = []" using assms(2) by simp_all
  have o: "os_Open (l_path l) ?w1 = (Inr (s, None), ?w1)" by (rule os_Open_quiet [OF p(1)]) (use s ne in simp)
  have "os_Append tailDst s ?w1 = (Inr (), ?w2)" using quiet_Append [OF p(1), of tailDst "[]" s] by simp
  then have "copy_bytes (l_path l) tailDst ?w1 = (None, ?w2)" using o p(2) by (simp add: copy_bytes_def lines_read_def quiet_touch)
  moreover have "os_ReadFile tailDst ?w2 = (Inr s, ?w2)" using p(2) by (simp add: os_ReadFile_def)
  ultimately have "\<exists>cap. copy_tail P l tailDst ?w1 = (Inr cap, ?w2)" using check_capture_ok [OF assms(1) s] p(2) by (simp add: copy_tail_def quiet_touch)
  moreover have "io_then os_touch (os_Create tailDst) w = (Inr (), ?w1)" using assms(2,3) by (simp add: io_then_def io_bind_def quiet_touch os_Create_def)
  ultimately show ?thesis using assms(4,5) p(2) by (auto simp: Ledger_Capture_def quiet_touch)
qed

subsection \<open>Properties\<close>

text \<open>
  C4. Opening a ledger with verification repairs it. Whatever the files hold - segments, a tail that repeats
  the end of the newest segment because a seal was interrupted, a part of a line at the end because an
  append was - and whatever calls fail: when \<open>OpenVerified\<close> returns a ledger, the segments and the records
  of the tail are those that were there, the tail holds each of them once and no part of a line, the
  ledger is positioned on the last record, and the part of a line that was removed is kept, byte for byte,
  in a file of its own.
\<close>

theorem open_recovers_torn_tail:
  assumes "gzip_laws G" "disk P G pub path w segs ess ov es torn"
    "OpenVerified P G path key VH hs visit v check w = ((Inr l, st), w')"
  shows "ledger_inv P G pub l w' segs ess es \<and> (torn \<noteq> [] \<longrightarrow> contents w' (torn_name P path torn) = Some torn)"
  using openVerified_effect(2) [OF assms(1,2) assms(3) [unfolded OpenVerified_def] refl] by blast

text \<open>
  C15. Opening succeeds: when no call fails, the chain of records that the files hold is accepted under the
  key, the head verifier and the visitor the caller gives, it has at least one record, and the caller's
  check takes its last number, then \<open>OpenVerified\<close> returns a ledger - also when the tail repeats records of
  the newest segment and when it ends in a part of a line.
\<close>

theorem open_progresses:
  assumes "gzip_laws G" "disk P G pub path w segs ess ov es torn" "plan w = []" "concat ess @ es \<noteq> []"
    "fst (verifyChain P key VH hs visit v (delivered path segs ess es, None)) = Inr (length (concat ess @ es))"
    "case check of None \<Rightarrow> True | Some f \<Rightarrow> f (of_nat (length (concat ess @ es))) = None"
  shows "\<exists>l st w'. OpenVerified P G path key VH hs visit v check w = ((Inr l, st), w')"
  unfolding OpenVerified_def by (rule quiet_openVerified [OF assms])

text \<open>
  C13. A seal that failed after its segment was published is finished by \<open>RecoverSeal\<close> without losing or
  repeating a record: when it reports success the ledger is again in its normal state over the same
  records, and the mark is gone; when it fails, at whatever call, the same records are still there and the
  ledger still waits for recovery.
\<close>

theorem recover_finishes_seal:
  assumes "gzip_laws G" "pending P G pub l w log" "RecoverSeal P G key VH hs l w = (((r, l'), hs'), w')"
  shows "l_path l' = l_path l \<and> (if r = None then represents P G pub l' w' log \<and> l_sealErr l' = None else pending P G pub l' w' log)"
  using RecoverSeal_outcome [OF assms] by auto

text \<open>
  C31. A capture is a faithful copy and harms nothing. No file but the copy is touched, and a file that is
  already under the name of the copy stays as it is. When \<open>Capture\<close> returns a result, the copy holds the
  bytes of the tail and the result names the last record, the sealed boundary and all segments. When no
  call fails and the name is free, it does return a result.
\<close>

theorem capture_copies_record:
  assumes "ledger_inv P G pub l w segs ess es" "tailDst \<noteq> l_path l" "Ledger_Capture P tailDst l w = (r, w')"
  shows "(\<forall>p. p \<noteq> tailDst \<or> contents w p \<noteq> None \<longrightarrow> contents w' p = contents w p)
    \<and> (\<forall>cap. r = Inr cap \<longrightarrow> contents w' tailDst = contents w (l_path l)
         \<and> cap = \<lparr>c_LastSeq = of_nat (length (concat ess @ es)), c_LastHash = chain_hash P [] (concat ess @ es),
                  c_SealedSeq = of_nat (length (concat ess)), c_Segments = map s_path segs\<rparr>)
    \<and> (plan w = [] \<and> contents w tailDst = None \<and> l_dirLock l \<and> l_file l \<longrightarrow> (\<exists>cap. r = Inr cap))"
proof (intro conjI allI impI)
  note e = Ledger_Capture_effect [OF assms(3,2)]
  show "contents w' p = contents w p" if "p \<noteq> tailDst \<or> contents w p \<noteq> None" for p
    using that e(1,2) by (cases "p = tailDst") auto
  obtain s where s: "contents w (l_path l) = Some s" using assms(1) by (auto simp: ledger_inv_def)
  fix cap
  assume "r = Inr cap"
  from e(3) [OF this s] check_capture_ok [OF assms(1) s]
  show "contents w' tailDst = contents w (l_path l)"
    "cap = \<lparr>c_LastSeq = of_nat (length (concat ess @ es)), c_LastHash = chain_hash P [] (concat ess @ es),
       c_SealedSeq = of_nat (length (concat ess)), c_Segments = map s_path segs\<rparr>"
    using s assms(1) by (simp_all add: ledger_inv_def)
next
  assume "plan w = [] \<and> contents w tailDst = None \<and> l_dirLock l \<and> l_file l"
  then show "\<exists>cap. r = Inr cap" using quiet_Ledger_Capture [OF assms(1), of tailDst] assms(3) by auto
qed

subsection \<open>Examples\<close>

text \<open>The ledger of one record, with the beginning of a second line at the end of its tail.\<close>

definition torn_world :: world where
  "torn_world = \<lparr>files = [(demo_path, text_of [head_line] @ ''{'')], plan = [], clock = 0\<rparr>"

lemma torn_disk: "disk demo_prims demo_gz ''P7'' demo_path torn_world [] [] [] [head_record] ''{''"
proof -
  have "segment_of demo_path = None" using demo_path_ok by (simp add: path_ok_def)
  then have "directory torn_world []" by (auto simp: directory_def torn_world_def contents_def)
  moreover have "\<exists>ls. contents torn_world demo_path = Some (text_of ls @ ''{'') \<and> list_all2 written [head_record] ls"
    using head_written by (intro exI [of _ "[head_line]"]) (simp add: torn_world_def contents_def)
  ultimately show ?thesis
    using demo_path_ok head_record_signed(3) by (simp add: disk_def torn_line_def head_record_fields)
qed

lemma in_tail_signature: "verifyEventSignature P (in_tail path e) key = verifyEventSignature P e key"
proof -
  have "EntryHash P (in_tail path e) = EntryHash P e" "Sig (in_tail path e) = Sig e"
    by (simp_all add: in_tail_def EntryHash_def entrySum_def EntryBytes_def)
  then show ?thesis by (simp add: verifyEventSignature_def cong: option.case_cong)
qed

lemma head_accepted:
  "fst (verifyChain demo_prims ''P7'' VH None None () (delivered demo_path [] [] [head_record], None)) = Inr (length (concat [] @ [head_record]))"
proof -
  have "linked demo_prims [] 0 [in_tail demo_path head_record]" by (simp add: in_tail_def head_record_fields)
  moreover have "proof_ok demo_prims ''P7'' False (in_tail demo_path head_record)"
    using head_record_signed(1,3) head_record_fields(7) in_tail_signature [of demo_prims demo_path head_record]
    by (simp add: proof_ok_def) (simp add: in_tail_def)
  ultimately show ?thesis unfolding verifyChain_plain_iff by (simp add: delivered_def)
qed

definition no_heads :: "unit verify_head" where
  "no_heads h e at = ((0, None), h)"

theorem open_recovers_torn_tail_witness:
  "\<exists>l st w'. OpenVerified demo_prims demo_gz demo_path ''P7'' no_heads None None () None torn_world = ((Inr l, st), w')
     \<and> ledger_inv demo_prims demo_gz ''P7'' l w' [] [] [head_record] \<and> contents w' (torn_name demo_prims demo_path ''{'') = Some ''{''"
proof -
  have "plan torn_world = []" by (simp add: torn_world_def)
  from quiet_openVerified [OF demo_gzip_laws torn_disk this _ head_accepted, of None]
  obtain l st w' where o: "OpenVerified demo_prims demo_gz demo_path ''P7'' no_heads None None () None torn_world = ((Inr l, st), w')"
    unfolding OpenVerified_def by fastforce
  from open_recovers_torn_tail [OF demo_gzip_laws torn_disk o] o show ?thesis by blast
qed

theorem open_progresses_witness:
  "\<exists>l st w'. OpenVerified demo_prims demo_gz demo_path ''P7'' no_heads None None () None torn_world = ((Inr l, st), w')"
proof -
  have "plan torn_world = []" by (simp add: torn_world_def)
  then show ?thesis using open_progresses [OF demo_gzip_laws torn_disk _ _ head_accepted, of None no_heads] by simp
qed

text \<open>The ledger of one record after a seal that failed before the tail was cut.\<close>

definition pending_ledger :: Ledger where
  "pending_ledger = head_ledger\<lparr>l_sealErr := Some (IoErr ErrIO)\<rparr>"

lemma overlap_pending: "pending demo_prims demo_gz ''P7'' pending_ledger overlap_world [head_record]"
proof (rule pendingI)
  have "l_path pending_ledger = demo_path" by (simp add: pending_ledger_def head_ledger_def demo_ledger_def new_ledger_def)
  moreover have "\<exists>ls. contents overlap_world demo_path = Some (text_of ls) \<and> list_all2 written [head_record] ls"
    using head_written by (intro exI [of _ "[head_line]"]) (simp add: overlap_world_def contents_def)
  ultimately show "disk demo_prims demo_gz ''P7'' (l_path pending_ledger) overlap_world [head_segment] [[head_record]] [head_record] [] []"
    using overlap_store demo_path_ok by (auto simp: disk_def store_def torn_line_def head_record_fields same_record_def)
qed (simp_all add: pending_ledger_def head_ledger_def head_record_fields)

theorem recover_finishes_seal_witness:
  "case RecoverSeal demo_prims demo_gz ''P7'' no_heads None pending_ledger overlap_world of (((r, l'), hs'), w') \<Rightarrow>
     if r = None then represents demo_prims demo_gz ''P7'' l' w' [head_record] \<and> l_sealErr l' = None
     else pending demo_prims demo_gz ''P7'' l' w' [head_record]"
proof -
  obtain r l' hs' w' where r: "RecoverSeal demo_prims demo_gz ''P7'' no_heads None pending_ledger overlap_world = (((r, l'), hs'), w')"
    by (metis prod.exhaust)
  then show ?thesis using recover_finishes_seal [OF demo_gzip_laws overlap_pending r] by simp
qed

theorem capture_copies_record_witness:
  "\<exists>cap w'. Ledger_Capture demo_prims ''copy'' head_ledger head_world = (Inr cap, w')
     \<and> contents w' ''copy'' = Some (text_of [head_line]) \<and> c_LastSeq cap = 1"
proof -
  obtain r w' where r: "Ledger_Capture demo_prims ''copy'' head_ledger head_world = (r, w')" by fastforce
  have p: "l_path head_ledger = demo_path" "l_dirLock head_ledger" "l_file head_ledger"
    by (simp_all add: head_ledger_def demo_ledger_def new_ledger_def)
  have n: "''copy'' \<noteq> demo_path" by (simp add: demo_path_def)
  have w: "plan head_world = []" "contents head_world ''copy'' = None" "contents head_world demo_path = Some (text_of [head_line])"
    using n by (simp_all add: head_world_def contents_def)
  have "''copy'' \<noteq> l_path head_ledger" using n p(1) by simp
  from capture_copies_record [OF head_inv this r] show ?thesis using r p w by auto
qed

end
