(* ===== verification/Ledger_Durable.thy ===== *)
theory Ledger_Durable
  imports Ledger_Boot
begin

text \<open>
  The ledger over its whole life: records are appended and sealed, calls fail, seals are recovered, the
  program stops anywhere between its calls and opens the ledger again. Whatever the sequence, every record
  whose append was acknowledged is still there, in order, and no other record comes before it.
\<close>

subsection \<open>Runs\<close>

text \<open>A run of labelled steps; the labels are the records acknowledged on the way.\<close>

inductive runs :: "('s \<Rightarrow> 'r list \<Rightarrow> 's \<Rightarrow> bool) \<Rightarrow> 's \<Rightarrow> 'r list \<Rightarrow> 's \<Rightarrow> bool" for step where
  runs_refl: "runs step s [] s"
| runs_step: "runs step s acks s' \<Longrightarrow> step s' news s'' \<Longrightarrow> runs step s (acks @ news) s''"

text \<open>
  What a durable log promises: a step keeps the records there are and adds those it acknowledges, and
  possibly others that were written but not acknowledged.
\<close>

locale durable =
  fixes inv :: "'s \<Rightarrow> 'r list \<Rightarrow> bool" and step :: "'s \<Rightarrow> 'r list \<Rightarrow> 's \<Rightarrow> bool"
  assumes step_extends: "inv s log \<Longrightarrow> step s acks s' \<Longrightarrow> \<exists>new. inv s' (log @ new) \<and> subseq acks new"
begin

lemma run_extends: "runs step s acks s' \<Longrightarrow> inv s log \<Longrightarrow> \<exists>new. inv s' (log @ new) \<and> subseq acks new"
proof (induction rule: runs.induct)
  case (runs_step s acks s' news s'')
  obtain new where n: "inv s' (log @ new)" "subseq acks new" using runs_step.IH runs_step.prems by blast
  obtain new' where "inv s'' ((log @ new) @ new')" "subseq news new'" using step_extends [OF n(1) runs_step.hyps(2)] by blast
  then show ?case using n(2) by (intro exI [of _ "new @ new'"]) (simp add: list_emb_append_mono)
next
  case (runs_refl s)
  then show ?case by (intro exI [of _ "[]"]) simp
qed

end

subsection \<open>The steps of a ledger\<close>

text \<open>
  The program has the ledger open or it has not; \<open>crash\<close> is the end of the program at any point between
  two calls, and \<open>environment\<close> sets which of the system calls to come fail, and the clock.
\<close>

type_synonym system = "Ledger option \<times> world"

inductive ledger_step ::
  "'sk prims \<Rightarrow> gz \<Rightarrow> 'sk KeyPair \<Rightarrow> bytes \<Rightarrow> 'h verify_head \<Rightarrow> (Event \<Rightarrow> 'v \<Rightarrow> ledger_err option \<times> 'v) option
     \<Rightarrow> system \<Rightarrow> Event list \<Rightarrow> system \<Rightarrow> bool"
  for P G kp path VH visit where
  append: "AppendPrepared P eventType ring raw kp l w = ((r, l'), w') \<Longrightarrow> appendable eventType ring raw
     \<Longrightarrow> unat (l_lastSeq l) + 1 < 2 ^ 64 \<Longrightarrow> \<forall>line. signed_line P kp eventType ring raw l (clock w) line \<longrightarrow> length line \<noteq> MaxEventLineBytes
     \<Longrightarrow> ledger_step P G kp path VH visit (Some l, w) (case r of Inl _ \<Rightarrow> [] | Inr evt \<Rightarrow> [evt]) (Some l', w')"
| seal: "Seal P G head l w = ((q, l'), w') \<Longrightarrow> ledger_step P G kp path VH visit (Some l, w) [] (Some l', w')"
| recover: "RecoverSeal P G (PublicKey kp) VH hs l w = (((err, l'), hs'), w')
     \<Longrightarrow> ledger_step P G kp path VH visit (Some l, w) [] (Some l', w')"
| freeze: "ledger_step P G kp path VH visit (Some l, w) [] (Some (SetFrozen reason l), w)"
| close: "Close l w = ((err, l'), w') \<Longrightarrow> ledger_step P G kp path VH visit (Some l, w) [] (None, w')"
| crash: "ledger_step P G kp path VH visit (Some l, w) [] (None, w)"
| reopen: "OpenVerified P G path (PublicKey kp) VH hs visit v check w = ((res, st), w')
     \<Longrightarrow> ledger_step P G kp path VH visit (None, w) [] (case res of Inl _ \<Rightarrow> None | Inr l \<Rightarrow> Some l, w')"
| environment: "ledger_step P G kp path VH visit (s, w) [] (s, w\<lparr>plan := p, clock := t\<rparr>)"

text \<open>What holds of the program and its files, \<open>log\<close> being the records written so far.\<close>

definition sys_inv :: "'sk prims \<Rightarrow> gz \<Rightarrow> bytes \<Rightarrow> bytes \<Rightarrow> system \<Rightarrow> Event list \<Rightarrow> bool" where
  "sys_inv P G pub path s log \<longleftrightarrow> holds P G pub path (snd s) log \<and> (case fst s of None \<Rightarrow> True
     | Some l \<Rightarrow> l_path l = path \<and> (l_frozenReason l = None \<longrightarrow>
         (if l_sealErr l = None then represents P G pub l (snd s) log else pending P G pub l (snd s) log)))"

lemma represents_holds: "represents P G pub l w log \<Longrightarrow> holds P G pub (l_path l) w log"
  unfolding represents_def holds_def ledger_inv_disk by (metis (no_types, lifting))

lemma pending_holds: "pending P G pub l w log \<Longrightarrow> holds P G pub (l_path l) w log"
  unfolding pending_def holds_def by blast

lemma holds_same: "holds P G pub path w log \<Longrightarrow> contents w' = contents w \<Longrightarrow> holds P G pub path w' log"
  unfolding holds_def using disk_same by blast

lemma represents_same: "represents P G pub l w log \<Longrightarrow> contents w' = contents w \<Longrightarrow> represents P G pub l w' log"
  unfolding represents_def ledger_inv_disk using disk_same by blast

lemma pending_same: "pending P G pub l w log \<Longrightarrow> contents w' = contents w \<Longrightarrow> pending P G pub l w' log"
  unfolding pending_def using disk_same by blast

lemma sys_inv_same: "sys_inv P G pub path (s, w) log \<Longrightarrow> contents w' = contents w \<Longrightarrow> sys_inv P G pub path (s, w') log"
  unfolding sys_inv_def by (auto simp: holds_same represents_same pending_same split: option.splits)

lemma sys_inv_frozen: "sys_inv P G pub path (Some l, w) log \<Longrightarrow> l_frozenReason l' \<noteq> None \<Longrightarrow> l_path l' = l_path l
    \<Longrightarrow> contents w' = contents w \<Longrightarrow> sys_inv P G pub path (Some l', w') log"
  unfolding sys_inv_def by (auto simp: holds_same)

lemma append_extends:
  assumes inv: "sys_inv P G (PublicKey kp) path (Some l, w) log" and k: "mldsa_laws P" "signer P kp" "appendable eventType ring raw"
    and n: "unat (l_lastSeq l) + 1 < 2 ^ 64" "\<forall>line. signed_line P kp eventType ring raw l (clock w) line \<longrightarrow> length line \<noteq> MaxEventLineBytes"
    and ap: "AppendPrepared P eventType ring raw kp l w = ((r, l'), w')"
  shows "\<exists>new. sys_inv P G (PublicKey kp) path (Some l', w') (log @ new) \<and> subseq (case r of Inl _ \<Rightarrow> [] | Inr evt \<Rightarrow> [evt]) new"
proof (cases "l_frozenReason l = None \<and> l_dirLock l \<and> l_sealErr l = None")
  case False
  then have "r \<in> range Inl \<and> l' = l \<and> w' = w" using ap by (auto simp: AppendPrepared_def split: if_splits option.splits)
  then show ?thesis using inv by (intro exI [of _ "[]"]) auto
next
  case True
  then have "represents P G (PublicKey kp) l w log" and pt: "l_path l = path" using inv by (simp_all add: sys_inv_def)
  then obtain segs ess es where i: "ledger_inv P G (PublicKey kp) l w segs ess es" "map committed log = map committed (concat ess @ es)"
    by (auto simp: represents_def)
  have len: "length (concat ess @ es) + 1 < 2 ^ 64"
  proof (cases "concat ess @ es = []")
    case False
    have "numbered 1 (concat ess @ es)" using i(1) by (simp add: ledger_inv_def)
    from numbered_last [OF this False] run_boundary(1) [OF this False]
    have "unat (l_lastSeq l) = length (concat ess @ es)" using i(1) by (simp add: ledger_inv_def)
    then show ?thesis using n(1) by simp
  next
    case True
    show ?thesis unfolding True by simp
  qed
  have landed: "map committed (log @ [evt]) = map committed (concat ess @ es @ [evt])" for evt using i(2) by simp
  show ?thesis
    using i(1) k len ap
  proof (cases rule: append_outcome)
    case (refused e)
    then have "sys_inv P G (PublicKey kp) path (Some l', w') log"
      using sys_inv_same [OF inv] sys_inv_frozen [OF inv] by auto
    then show ?thesis using refused by (intro exI [of _ "[]"]) simp
  next
    case (uncertain evt line)
    then have "length line < MaxEventLineBytes" using n(2) by (metis le_neq_implies_less)
    then have "holds P G (PublicKey kp) path w' log \<or> holds P G (PublicKey kp) path w' (log @ [evt])"
      using uncertain(9) i(2) landed [of evt] unfolding holds_def pt by (metis append_assoc)
    then show ?thesis
    proof
      assume "holds P G (PublicKey kp) path w' log"
      then show ?thesis using uncertain(1,2) pt by (intro exI [of _ "[]"]) (auto simp: sys_inv_def)
    next
      assume "holds P G (PublicKey kp) path w' (log @ [evt])"
      then show ?thesis using uncertain(1,2) pt by (intro exI [of _ "[evt]"]) (auto simp: sys_inv_def)
    qed
  next
    case (appended evt line)
    then have "length line < MaxEventLineBytes" using n(2) by (metis le_neq_implies_less)
    then have rp: "represents P G (PublicKey kp) l' w' (log @ [evt])"
      using appended(8) landed [of evt] unfolding represents_def by (metis append_assoc)
    have "l_sealErr l' = None" using appended(9) True by simp
    then show ?thesis using rp represents_holds [OF rp] appended(1,9) pt by (intro exI [of _ "[evt]"]) (simp add: sys_inv_def)
  qed
qed

lemma seal_extends:
  assumes inv: "sys_inv P G pub path (Some l, w) log" and sl: "Seal P G head l w = ((r, l'), w')"
  shows "sys_inv P G pub path (Some l', w') log"
proof (cases "l_frozenReason l = None \<and> l_dirLock l \<and> l_sealErr l = None")
  case False
  then have "l' = l \<and> w' = w" using sl by (auto simp: Seal_def split: if_splits option.splits)
  then show ?thesis using inv by simp
next
  case True
  then have rp: "represents P G pub l w log" and pt: "l_path l = path" using inv by (simp_all add: sys_inv_def)
  note so = seal_outcome [OF rp sl, unfolded sealed_outcome_def]
  have h: "holds P G pub path w' log" using so unfolding holds_def pt by blast
  show ?thesis
  proof (cases r)
    case (Inl e)
    then show ?thesis using so h pt True by (auto simp: sys_inv_def pending_def)
  next
    case (Inr x)
    then show ?thesis using so h pt True by (simp add: sys_inv_def)
  qed
qed

lemma recover_extends:
  assumes "gzip_laws G" and inv: "sys_inv P G pub path (Some l, w) log" and rc: "RecoverSeal P G key VH hs l w = (((err, l'), hs'), w')"
  shows "sys_inv P G pub path (Some l', w') log"
proof (cases "l_frozenReason l = None \<and> l_dirLock l \<and> l_sealErr l \<noteq> None")
  case False
  then have "l' = l \<and> w' = w" using rc by (auto simp: RecoverSeal_def split: if_splits option.splits)
  then show ?thesis using inv by simp
next
  case True
  then have pd: "pending P G pub l w log" and pt: "l_path l = path" using inv by (auto simp: sys_inv_def)
  note ro = RecoverSeal_outcome [OF assms(1) pd rc]
  show ?thesis
  proof (cases err)
    case None
    then show ?thesis using ro pt represents_holds [of P G pub l' w' log] by (simp add: sys_inv_def)
  next
    case (Some e)
    then have "pending P G pub l' w' log" using ro(3) by simp
    moreover have "l_sealErr l' \<noteq> None" using calculation by (simp add: pending_def)
    ultimately show ?thesis using ro(1) pt pending_holds [of P G pub l' w' log] by (auto simp: sys_inv_def)
  qed
qed

lemma reopen_extends:
  assumes "gzip_laws G" "holds P G pub path w log" "OpenVerified P G path key VH hs visit v check w = ((r, st), w')"
  shows "sys_inv P G pub path (case r of Inl _ \<Rightarrow> None | Inr l \<Rightarrow> Some l, w') log"
proof -
  obtain segs ess ov es torn where d: "disk P G pub path w segs ess ov es torn" "map committed (concat ess @ es) = map committed log"
    using assms(2) unfolding holds_def by blast
  note e = openVerified_effect [OF assms(1) d(1) assms(3) [unfolded OpenVerified_def]]
  have h: "holds P G pub path w' log" using e(1) d(2) unfolding holds_def by blast
  show ?thesis
  proof (cases r)
    case (Inl x)
    then show ?thesis using h by (simp add: sys_inv_def)
  next
    case (Inr l)
    then have i: "ledger_inv P G pub l w' segs ess es" "reopened path l" using e(2) by blast+
    then have "represents P G pub l w' log" using d(2) unfolding represents_def by metis
    then show ?thesis using h Inr i(2) by (simp add: sys_inv_def reopened_def)
  qed
qed

lemma SetFrozen_fields: "l_path (SetFrozen reason l) = l_path l" "SetFrozen reason l = l \<or> l_frozenReason (SetFrozen reason l) \<noteq> None"
  by (auto simp: SetFrozen_def)

definition sound_system :: "'sk prims \<Rightarrow> gz \<Rightarrow> 'sk KeyPair \<Rightarrow> bytes \<Rightarrow> system \<Rightarrow> Event list \<Rightarrow> bool" where
  "sound_system P G kp path s log \<longleftrightarrow> gzip_laws G \<and> mldsa_laws P \<and> signer P kp \<and> sys_inv P G (PublicKey kp) path s log"

lemma ledger_step_extends:
  assumes "sound_system P G kp path s log" "ledger_step P G kp path VH visit s acks s'"
  shows "\<exists>new. sound_system P G kp path s' (log @ new) \<and> subseq acks new"
proof -
  have a: "gzip_laws G" "mldsa_laws P" "signer P kp" "sys_inv P G (PublicKey kp) path s log" using assms(1) by (simp_all add: sound_system_def)
  have same: ?thesis if "sys_inv P G (PublicKey kp) path s' log" "acks = []"
    using a that by (intro exI [of _ "[]"]) (simp add: sound_system_def)
  show ?thesis
    using assms(2)
  proof cases
    case (append eventType ring raw l w r l' w')
    have "sys_inv P G (PublicKey kp) path (Some l, w) log" using a(4) append(1) by simp
    from append_extends [OF this a(2,3) append(5-7,4)] show ?thesis using a append(2,3) by (auto simp: sound_system_def)
  next
    case (seal head l w q l' w')
    then show ?thesis using seal_extends a(4) same by blast
  next
    case (recover hs l w err l' hs' w')
    then show ?thesis using recover_extends [OF a(1)] a(4) same by blast
  next
    case (freeze l w reason)
    then show ?thesis using a(4) SetFrozen_fields [of reason l] sys_inv_frozen [of P G "PublicKey kp" path l w log "SetFrozen reason l" w] same
      by auto
  next
    case (close l w err l' w')
    have "holds P G (PublicKey kp) path w log" using a(4) close(1) by (simp add: sys_inv_def)
    from holds_same [OF this Close_same [OF close(4)]] show ?thesis using same close(2,3) by (simp add: sys_inv_def)
  next
    case (crash l w)
    then show ?thesis using a(4) same by (auto simp: sys_inv_def)
  next
    case (reopen hs v check w res st w')
    have "holds P G (PublicKey kp) path w log" using a(4) reopen(1) by (simp add: sys_inv_def)
    from reopen_extends [OF a(1) this reopen(4)] show ?thesis using same reopen(2,3) by simp
  next
    case (environment s0 w)
    then show ?thesis using a(4) same sys_inv_same [of P G "PublicKey kp" path s0 w log "snd s'"] by auto
  qed
qed

interpretation ledger_runs: durable "sound_system P G kp path" "ledger_step P G kp path VH visit"
  using ledger_step_extends by unfold_locales

subsection \<open>Properties\<close>


subsection \<open>Examples\<close>

lemma length_first_instant: "length (FormatRFC3339Nano 0) = 20"
proof -
  have "year_day 0 = (1, 0)" "month_day 1 1 0 = (1, 1)" by (simp_all add: year_day_def month_day.simps days_in_def)
  then show ?thesis using length_pad0 [of 1 4] by (simp add: FormatRFC3339Nano_def Let_def pad0_2 format_fraction_def)
qed

lemma demo_line_short:
  assumes "signed_line demo_prims demo_keypair EventExperienceCreate 3 ''{}'' head_ledger 0 line"
  shows "length line < 6000"
proof -
  obtain sigB64 evt where e: "evt = (next_event demo_prims EventExperienceCreate 3 ''{}'' (FormatRFC3339Nano 0) head_ledger)\<lparr>Sig := sigB64\<rparr>"
    "SignB64 demo_prims demo_keypair (SignatureInputGold SigAlg (Fingerprint demo_prims demo_keypair) (EntryHash demo_prims evt)) = Inr sigB64"
    "MarshalJSON evt = Inr line" using assms by (auto simp: signed_line_def)
  have f: "Seq evt = 2" "Prev evt = EntryHash demo_prims head_record" "Timestamp evt = FormatRFC3339Nano 0" "Type evt = EventExperienceCreate"
    "Ring evt = 3" "Content evt = ContentHash demo_prims ''{}''" "Payload evt = ''{}''" "Sig evt = sigB64"
    by (simp_all add: e(1) next_event_def Let_def head_ledger_def)
  have h: "length (sha256 demo_prims s) = 32" for s by (simp add: demo_prims_def)
  have "PrivateKey demo_keypair = Some 7" "mldsa_Sign demo_prims 7 m = Some (FormatUint 7 @ m)" for m
    by (simp_all add: demo_keypair_def demo_prims_def)
  then have "sigB64 = b64_encode (FormatUint 7 @ SignatureInputGold SigAlg (Fingerprint demo_prims demo_keypair) (EntryHash demo_prims evt))"
    using e(2) by (simp add: SignB64_def Sign_def del: b64_encode.simps)
  moreover have "length (FormatUint 7 @ SignatureInputGold SigAlg (Fingerprint demo_prims demo_keypair) (EntryHash demo_prims evt)) < 1000"
    using h by (simp add: FormatUint_def format_nat_small) (simp add: SignatureInputGold_def length_hex Fingerprint_def EntryHash_def entrySum_def SigAlg_def
        goldSignatureTag_def goldArtifactKind_def goldCanonicalization_def goldSuiteID_def goldRoleIdentity_def)
  ultimately have "list_all plain_char sigB64" "length sigB64 < 4 * 1000"
    using b64_plain order.strict_trans1 [OF length_b64_encode mult_strict_left_mono] by (simp_all only: zero_less_numeral)
  then have s: "length (jsonString sigB64) < 4002" using length_jsonString by simp
  have "length (jsonString (ContentHash demo_prims ''{}'')) = 66" "length (jsonString (EntryHash demo_prims head_record)) = 66"
    using h length_jsonString [OF hex_plain] by (simp_all only: length_hex ContentHash_def EntryHash_def entrySum_def)
  then show ?thesis
    using e(3) s f length_jsonString [OF format_plain [of 0]] length_first_instant
    by (auto simp: MarshalJSON_def EntryBytes_def json_key_def length_jsonString format_int_def FormatUint_def format_nat_small
        plain_char_def EventExperienceCreate_def)
qed

text \<open>One append to the ledger of one record, then the end of the program.\<close>

lemma demo_append:
  "\<exists>evt l' w'. AppendPrepared demo_prims EventExperienceCreate 3 ''{}'' demo_keypair head_ledger head_world = ((Inr evt, l'), w')
     \<and> plan w' = [] \<and> l_path l' = l_path head_ledger \<and> ledger_inv demo_prims demo_gz ''P7'' l' w' [] [] [head_record, evt]"
proof -
  have pk: "PublicKey demo_keypair = ''P7''" by (simp add: demo_keypair_def)
  have h: "plan head_world = []" "l_frozenReason head_ledger = None" "l_dirLock head_ledger" "l_sealErr head_ledger = None"
    "PrivateKey demo_keypair = Some 7" "\<And>m. mldsa_Sign demo_prims 7 m \<noteq> None"
    by (simp_all add: head_world_def head_ledger_def demo_ledger_def new_ledger_def demo_keypair_def demo_prims_def)
  obtain evt line l' w' where a: "MarshalJSON evt = Inr line" "plan w' = []"
    "signed_line demo_prims demo_keypair EventExperienceCreate 3 ''{}'' head_ledger (clock head_world) line"
    "AppendPrepared demo_prims EventExperienceCreate 3 ''{}'' demo_keypair head_ledger head_world =
       ((if length line \<le> MaxEventLineBytes then Inr evt else Inl ErrEventTooLarge, l'), w')"
    using AppendPrepared_quiet [OF head_represents [folded pk] h(1-4) demo_payload(1) _ h(5,6), of EventExperienceCreate 3] by blast
  have "length line < 6000" using demo_line_short a(3) by (simp add: head_world_def)
  then have n: "length line < MaxEventLineBytes" by (simp add: MaxEventLineBytes_def)
  then have r: "AppendPrepared demo_prims EventExperienceCreate 3 ''{}'' demo_keypair head_ledger head_world = ((Inr evt, l'), w')" using a(4) by simp
  have "ledger_inv demo_prims demo_gz (PublicKey demo_keypair) head_ledger head_world [] [] [head_record]"
    "length (concat [] @ [head_record]) + 1 < (2::nat) ^ 64" using head_inv pk by simp_all
  from this(1) demo_laws demo_signer demo_appendable this(2) r
  have "l_path l' = l_path head_ledger \<and> ledger_inv demo_prims demo_gz ''P7'' l' w' [] [] [head_record, evt]"
  proof (cases rule: append_outcome)
    case (appended evt' line')
    then show ?thesis using a(1) n pk by simp
  qed simp_all
  then show ?thesis using r a(2) by blast
qed

lemma in_tail_hash: "EntryHash P (in_tail path e) = EntryHash P e"
  by (rule conjunct2 [OF committed_hash]) (simp add: in_tail_def committed_def)

lemma in_tail_fields: "Seq (in_tail path e) = Seq e" "Prev (in_tail path e) = Prev e" "Content (in_tail path e) = Content e"
    "Payload (in_tail path e) = Payload e"
  by (simp_all add: in_tail_def)

lemma linked_in_tail: "linked P prev n es \<Longrightarrow> linked P prev n (map (in_tail path) es)"
  by (induction es arbitrary: prev n) (simp_all add: in_tail_fields in_tail_hash)

lemma tail_accepted:
  assumes "ledger_inv P G pub l w [] [] es"
  shows "fst (verifyChain P pub VH None None v (delivered path [] [] es, None)) = Inr (length (concat [] @ es))"
proof -
  obtain ls where ls: "list_all2 written es ls" using assms by (auto simp: ledger_inv_def)
  have i: "linked P [] 0 es" "list_all (\<lambda>e. verifyEventSignature P e pub = None) es" using assms by (simp_all add: ledger_inv_def)
  have "proof_ok P pub False (in_tail path e)" if "e \<in> set es" for e
  proof -
    have "\<exists>line. written e line" using ls that by (induction rule: list_all2_induct) auto
    then have "\<not> sealed e" by (auto simp: written_def)
    moreover have "verifyEventSignature P e pub = None" using i(2) that by (simp add: list_all_iff)
    moreover have "Sig e \<noteq> []" using calculation(2) by (auto simp: verifyEventSignature_def)
    ultimately show ?thesis using in_tail_signature [of P path e] by (simp add: proof_ok_def) (simp add: in_tail_def)
  qed
  then have "list_all (proof_ok P pub False) (map (in_tail path) es)" by (simp add: list_all_iff)
  moreover have "linked P [] 0 (map (in_tail path) es)" by (rule linked_in_tail [OF i(1)])
  ultimately show ?thesis unfolding verifyChain_plain_iff by (simp add: delivered_def)
qed


end
