(* ===== verification/Transitions.thy ===== *)
theory Transitions
  imports Prelude
begin

text \<open>
  Components whose methods interleave are step relations on a state; this is the interface their proofs
  share. The provider shows that its invariant holds at the start and is kept by every step; the client
  gets it for every reachable state, and can carry further facts along a run.
\<close>

locale transition_invariant =
  fixes start :: 's and step :: "'s \<Rightarrow> 's \<Rightarrow> bool" and inv :: "'s \<Rightarrow> bool"
  assumes inv_start: "inv start" and inv_step: "step s s' \<Longrightarrow> inv s \<Longrightarrow> inv s'"
begin

lemma onward: "step\<^sup>*\<^sup>* s s' \<Longrightarrow> inv s \<Longrightarrow> inv s'"
  by (induction rule: rtranclp_induct) (auto intro: inv_step)

lemma reachable: "step\<^sup>*\<^sup>* start s \<Longrightarrow> inv s"
  using onward inv_start by blast

lemma stable:
  assumes "step\<^sup>*\<^sup>* s s'" "inv s" "Q s" "\<And>t t'. inv t \<Longrightarrow> step t t' \<Longrightarrow> Q t \<Longrightarrow> Q t'"
  shows "Q s'"
  using assms(1)
proof (induction rule: rtranclp_induct)
  case (step t t')
  then show ?case using onward [OF step.hyps(1) assms(2)] assms(4) by blast
qed (rule assms(3))

end

end
