(* ===== verification/Ring_Manager.thy ===== *)
theory Ring_Manager
  imports Crypto Transitions
begin

text \<open>
  \<open>internal/ring\<close>: the rings of an identity's prompt and the \<open>Manager\<close> that holds them. The manager and its
  callers share contents by pointer, so the contents live in an explicit store; a pointer is an address,
  \<open>None\<close> is nil. The main result is that Ring 0 is installed once, against a signature, and that nothing
  a caller may do changes it afterwards.
\<close>

subsection \<open>Rings\<close>

type_synonym RingLevel = int

definition Ring0 :: RingLevel where "Ring0 = 0"
definition Ring1 :: RingLevel where "Ring1 = 1"
definition Ring2 :: RingLevel where "Ring2 = 2"
definition Ring3 :: RingLevel where "Ring3 = 3"
definition Ring4 :: RingLevel where "Ring4 = 4"
definition Ring5 :: RingLevel where "Ring5 = 5"

lemmas ring_levels = Ring0_def Ring1_def Ring2_def Ring3_def Ring4_def Ring5_def

definition RingLevel_String :: "RingLevel \<Rightarrow> bytes" where
  "RingLevel_String r =
    (if r = Ring0 then ''Ring 0 (Constitution)'' else if r = Ring1 then ''Ring 1 (Charter)''
     else if r = Ring2 then ''Ring 2 (Identity)'' else if r = Ring3 then ''Ring 3 (Working Truth)''
     else if r = Ring4 then ''Ring 4 (Working State)'' else if r = Ring5 then ''Ring 5 (Firewall)''
     else ''Ring '' @ format_int r @ '' (Unknown)'')"

record RingContent =
  rc_Level :: RingLevel
  rc_Content :: bytes
  rc_SignedBy :: bytes
  rc_Signature :: bytes
  rc_SigAlg :: bytes
  rc_Updated :: bytes
  rc_SourceSeq :: uint64

definition IsEphemeral :: "RingLevel \<Rightarrow> bool" where "IsEphemeral r \<longleftrightarrow> r = Ring4"

definition IsImmutable :: "RingLevel \<Rightarrow> bool" where "IsImmutable r \<longleftrightarrow> r = Ring0"

datatype ring_err = NotIdentityAuthored | NeverMinted | PlatformOwned | UnknownRing int
  | UnsupportedSignatureAlgorithm bytes | SignatureNotBase64 | SignatureRefused crypto_err
  | ErrRing0Immutable | NoConstitution | NoIdentityKey | AttestationRefused ring_err

definition CheckGate :: "RingLevel \<Rightarrow> ring_err option" where
  "CheckGate target =
    (if target = Ring0 then Some NotIdentityAuthored else if target = Ring4 then Some NeverMinted
     else if target = Ring5 then Some PlatformOwned else if target \<in> {Ring1, Ring2, Ring3} then None
     else Some (UnknownRing target))"

definition VerifySignature :: "'sk prims \<Rightarrow> RingContent \<Rightarrow> bytes \<Rightarrow> ring_err option" where
  "VerifySignature P rc pubKeyBytes =
    (if rc_SigAlg rc \<noteq> SigAlg then Some (UnsupportedSignatureAlgorithm (rc_SigAlg rc))
     else (case b64_decode (rc_Signature rc) of None \<Rightarrow> Some SignatureNotBase64
       | Some sig \<Rightarrow> map_option SignatureRefused (Verify P pubKeyBytes (rc_Content rc) sig)))"

subsection \<open>The store of contents\<close>

type_synonym addr = nat

record ring_heap =
  cell :: "addr \<Rightarrow> RingContent"
  unused :: addr

definition new_content :: "RingContent \<Rightarrow> ring_heap \<Rightarrow> addr \<times> ring_heap" where
  "new_content rc h = (unused h, h\<lparr>cell := (cell h)(unused h := rc), unused := Suc (unused h)\<rparr>)"

subsection \<open>The manager\<close>

record Section =
  sec_Name :: bytes
  sec_Content :: bytes

record Manager =
  m_rings :: "RingLevel \<Rightarrow> addr option"
  m_sections :: "RingLevel \<Rightarrow> Section list"
  m_brief :: bytes
  m_briefWritten :: int
  m_ring0Sealed :: bool
  m_ring0Constitution :: bool

definition NewManager :: Manager where
  "NewManager = \<lparr>m_rings = (\<lambda>_. None), m_sections = (\<lambda>_. []), m_brief = [], m_briefWritten = 0,
     m_ring0Sealed = False, m_ring0Constitution = False\<rparr>"

fun set_section :: "bytes \<Rightarrow> bytes \<Rightarrow> Section list \<Rightarrow> Section list" where
  "set_section name content [] = [\<lparr>sec_Name = name, sec_Content = content\<rparr>]"
| "set_section name content (sec # list) =
    (if sec_Name sec = name then sec\<lparr>sec_Content := content\<rparr> # list else sec # set_section name content list)"

definition SetSection :: "RingLevel \<Rightarrow> bytes \<Rightarrow> bytes \<Rightarrow> Manager \<Rightarrow> ring_err option \<times> Manager" where
  "SetSection level name content m =
    (if level = Ring0 then (Some ErrRing0Immutable, m)
     else (None, m\<lparr>m_sections := (m_sections m)(level := set_section name content (m_sections m level))\<rparr>))"

definition Manager_Section :: "RingLevel \<Rightarrow> bytes \<Rightarrow> Manager \<Rightarrow> bytes" where
  "Manager_Section level name m = (case find (\<lambda>s. sec_Name s = name) (m_sections m level) of None \<Rightarrow> [] | Some s \<Rightarrow> sec_Content s)"

definition Manager_Sections :: "RingLevel \<Rightarrow> Manager \<Rightarrow> Section list" where
  "Manager_Sections level m = m_sections m level"

definition Manager_Set :: "RingLevel \<Rightarrow> addr option \<Rightarrow> Manager \<Rightarrow> ring_err option \<times> Manager" where
  "Manager_Set level rc m = (if level = Ring0 then (Some ErrRing0Immutable, m) else (None, m\<lparr>m_rings := (m_rings m)(level := rc)\<rparr>))"

text \<open>\<open>compose\<close> runs under the lock of the manager; it may make a new content.\<close>

definition SetFrom :: "RingLevel \<Rightarrow> (ring_heap \<Rightarrow> addr option \<times> ring_heap) \<Rightarrow> Manager \<Rightarrow> ring_heap \<Rightarrow> (ring_err option \<times> Manager) \<times> ring_heap" where
  "SetFrom level compose m h = (if level = Ring0 then ((Some ErrRing0Immutable, m), h)
     else (case compose h of (rc, h') \<Rightarrow> ((None, m\<lparr>m_rings := (m_rings m)(level := rc)\<rparr>), h')))"

definition SealConstitution ::
  "'sk prims \<Rightarrow> addr option \<Rightarrow> bytes \<Rightarrow> Manager \<Rightarrow> ring_heap \<Rightarrow> (ring_err option \<times> Manager) \<times> ring_heap" where
  "SealConstitution P rc identityPubKey m h = (case rc of None \<Rightarrow> ((Some NoConstitution, m), h)
    | Some a \<Rightarrow>
       if identityPubKey = [] then ((Some NoIdentityKey, m), h)
       else (case VerifySignature P (cell h a) identityPubKey of Some e \<Rightarrow> ((Some (AttestationRefused e), m), h)
         | None \<Rightarrow>
            if m_ring0Sealed m then ((Some ErrRing0Immutable, m), h)
            else (case new_content ((cell h a)\<lparr>rc_Level := Ring0\<rparr>) h of (s, h') \<Rightarrow>
              ((None, m\<lparr>m_rings := (m_rings m)(Ring0 := Some s), m_ring0Sealed := True, m_ring0Constitution := True\<rparr>), h'))))"

definition SealSafePosture :: "bytes \<Rightarrow> Manager \<Rightarrow> ring_heap \<Rightarrow> (ring_err option \<times> Manager) \<times> ring_heap" where
  "SealSafePosture content m h =
    (if m_ring0Sealed m then ((Some ErrRing0Immutable, m), h)
     else (case new_content \<lparr>rc_Level = Ring0, rc_Content = content, rc_SignedBy = [], rc_Signature = [], rc_SigAlg = [],
             rc_Updated = [], rc_SourceSeq = 0\<rparr> h of (s, h') \<Rightarrow>
           ((None, m\<lparr>m_rings := (m_rings m)(Ring0 := Some s), m_ring0Sealed := True, m_ring0Constitution := False\<rparr>), h')))"

definition Ring0IsConstitution :: "Manager \<Rightarrow> bool" where
  "Ring0IsConstitution m \<longleftrightarrow> m_ring0Sealed m \<and> m_ring0Constitution m"

definition Manager_Get :: "RingLevel \<Rightarrow> Manager \<Rightarrow> addr option" where
  "Manager_Get level m = m_rings m level"

definition GetContent :: "RingLevel \<Rightarrow> Manager \<Rightarrow> ring_heap \<Rightarrow> bytes" where
  "GetContent level m h = (case m_rings m level of None \<Rightarrow> [] | Some a \<Rightarrow> rc_Content (cell h a))"

definition RestoreBrief :: "bytes \<Rightarrow> int \<Rightarrow> Manager \<Rightarrow> Manager" where
  "RestoreBrief content written m = m\<lparr>m_brief := content, m_briefWritten := written\<rparr>"

definition SetBrief :: "bytes \<Rightarrow> int \<Rightarrow> Manager \<Rightarrow> Manager" where
  "SetBrief content now m = RestoreBrief content now m"

definition Manager_Brief :: "Manager \<Rightarrow> bytes \<times> int" where
  "Manager_Brief m = (m_brief m, m_briefWritten m)"

definition GetBrief :: "Manager \<Rightarrow> bytes" where
  "GetBrief m = fst (Manager_Brief m)"

definition AllContent :: "Manager \<Rightarrow> addr list" where
  "AllContent m = List.map_filter (m_rings m) [Ring0, Ring1, Ring2, Ring3, Ring4, Ring5]"

subsection \<open>Sections are a map from names to texts\<close>

lemma Manager_Section_set:
  assumes "SetSection level name content m = (None, m')"
  shows "Manager_Section l n m' = (if l = level \<and> n = name then content else Manager_Section l n m)"
proof -
  have f: "(case find (\<lambda>s. sec_Name s = n) (set_section name content list) of None \<Rightarrow> [] | Some s \<Rightarrow> sec_Content s)
      = (if n = name then content else case find (\<lambda>s. sec_Name s = n) list of None \<Rightarrow> [] | Some s \<Rightarrow> sec_Content s)" for list
    by (induction list) auto
  show ?thesis using assms f by (auto simp: SetSection_def Manager_Section_def split: if_splits)
qed

subsection \<open>What callers may do\<close>

text \<open>
  A caller makes contents, writes to the contents it has made, and calls the methods of the manager with
  any pointers. It does not write through the pointers that \<open>Get\<close> and \<open>AllContent\<close> return.
\<close>

record ring_sys =
  manager :: Manager
  heap :: ring_heap
  made :: "addr set"

inductive ring_step :: "'sk prims \<Rightarrow> ring_sys \<Rightarrow> ring_sys \<Rightarrow> bool" for P where
  caller_make: "new_content rc (heap s) = (a, h) \<Longrightarrow> ring_step P s (s\<lparr>heap := h, made := insert a (made s)\<rparr>)"
| caller_write: "a \<in> made s \<Longrightarrow> ring_step P s (s\<lparr>heap := (heap s)\<lparr>cell := (cell (heap s))(a := rc)\<rparr>\<rparr>)"
| set_section: "SetSection level name content (manager s) = (e, m) \<Longrightarrow> ring_step P s (s\<lparr>manager := m\<rparr>)"
| set: "Manager_Set level rc (manager s) = (e, m) \<Longrightarrow> ring_step P s (s\<lparr>manager := m\<rparr>)"
| set_from: "SetFrom level (\<lambda>h. if fresh then map_prod Some id (new_content rc h) else (p, h)) (manager s) (heap s) = ((e, m), h)
     \<Longrightarrow> ring_step P s (s\<lparr>manager := m, heap := h, made := (if fresh \<and> level \<noteq> Ring0 then insert (unused (heap s)) (made s) else made s)\<rparr>)"
| constitution: "SealConstitution P rc key (manager s) (heap s) = ((e, m), h) \<Longrightarrow> ring_step P s (s\<lparr>manager := m, heap := h\<rparr>)"
| safe_posture: "SealSafePosture content (manager s) (heap s) = ((e, m), h) \<Longrightarrow> ring_step P s (s\<lparr>manager := m, heap := h\<rparr>)"
| brief: "ring_step P s (s\<lparr>manager := RestoreBrief content t (manager s)\<rparr>)"

inductive_cases ring_stepE: "ring_step P s s'"

definition blank_content :: RingContent where
  "blank_content = \<lparr>rc_Level = Ring0, rc_Content = [], rc_SignedBy = [], rc_Signature = [], rc_SigAlg = [], rc_Updated = [], rc_SourceSeq = 0\<rparr>"

definition ring_start :: ring_sys where
  "ring_start = \<lparr>manager = NewManager, heap = \<lparr>cell = (\<lambda>_. blank_content), unused = 0\<rparr>, made = {}\<rparr>"

subsection \<open>Ring 0\<close>

definition ring0_inv :: "'sk prims \<Rightarrow> ring_sys \<Rightarrow> bool" where
  "ring0_inv P s \<longleftrightarrow> made s \<subseteq> {..<unused (heap s)} \<and> m_sections (manager s) Ring0 = []
     \<and> (case m_rings (manager s) Ring0 of
          None \<Rightarrow> \<not> m_ring0Sealed (manager s)
        | Some a \<Rightarrow> m_ring0Sealed (manager s) \<and> a < unused (heap s) \<and> a \<notin> made s
           \<and> (m_ring0Constitution (manager s) \<longrightarrow>
               (\<exists>key. key \<noteq> [] \<and> VerifySignature P (cell (heap s) a) key = None)))"

text \<open>The Ring 0 of a manager: where it is, what it says and what it is called.\<close>

definition ring0_view :: "ring_sys \<Rightarrow> addr option \<times> RingContent option \<times> bool \<times> bool" where
  "ring0_view s = (m_rings (manager s) Ring0, map_option (cell (heap s)) (m_rings (manager s) Ring0),
     m_ring0Sealed (manager s), m_ring0Constitution (manager s))"

lemma VerifySignature_level: "VerifySignature P (rc\<lparr>rc_Level := l\<rparr>) key = VerifySignature P rc key"
  by (simp add: VerifySignature_def cong: option.case_cong)

lemma ring0_inv_start: "ring0_inv P ring_start"
  by (simp add: ring0_inv_def ring_start_def NewManager_def)

text \<open>A step that writes to cells the manager does not own and leaves the Ring 0 of the manager alone.\<close>

lemma ring0_untouched:
  assumes "ring0_inv P s" "m_rings m Ring0 = m_rings (manager s) Ring0" "m_sections m Ring0 = []"
    "m_ring0Sealed m = m_ring0Sealed (manager s)" "m_ring0Constitution m = m_ring0Constitution (manager s)"
    "unused (heap s) \<le> unused h" "\<And>a. a < unused (heap s) \<Longrightarrow> a \<notin> made s \<Longrightarrow> cell h a = cell (heap s) a"
    "M \<subseteq> {..<unused h}" "M \<inter> {..<unused (heap s)} \<subseteq> made s"
  shows "ring0_inv P \<lparr>manager = m, heap = h, made = M\<rparr> \<and> (sealed0 \<longrightarrow> ring0_view \<lparr>manager = m, heap = h, made = M\<rparr> = ring0_view s)"
proof -
  have "cell h a = cell (heap s) a \<and> a < unused h \<and> a \<notin> M" if "m_rings (manager s) Ring0 = Some a" for a
    using assms(1,6-9) that by (auto simp: ring0_inv_def)
  then show ?thesis
    using assms(1-5,8) by (auto simp: ring0_inv_def ring0_view_def split: option.splits)
qed

lemma ring0_installed:
  assumes "ring0_inv P s" "new_content rc (heap s) = (a, h)" "m_sections m Ring0 = []" "m_rings m Ring0 = Some a" "m_ring0Sealed m"
    "m_ring0Constitution m \<Longrightarrow> \<exists>key. key \<noteq> [] \<and> VerifySignature P rc key = None"
  shows "ring0_inv P \<lparr>manager = m, heap = h, made = made s\<rparr>"
  using assms by (auto simp: ring0_inv_def new_content_def)

lemma SealConstitution_cases:
  assumes "SealConstitution P rc key m h = ((e, m'), h')"
  obtains "m' = m" "h' = h" | a s where "rc = Some a" "key \<noteq> []" "VerifySignature P (cell h a) key = None" "\<not> m_ring0Sealed m"
    "new_content ((cell h a)\<lparr>rc_Level := Ring0\<rparr>) h = (s, h')"
    "m' = m\<lparr>m_rings := (m_rings m)(Ring0 := Some s), m_ring0Sealed := True, m_ring0Constitution := True\<rparr>"
proof (cases "\<exists>a. rc = Some a \<and> key \<noteq> [] \<and> VerifySignature P (cell h a) key = None \<and> \<not> m_ring0Sealed m")
  case True
  then obtain a where a: "rc = Some a" "key \<noteq> []" "VerifySignature P (cell h a) key = None" "\<not> m_ring0Sealed m" by blast
  obtain t h2 where t: "new_content ((cell h a)\<lparr>rc_Level := Ring0\<rparr>) h = (t, h2)" by fastforce
  then show thesis using that(2) [OF a] assms a by (simp add: SealConstitution_def)
next
  case False
  then have "m' = m \<and> h' = h" using assms by (simp add: SealConstitution_def split: option.splits if_splits)
  then show thesis using that(1) by simp
qed

lemma SealSafePosture_cases:
  assumes "SealSafePosture content m h = ((e, m'), h')"
  obtains "m' = m" "h' = h" | rc s where "\<not> m_ring0Sealed m" "new_content rc h = (s, h')"
    "m' = m\<lparr>m_rings := (m_rings m)(Ring0 := Some s), m_ring0Sealed := True, m_ring0Constitution := False\<rparr>"
  using assms by (auto simp: SealSafePosture_def split: if_splits prod.splits)

lemma ring_step_inv:
  assumes "ring_step P s s'" "ring0_inv P s"
  shows "ring0_inv P s' \<and> (m_ring0Sealed (manager s) \<longrightarrow> ring0_view s' = ring0_view s)"
proof -
  have i: "made s \<subseteq> {..<unused (heap s)}" "m_sections (manager s) Ring0 = []" using assms(2) by (auto simp: ring0_inv_def)
  show ?thesis
  using assms(1)
proof cases
  case (caller_make rc a h)
  have e: "s' = \<lparr>manager = manager s, heap = h, made = insert a (made s)\<rparr>" using caller_make(1) by simp
  show ?thesis unfolding e
    by (rule ring0_untouched [OF assms(2)]) (use i caller_make(2) in \<open>auto simp: new_content_def\<close>)
next
  case (caller_write a rc)
  have e: "s' = \<lparr>manager = manager s, heap = (heap s)\<lparr>cell := (cell (heap s))(a := rc)\<rparr>, made = made s\<rparr>" using caller_write(1) by simp
  show ?thesis unfolding e
    by (rule ring0_untouched [OF assms(2)]) (use i caller_write(2) in auto)
next
  case (set_section level name content e m)
  have e: "s' = \<lparr>manager = m, heap = heap s, made = made s\<rparr>" using set_section(1) by simp
  show ?thesis unfolding e
    by (rule ring0_untouched [OF assms(2)]) (use i set_section(2) in \<open>auto simp: SetSection_def split: if_splits\<close>)
next
  case (set level rc e m)
  have e: "s' = \<lparr>manager = m, heap = heap s, made = made s\<rparr>" using set(1) by simp
  show ?thesis unfolding e
    by (rule ring0_untouched [OF assms(2)]) (use i set(2) in \<open>auto simp: Manager_Set_def split: if_splits\<close>)
next
  case (brief content t)
  have e: "s' = \<lparr>manager = RestoreBrief content t (manager s), heap = heap s, made = made s\<rparr>" using brief(1) by simp
  show ?thesis unfolding e
    by (rule ring0_untouched [OF assms(2)]) (use i in \<open>auto simp: RestoreBrief_def\<close>)
next
  case (set_from level fresh rc p e m h)
  have e: "s' = \<lparr>manager = m, heap = h, made = (if fresh \<and> level \<noteq> Ring0 then insert (unused (heap s)) (made s) else made s)\<rparr>" using set_from(1) by simp
  show ?thesis unfolding e
    by (rule ring0_untouched [OF assms(2)])
      (use i set_from(2) in \<open>auto simp: SetFrom_def new_content_def less_Suc_eq split: if_splits\<close>)
next
  case (constitution rc key e m h)
  from constitution(2) show ?thesis
  proof (cases rule: SealConstitution_cases)
    case 1
    then show ?thesis using assms(2) constitution(1) by simp
  next
    case (2 a t)
    have "m_sections m Ring0 = []" using assms(2) 2(6) by (simp add: ring0_inv_def)
    moreover have "s' = \<lparr>manager = m, heap = h, made = made s\<rparr>" using constitution(1) by simp
    ultimately show ?thesis
      using ring0_installed [OF assms(2) 2(5), of m] 2(2-4,6) VerifySignature_level [of P Ring0 "cell (heap s) a" key] by fastforce
  qed
next
  case (safe_posture content e m h)
  from safe_posture(2) show ?thesis
  proof (cases rule: SealSafePosture_cases)
    case 1
    then show ?thesis using assms(2) safe_posture(1) by simp
  next
    case (2 rc t)
    have "m_sections m Ring0 = []" using assms(2) 2(3) by (simp add: ring0_inv_def)
    moreover have "s' = \<lparr>manager = m, heap = h, made = made s\<rparr>" using safe_posture(1) by simp
    ultimately show ?thesis
      using ring0_installed [OF assms(2) 2(2), of m] 2(1,3) by simp
  qed
  qed
qed

interpretation ring_runs: transition_invariant ring_start "ring_step P" "ring0_inv P"
  by unfold_locales (rule ring0_inv_start, simp add: ring_step_inv)

lemma ring_steps_view:
  assumes "(ring_step P)\<^sup>*\<^sup>* s s'" "ring0_inv P s" "m_ring0Sealed (manager s)"
  shows "ring0_view s' = ring0_view s"
proof (rule ring_runs.stable [OF assms(1,2) refl])
  fix t t'
  assume t: "ring0_inv P t" "ring_step P t t'" "ring0_view t = ring0_view s"
  then have "m_ring0Sealed (manager t)" using assms(3) by (simp add: ring0_view_def)
  then show "ring0_view t' = ring0_view s" using ring_step_inv [OF t(2,1)] t(3) by simp
qed

subsection \<open>Properties\<close>

text \<open>
  C8. Ring 0 is installed once and never changes. In every state the callers can bring the manager to,
  Ring 0 has no sections, and once something has been installed there, no further calls and no writes of
  the callers to the contents they made change it: the same bytes, under the same title of constitution
  or safe posture. Where it has the title of constitution, its signature verifies over its content under a
  key that is not empty.
\<close>

theorem ring0_installed_once:
  assumes "(ring_step P)\<^sup>*\<^sup>* ring_start s" "(ring_step P)\<^sup>*\<^sup>* s s'"
  shows "Manager_Sections Ring0 (manager s') = []
    \<and> (m_ring0Sealed (manager s) \<longrightarrow> GetContent Ring0 (manager s') (heap s') = GetContent Ring0 (manager s) (heap s)
         \<and> Manager_Get Ring0 (manager s') = Manager_Get Ring0 (manager s)
         \<and> Ring0IsConstitution (manager s') = Ring0IsConstitution (manager s))
    \<and> (Ring0IsConstitution (manager s') \<longrightarrow>
         (\<exists>a key. Manager_Get Ring0 (manager s') = Some a \<and> key \<noteq> [] \<and> VerifySignature P (cell (heap s') a) key = None))"
proof -
  have i: "ring0_inv P s" by (rule ring_runs.reachable [OF assms(1)])
  have t: "ring0_inv P s' \<and> (m_ring0Sealed (manager s) \<longrightarrow> ring0_view s' = ring0_view s)"
    using ring_runs.onward [OF assms(2) i] ring_steps_view [OF assms(2) i] by blast
  have "GetContent Ring0 (manager s') (heap s') = GetContent Ring0 (manager s) (heap s) \<and> Manager_Get Ring0 (manager s') = Manager_Get Ring0 (manager s)
      \<and> Ring0IsConstitution (manager s') = Ring0IsConstitution (manager s)" if "ring0_view s' = ring0_view s"
    using that by (auto simp: ring0_view_def GetContent_def Manager_Get_def Ring0IsConstitution_def split: option.splits)
  then show ?thesis
    using t by (auto simp: ring0_inv_def Manager_Sections_def Manager_Get_def Ring0IsConstitution_def split: option.splits)
qed

subsection \<open>Examples\<close>

text \<open>A signed constitution is installed, and the caller then overwrites its own copy.\<close>

definition demo_constitution :: RingContent where
  "demo_constitution = blank_content\<lparr>rc_Content := ''be honest'', rc_SigAlg := SigAlg, rc_Signature := b64_encode ''7be honest''\<rparr>"

lemma demo_constitution_signed: "VerifySignature demo_prims demo_constitution ''P7'' = None"
  by (simp add: VerifySignature_def demo_constitution_def Verify_def demo_prims_def del: b64_encode.simps)

theorem ring0_installed_once_witness:
  "\<exists>s s'. (ring_step demo_prims)\<^sup>*\<^sup>* ring_start s \<and> (ring_step demo_prims)\<^sup>*\<^sup>* s s' \<and> Ring0IsConstitution (manager s)
     \<and> GetContent Ring0 (manager s') (heap s') = ''be honest'' \<and> cell (heap s') 0 = blank_content"
proof -
  let ?h1 = "\<lparr>cell = (\<lambda>_. blank_content)(0 := demo_constitution), unused = 1\<rparr>"
  let ?s1 = "\<lparr>manager = NewManager, heap = ?h1, made = {0}\<rparr>"
  have "new_content demo_constitution (heap ring_start) = (0, ?h1)" by (simp add: new_content_def ring_start_def)
  from caller_make [of _ ring_start, OF this, of demo_prims] have r1: "ring_step demo_prims ring_start ?s1" by (simp add: ring_start_def)
  let ?m2 = "NewManager\<lparr>m_rings := (\<lambda>_. None)(Ring0 := Some 1), m_ring0Sealed := True, m_ring0Constitution := True\<rparr>"
  let ?h2 = "\<lparr>cell = (cell ?h1)(1 := demo_constitution\<lparr>rc_Level := Ring0\<rparr>), unused = 2\<rparr>"
  let ?s2 = "\<lparr>manager = ?m2, heap = ?h2, made = {0}\<rparr>"
  have "SealConstitution demo_prims (Some 0) ''P7'' (manager ?s1) (heap ?s1) = ((None, ?m2), ?h2)"
    using demo_constitution_signed by (simp add: SealConstitution_def new_content_def NewManager_def)
  from constitution [OF this] have r2: "ring_step demo_prims ?s1 ?s2" by simp
  have a: "(ring_step demo_prims)\<^sup>*\<^sup>* ring_start ?s2" by (rule rtranclp_trans [OF r_into_rtranclp [of "ring_step demo_prims", OF r1] r_into_rtranclp [of "ring_step demo_prims", OF r2]])
  let ?s3 = "\<lparr>manager = ?m2, heap = ?h2\<lparr>cell := (cell ?h2)(0 := blank_content)\<rparr>, made = {0}\<rparr>"
  have "ring_step demo_prims ?s2 ?s3" using caller_write [of 0 ?s2 demo_prims blank_content] by simp
  then have b: "(ring_step demo_prims)\<^sup>*\<^sup>* ?s2 ?s3" by simp
  have c: "Ring0IsConstitution ?m2" "GetContent Ring0 ?m2 ?h2 = ''be honest''"
    by (simp_all add: Ring0IsConstitution_def GetContent_def demo_constitution_def)
  have "GetContent Ring0 (manager ?s3) (heap ?s3) = GetContent Ring0 (manager ?s2) (heap ?s2)"
    using ring0_installed_once [OF a b] by simp
  then have "GetContent Ring0 (manager ?s3) (heap ?s3) = ''be honest''" "cell (heap ?s3) 0 = blank_content" using c(2) by simp_all
  then show ?thesis using a b c(1) by (intro exI [of _ ?s2] exI [of _ ?s3]) simp
qed

end
