(* ===== verification/Bbb_Frame.thy ===== *)
theory Bbb_Frame
  imports Crypto
begin

text \<open>
  \<open>internal/bbb\<close>: the frames of the stream between the host and a plugin worker, and the table of methods.
  A writer is what it has been given so far and which of the writes to come fail, and after how many
  bytes; a reader is the bytes that are still to come before the end of the stream.
\<close>

subsection \<open>Streams\<close>

datatype frame_err = LimitNotPositive int | ErrEmptyPayload | ErrFrameTooLarge | EndOfFile | ErrUnexpectedEOF | StreamWriteFailed

record writer =
  out :: bytes
  write_faults :: "nat option list"

definition stream_Write :: "bytes \<Rightarrow> writer \<Rightarrow> frame_err option \<times> writer" where
  "stream_Write data w = (case write_faults w of
      Some n # p \<Rightarrow> (Some StreamWriteFailed, w\<lparr>out := out w @ take n data, write_faults := p\<rparr>)
    | None # p \<Rightarrow> (None, w\<lparr>out := out w @ data, write_faults := p\<rparr>)
    | [] \<Rightarrow> (None, w\<lparr>out := out w @ data\<rparr>))"

definition ReadFull :: "bytes \<Rightarrow> nat \<Rightarrow> (frame_err + bytes) \<times> bytes" where
  "ReadFull r n = (if n = 0 then (Inr [], r) else if r = [] then (Inl EndOfFile, [])
     else if length r < n then (Inl ErrUnexpectedEOF, []) else (Inr (take n r), drop n r))"

subsection \<open>Frames\<close>

definition FrameHeaderBytes :: nat where "FrameHeaderBytes = 4"

definition MaxControlFrameBytes :: int where "MaxControlFrameBytes = 2 ^ 20"

definition MaxServerFrameBytes :: int where "MaxServerFrameBytes = 16 * 2 ^ 20"

definition checkLimit :: "int \<Rightarrow> frame_err option" where
  "checkLimit maxFrameBytes = (if maxFrameBytes \<le> 0 then Some (LimitNotPositive maxFrameBytes) else None)"

text \<open>The length is converted to a \<open>uint32\<close>.\<close>

definition frame_header :: "bytes \<Rightarrow> bytes" where
  "frame_header payload = be32 (length payload mod 2 ^ 32)"

definition WriteFrame :: "bytes \<Rightarrow> int \<Rightarrow> writer \<Rightarrow> frame_err option \<times> writer" where
  "WriteFrame payload maxFrameBytes w = (case checkLimit maxFrameBytes of Some e \<Rightarrow> (Some e, w)
    | None \<Rightarrow>
       if payload = [] then (Some ErrEmptyPayload, w)
       else if int (length payload) > maxFrameBytes then (Some ErrFrameTooLarge, w)
       else (case stream_Write (frame_header payload) w of (Some e, w1) \<Rightarrow> (Some e, w1)
         | (None, w1) \<Rightarrow> stream_Write payload w1))"

definition ReadFrame :: "bytes \<Rightarrow> int \<Rightarrow> (frame_err + bytes) \<times> bytes" where
  "ReadFrame r maxFrameBytes = (case checkLimit maxFrameBytes of Some e \<Rightarrow> (Inl e, r)
    | None \<Rightarrow> (case ReadFull r FrameHeaderBytes of (Inl e, r1) \<Rightarrow> (Inl e, r1)
      | (Inr header, r1) \<Rightarrow>
         let declared = be32_val header in
         if int declared > maxFrameBytes then (Inl ErrFrameTooLarge, r1)
         else (case ReadFull r1 declared of
             (Inl e, r2) \<Rightarrow> (Inl (if e = EndOfFile then ErrUnexpectedEOF else e), r2)
           | (Inr payload, r2) \<Rightarrow> (Inr payload, r2))))"

subsection \<open>Methods\<close>

definition methodByImport :: "(bytes \<times> bytes) list" where
  "methodByImport = [(''rpc-connect'', ''rpc.connect''), (''plugin-register-interface'', ''plugin.register_interface''),
     (''invoke-call'', ''invoke.call''), (''rpc-cancel'', ''rpc.cancel''), (''observe-subscribe'', ''observe.subscribe''),
     (''heartbeat-signal'', ''heartbeat.signal''), (''heartbeat-tempo-request'', ''heartbeat.tempo_request''),
     (''heartbeat-config'', ''heartbeat.config'')]"

definition importByMethod :: "(bytes \<times> bytes) list" where
  "importByMethod = map (\<lambda>(imp, method). (method, imp)) methodByImport"

definition MethodForImport :: "bytes \<Rightarrow> bytes option" where
  "MethodForImport importName = map_of methodByImport importName"

definition ImportForMethod :: "bytes \<Rightarrow> bytes option" where
  "ImportForMethod method = map_of importByMethod method"

lemma methods_inverse: "MethodForImport i = Some m \<longleftrightarrow> ImportForMethod m = Some i"
proof -
  have "distinct (map fst methodByImport)" "distinct (map snd methodByImport)" by (simp_all add: methodByImport_def)
  moreover have "map fst importByMethod = map snd methodByImport" by (simp add: importByMethod_def case_prod_beta comp_def)
  moreover have "(m, i) \<in> set importByMethod \<longleftrightarrow> (i, m) \<in> set methodByImport" by (force simp: importByMethod_def)
  ultimately show ?thesis unfolding MethodForImport_def ImportForMethod_def by (metis map_of_eq_Some_iff)
qed

subsection \<open>Reading back\<close>

lemma ReadFull_append: "ReadFull (a @ s) (length a) = (Inr a, s)"
  by (simp add: ReadFull_def)

definition frame :: "bytes \<Rightarrow> bytes" where
  "frame payload = frame_header payload @ payload"

definition frame_ok :: "int \<Rightarrow> bytes \<Rightarrow> bool" where
  "frame_ok maxFrameBytes payload \<longleftrightarrow> payload \<noteq> [] \<and> int (length payload) \<le> maxFrameBytes \<and> maxFrameBytes < 2 ^ 32"

text \<open>One party writes one payload after the other and stops at the first error; the other reads until an error.\<close>

fun write_frames :: "bytes list \<Rightarrow> int \<Rightarrow> writer \<Rightarrow> frame_err option \<times> writer" where
  "write_frames [] maxFrameBytes w = (None, w)"
| "write_frames (p # ps) maxFrameBytes w = (case WriteFrame p maxFrameBytes w of (Some e, w1) \<Rightarrow> (Some e, w1)
     | (None, w1) \<Rightarrow> write_frames ps maxFrameBytes w1)"

lemma ReadFrame_shorter: "ReadFrame r m = (Inr p, r') \<Longrightarrow> length r' < length r"
  by (auto simp: ReadFrame_def ReadFull_def FrameHeaderBytes_def Let_def split: option.splits if_splits)

function read_frames :: "bytes \<Rightarrow> int \<Rightarrow> bytes list \<times> frame_err" where
  "read_frames r maxFrameBytes = (case ReadFrame r maxFrameBytes of (Inl e, _) \<Rightarrow> ([], e)
     | (Inr p, r') \<Rightarrow> (case read_frames r' maxFrameBytes of (ps, e) \<Rightarrow> (p # ps, e)))"
  by pat_completeness auto
termination
  by (relation "measure (\<lambda>(r, m). length r)") (auto dest: ReadFrame_shorter [OF sym])

declare read_frames.simps [simp del]

lemma frame_ok_limit: "frame_ok m p \<Longrightarrow> checkLimit m = None \<and> p \<noteq> [] \<and> \<not> int (length p) > m"
  by (cases p) (auto simp: frame_ok_def checkLimit_def)

lemma frame_header_val: "frame_ok m p \<Longrightarrow> be32_val (frame_header p) = length p" "length (frame_header p) = 4"
proof -
  show "length (frame_header p) = 4" by (simp add: frame_header_def)
  assume "frame_ok m p"
  then have "length p < 2 ^ 32" by (auto simp: frame_ok_def)
  then show "be32_val (frame_header p) = length p" using be32_val_be32 [of "length p" "[]"] by (simp add: frame_header_def)
qed

lemma ReadFrame_frame:
  assumes "frame_ok m p"
  shows "ReadFrame (frame p @ s) m = (Inr p, s)"
proof -
  have "ReadFull (frame_header p @ p @ s) FrameHeaderBytes = (Inr (frame_header p), p @ s)"
    using ReadFull_append [of "frame_header p"] frame_header_val(2) by (simp add: FrameHeaderBytes_def)
  then show ?thesis using frame_header_val(1) [OF assms] ReadFull_append [of p s] frame_ok_limit [OF assms]
    by (simp add: ReadFrame_def frame_def Let_def)
qed

lemma ReadFrame_part:
  assumes "frame_ok m p" "k < length (frame p)"
  shows "\<exists>r'. ReadFrame (take k (frame p)) m = (Inl (if k = 0 then EndOfFile else ErrUnexpectedEOF), r')"
proof (cases "k < 4")
  case True
  then show ?thesis using frame_ok_limit [OF assms(1)] assms(2) frame_header_val(2) [of p]
    by (auto simp: ReadFrame_def ReadFull_def FrameHeaderBytes_def frame_def)
next
  case False
  then have t: "take k (frame p) = frame_header p @ take (k - 4) p" by (simp add: frame_def frame_header_val(2))
  have "k - 4 < length p" using assms(2) False by (simp add: frame_def frame_header_val(2))
  moreover have "ReadFull (take k (frame p)) FrameHeaderBytes = (Inr (frame_header p), take (k - 4) p)"
    using ReadFull_append [of "frame_header p"] by (simp add: t FrameHeaderBytes_def frame_header_val(2))
  ultimately show ?thesis using frame_header_val(1) [OF assms(1)] frame_ok_limit [OF assms(1)] False
    by (auto simp: ReadFrame_def ReadFull_def Let_def)
qed

lemma stream_Write_effect:
  assumes "stream_Write d w = (err, w')"
  shows "\<exists>k \<le> length d. out w' = out w @ take k d \<and> (err = None \<longrightarrow> k = length d)"
proof -
  have "\<exists>n. out w' = out w @ take n d \<and> (err = None \<longrightarrow> n = length d)"
    using assms by (auto simp: stream_Write_def split: list.splits option.splits)
  then obtain n where "out w' = out w @ take n d" "err = None \<longrightarrow> n = length d" by blast
  then show ?thesis by (intro exI [of _ "min n (length d)"]) (auto simp: min_def)
qed

lemma WriteFrame_effect:
  assumes "frame_ok m p" "WriteFrame p m w = (err, w')"
  shows "\<exists>k \<le> length (frame p). out w' = out w @ take k (frame p) \<and> (err = None \<longrightarrow> k = length (frame p))"
proof -
  obtain e1 w1 where w1: "stream_Write (frame_header p) w = (e1, w1)" by fastforce
  obtain k where k: "k \<le> length (frame_header p)" "out w1 = out w @ take k (frame_header p)" "e1 = None \<longrightarrow> k = length (frame_header p)"
    using stream_Write_effect [OF w1] by blast
  show ?thesis
  proof (cases e1)
    case (Some e)
    then show ?thesis using assms(2) frame_ok_limit [OF assms(1)] w1 k by (intro exI [of _ k]) (auto simp: WriteFrame_def frame_def)
  next
    case None
    then have "stream_Write p w1 = (err, w')" using assms(2) frame_ok_limit [OF assms(1)] w1 by (simp add: WriteFrame_def)
    from stream_Write_effect [OF this] obtain j where "j \<le> length p" "out w' = out w1 @ take j p" "err = None \<longrightarrow> j = length p" by blast
    then show ?thesis using k None by (intro exI [of _ "length (frame_header p) + j"]) (auto simp: frame_def)
  qed
qed

lemma read_frames_Cons: "frame_ok m p \<Longrightarrow> read_frames (frame p @ s) m = (p # fst (read_frames s m), snd (read_frames s m))"
  by (subst read_frames.simps) (simp add: ReadFrame_frame split: prod.split)

lemma read_frames_part:
  "frame_ok m p \<Longrightarrow> k < length (frame p) \<Longrightarrow> read_frames (take k (frame p)) m = ([], if k = 0 then EndOfFile else ErrUnexpectedEOF)"
  using ReadFrame_part by (subst read_frames.simps) fastforce

lemma read_frames_end: "0 < m \<Longrightarrow> read_frames [] m = ([], EndOfFile)"
  by (subst read_frames.simps) (simp add: ReadFrame_def ReadFull_def checkLimit_def FrameHeaderBytes_def)

lemma write_frames_effect:
  assumes "list_all (frame_ok m) ps" "0 < m" "write_frames ps m w = (err, w')"
  shows "\<exists>written k. out w' = out w @ written \<and> fst (read_frames written m) = take k ps
     \<and> (err = None \<longrightarrow> k = length ps \<and> snd (read_frames written m) = EndOfFile)"
  using assms(1,3)
proof (induction ps arbitrary: w)
  case Nil
  then show ?case using read_frames_end [OF assms(2)] by (intro exI [of _ "[]"] exI [of _ 0]) simp
next
  case (Cons p ps)
  have ok: "frame_ok m p" using Cons.prems(1) by simp
  obtain e w1 where w1: "WriteFrame p m w = (e, w1)" by fastforce
  obtain k where k: "k \<le> length (frame p)" "out w1 = out w @ take k (frame p)" "e = None \<longrightarrow> k = length (frame p)"
    using WriteFrame_effect [OF ok w1] by blast
  show ?case
  proof (cases e)
    case (Some x)
    then have w': "err = Some x" "w' = w1" using Cons.prems(2) w1 by simp_all
    show ?thesis
    proof (cases "k < length (frame p)")
      case True
      then show ?thesis using w' k read_frames_part [OF ok True] by (intro exI [of _ "take k (frame p)"] exI [of _ 0]) simp
    next
      case False
      then have "out w' = out w @ frame p @ []" using w'(2) k by simp
      then show ?thesis using w'(1) read_frames_Cons [OF ok, of "[]"] read_frames_end [OF assms(2)]
        by (intro exI [of _ "frame p @ []"] exI [of _ 1]) simp
    qed
  next
    case None
    then have "write_frames ps m w1 = (err, w')" using Cons.prems(2) w1 by simp
    from Cons.IH [OF _ this] Cons.prems(1) obtain written j where
      j: "out w' = out w1 @ written" "fst (read_frames written m) = take j ps" "err = None \<longrightarrow> j = length ps \<and> snd (read_frames written m) = EndOfFile" by auto
    then show ?thesis using k None read_frames_Cons [OF ok, of written] by (intro exI [of _ "frame p @ written"] exI [of _ "Suc j"]) auto
  qed
qed

subsection \<open>Properties\<close>

text \<open>
  C27. What is read from a stream of frames is what was written. Payloads that are not empty and within a
  limit below four gigabytes are written one after the other; whichever write fails, and after however
  many bytes, the other side reads an initial part of the payloads, unchanged and in order, and never a
  payload that is cut short. When no write failed it reads all of them and then the end of the stream.
\<close>

theorem frames_roundtrip:
  assumes "0 < m" "list_all (frame_ok m) ps" "write_frames ps m \<lparr>out = [], write_faults = faults\<rparr> = (err, w)"
  shows "\<exists>k. fst (read_frames (out w) m) = take k ps
     \<and> (err = None \<longrightarrow> fst (read_frames (out w) m) = ps \<and> snd (read_frames (out w) m) = EndOfFile)"
  using write_frames_effect [OF assms(2,1,3)] by auto

theorem frames_roundtrip_witness:
  "fst (read_frames (out (snd (write_frames [''ab'', ''c''] MaxControlFrameBytes \<lparr>out = [], write_faults = []\<rparr>))) MaxControlFrameBytes) = [''ab'', ''c'']"
proof -
  obtain err w where w: "write_frames [''ab'', ''c''] MaxControlFrameBytes \<lparr>out = [], write_faults = []\<rparr> = (err, w)" by fastforce
  have "err = None" using w by (auto simp: WriteFrame_def checkLimit_def MaxControlFrameBytes_def stream_Write_def)
  moreover have "(0::int) < MaxControlFrameBytes" "list_all (frame_ok MaxControlFrameBytes) [''ab'', ''c'']"
    by (simp_all add: MaxControlFrameBytes_def frame_ok_def)
  ultimately show ?thesis using frames_roundtrip [OF _ _ w] w by auto
qed

end
