(* ===== verification/Foreground.thy ===== *)
theory Foreground
  imports Transitions
begin

text \<open>
  \<open>internal/foreground\<close>: the holds that keep the app in the foreground, and the goroutine that tells a
  subscriber when one is needed and when none is. Every method body under the mutex is one step; the
  goroutine takes its own steps between them, and the call of the subscriber happens outside the mutex.
  A subscriber is known by a number. The channel \<open>wake\<close> holds at most one token; nil is \<open>None\<close>.
\<close>

subsection \<open>Holds\<close>

record edge =
  needed :: bool
  reason :: bytes

datatype deliverer = Waiting | Inner | Calling nat edge

record Holds =
  hseq :: uint64
  active :: "uint64 \<rightharpoonup> bytes"
  subscriber :: "nat option"
  announced :: bool
  queue :: "edge list"
  wake :: "bool option"
  goroutine :: "deliverer option"
  calls :: "(nat \<times> edge) list"

definition new_Holds :: Holds where
  "new_Holds = \<lparr>hseq = 0, active = Map.empty, subscriber = None, announced = False, queue = [], wake = None, goroutine = None, calls = []\<rparr>"

definition wake_up :: "Holds \<Rightarrow> Holds" where
  "wake_up h = h\<lparr>wake := map_option (\<lambda>_. True) (wake h)\<rparr>"

definition enqueueEdgeLocked :: "bytes \<Rightarrow> Holds \<Rightarrow> Holds" where
  "enqueueEdgeLocked why h = (let need = dom (active h) \<noteq> {} in
     if subscriber h = None \<or> need = announced h then h
     else wake_up (h\<lparr>announced := need, queue := queue h @ [\<lparr>needed = need, reason = (if need then why else [])\<rparr>]\<rparr>))"

text \<open>\<open>Acquire\<close> returns the number its release function deletes.\<close>

definition Acquire :: "bytes \<Rightarrow> Holds \<Rightarrow> uint64 \<times> Holds" where
  "Acquire why h = (let i = hseq h + 1 in (i, enqueueEdgeLocked why (h\<lparr>hseq := i, active := (active h)(i \<mapsto> why)\<rparr>)))"

definition release :: "uint64 \<Rightarrow> Holds \<Rightarrow> Holds" where
  "release i h = enqueueEdgeLocked [] (h\<lparr>active := (active h)(i := None)\<rparr>)"

text \<open>The order of a map is not determined: \<open>Active\<close> returns the reasons in some order, \<open>Subscribe\<close> picks any.\<close>

definition Active :: "Holds \<Rightarrow> bytes list \<Rightarrow> bool" where
  "Active h rs \<longleftrightarrow> (\<exists>is. distinct is \<and> set is = dom (active h) \<and> rs = map (\<lambda>i. the (active h i)) is)"

definition Subscribe :: "nat option \<Rightarrow> bytes \<Rightarrow> Holds \<Rightarrow> Holds" where
  "Subscribe fn picked h =
    (let h = h\<lparr>subscriber := fn\<rparr>;
         h = (if fn \<noteq> None \<and> wake h = None then h\<lparr>wake := Some False, goroutine := Some Waiting\<rparr> else h);
         h = (if fn = None then wake_up (h\<lparr>queue := []\<rparr>) else h)
     in if fn \<noteq> None then enqueueEdgeLocked picked (h\<lparr>announced := (dom (active h) = {})\<rparr>) else h)"

text \<open>
  \<open>deliver\<close>: it waits for a token, then empties the queue; with an empty queue and no subscriber it ends.
  \<open>None\<close> means that it cannot go on.
\<close>

definition deliver :: "Holds \<Rightarrow> Holds option" where
  "deliver h = (case goroutine h of
      None \<Rightarrow> None
    | Some Waiting \<Rightarrow> (if wake h = Some True then Some (h\<lparr>wake := Some False, goroutine := Some Inner\<rparr>) else None)
    | Some Inner \<Rightarrow> Some (case queue h of
          [] \<Rightarrow> (if subscriber h = None then h\<lparr>wake := None, goroutine := None\<rparr> else h\<lparr>goroutine := Some Waiting\<rparr>)
        | e # q \<Rightarrow> h\<lparr>queue := q, goroutine := Some (case subscriber h of None \<Rightarrow> Inner | Some f \<Rightarrow> Calling f e)\<rparr>)
    | Some (Calling f e) \<Rightarrow> Some (h\<lparr>calls := calls h @ [(f, e)], goroutine := Some Inner\<rparr>))"

subsection \<open>Steps\<close>

inductive holds_step :: "Holds \<Rightarrow> Holds \<Rightarrow> bool" where
  acquire: "Acquire why h = (i, h') \<Longrightarrow> holds_step h h'"
| release: "holds_step h (release i h)"
| subscribe: "(active h = Map.empty \<and> picked = []) \<or> picked \<in> ran (active h) \<Longrightarrow> holds_step h (Subscribe fn picked h)"
| deliver: "deliver h = Some h' \<Longrightarrow> holds_step h h'"

text \<open>What the subscriber has been told last, and what it will be told last.\<close>

definition told :: "nat \<Rightarrow> Holds \<Rightarrow> edge list" where
  "told f h = map snd (filter (\<lambda>c. fst c = f) (calls h))"

definition coming :: "nat \<Rightarrow> Holds \<Rightarrow> edge list" where
  "coming f h = told f h @ (case goroutine h of Some (Calling g e) \<Rightarrow> if g = f then [e] else [] | _ \<Rightarrow> []) @ queue h"

definition holds_inv :: "Holds \<Rightarrow> bool" where
  "holds_inv h \<longleftrightarrow> (goroutine h = None \<longleftrightarrow> wake h = None)
     \<and> (subscriber h = None \<longrightarrow> queue h = [])
     \<and> (queue h \<noteq> [] \<longrightarrow> goroutine h \<noteq> Some Waiting \<or> wake h = Some True)
     \<and> (\<forall>f. subscriber h = Some f \<longrightarrow> wake h \<noteq> None \<and> (announced h \<longleftrightarrow> dom (active h) \<noteq> {})
          \<and> coming f h \<noteq> [] \<and> needed (last (coming f h)) = announced h)"

lemma holds_inv_new: "holds_inv new_Holds"
  by (simp add: holds_inv_def new_Holds_def)

lemma enqueue_inv:
  assumes "(goroutine h = None) = (wake h = None)" "subscriber h = None \<Longrightarrow> queue h = []"
    "queue h \<noteq> [] \<Longrightarrow> goroutine h \<noteq> Some Waiting \<or> wake h = Some True"
    "\<And>f. subscriber h = Some f \<Longrightarrow> wake h \<noteq> None"
    "\<And>f. subscriber h = Some f \<Longrightarrow> announced h = (dom (active h) \<noteq> {}) \<Longrightarrow> coming f h \<noteq> [] \<and> needed (last (coming f h)) = announced h"
  shows "holds_inv (enqueueEdgeLocked why h)"
proof (cases "subscriber h = None \<or> (dom (active h) \<noteq> {}) = announced h")
  case True
  then show ?thesis using assms by (auto simp: holds_inv_def enqueueEdgeLocked_def Let_def)
next
  case False
  then have "enqueueEdgeLocked why h = wake_up (h\<lparr>announced := dom (active h) \<noteq> {},
      queue := queue h @ [\<lparr>needed = dom (active h) \<noteq> {}, reason = (if dom (active h) \<noteq> {} then why else [])\<rparr>]\<rparr>)"
    by (auto simp: enqueueEdgeLocked_def Let_def)
  then show ?thesis using assms(1,4) False by (auto simp: holds_inv_def wake_up_def coming_def told_def)
qed

lemma coming_update: "coming f (h\<lparr>hseq := i\<rparr>) = coming f h" "coming f (h\<lparr>active := a\<rparr>) = coming f h"
  by (simp_all add: coming_def told_def)

lemma holds_invD:
  assumes "holds_inv h"
  shows "(goroutine h = None) = (wake h = None)" "subscriber h = None \<Longrightarrow> queue h = []"
    "queue h \<noteq> [] \<Longrightarrow> goroutine h \<noteq> Some Waiting \<or> wake h = Some True"
    "subscriber h = Some f \<Longrightarrow> wake h \<noteq> None" "subscriber h = Some f \<Longrightarrow> announced h = (dom (active h) \<noteq> {})"
    "subscriber h = Some f \<Longrightarrow> coming f h \<noteq> [] \<and> needed (last (coming f h)) = announced h"
  using assms unfolding holds_inv_def by blast+

lemma Acquire_inv: "holds_inv h \<Longrightarrow> Acquire why h = (i, h') \<Longrightarrow> holds_inv h'"
proof -
  assume i: "holds_inv h" and a: "Acquire why h = (i, h')"
  have "holds_inv (enqueueEdgeLocked why (h\<lparr>hseq := i, active := (active h)(i \<mapsto> why)\<rparr>))"
    by (rule enqueue_inv) (use i in \<open>auto simp: coming_update holds_inv_def\<close>)
  then show ?thesis using a by (auto simp: Acquire_def Let_def)
qed

lemma release_inv: "holds_inv h \<Longrightarrow> holds_inv (release i h)"
  unfolding release_def by (rule enqueue_inv) (auto simp: coming_update holds_inv_def)

lemma Subscribe_inv:
  assumes "holds_inv h"
  shows "holds_inv (Subscribe fn picked h)"
proof (cases fn)
  case None
  then show ?thesis using holds_invD(1) [OF assms] by (simp add: Subscribe_def holds_inv_def wake_up_def Let_def)
next
  case (Some f)
  have q: "wake h = None \<Longrightarrow> queue h = []" using assms by (cases "subscriber h") (auto simp: holds_inv_def)
  show ?thesis
  proof (cases "wake h")
    case None
    then have "Subscribe fn picked h = enqueueEdgeLocked picked
        (h\<lparr>subscriber := fn, wake := Some False, goroutine := Some Waiting, announced := (dom (active h) = {})\<rparr>)"
      using Some by (simp add: Subscribe_def Let_def)
    also have "holds_inv \<dots>" by (rule enqueue_inv) (use Some q [OF None] in simp_all)
    finally show ?thesis .
  next
    case w: (Some t)
    then have "Subscribe fn picked h = enqueueEdgeLocked picked (h\<lparr>subscriber := fn, announced := (dom (active h) = {})\<rparr>)"
      using Some by (simp add: Subscribe_def Let_def)
    also have "holds_inv \<dots>" by (rule enqueue_inv) (use Some w holds_invD(1,3) [OF assms] in auto)
    finally show ?thesis .
  qed
qed

lemma deliver_inv:
  assumes "holds_inv h" "deliver h = Some h'"
  shows "holds_inv h'" "subscriber h' = subscriber h" "active h' = active h"
proof -
  show "subscriber h' = subscriber h" "active h' = active h"
    using assms(2) by (auto simp: deliver_def split: option.splits deliverer.splits list.splits if_splits)
  note i = holds_invD [OF assms(1)]
  show "holds_inv h'"
  proof (cases "goroutine h")
    case None
    then show ?thesis using assms(2) by (simp add: deliver_def)
  next
    case g: (Some d)
    show ?thesis
    proof (cases d)
      case Waiting
      then have "wake h = Some True" and h': "h' = h\<lparr>wake := Some False, goroutine := Some Inner\<rparr>"
        using assms(2) g by (simp_all add: deliver_def split: if_splits)
      then show ?thesis using i(2) i(5,6) g Waiting unfolding h' by (simp add: holds_inv_def coming_def told_def)
    next
      case Inner
      show ?thesis
      proof (cases "queue h")
        case Nil
        then show ?thesis using assms(2) g Inner i(1,5,6) by (auto simp: deliver_def holds_inv_def coming_def told_def split: if_splits)
      next
        case (Cons e q)
        then obtain f where f: "subscriber h = Some f" using i(2) by (cases "subscriber h") auto
        then have h': "h' = h\<lparr>queue := q, goroutine := Some (Calling f e)\<rparr>" using assms(2) g Inner Cons by (simp add: deliver_def)
        show ?thesis using i(1) i(4-6) [OF f] f g Inner Cons unfolding h' by (simp add: holds_inv_def coming_def told_def)
      qed
    next
      case (Calling f e)
      then have h': "h' = h\<lparr>calls := calls h @ [(f, e)], goroutine := Some Inner\<rparr>" using assms(2) g by (simp add: deliver_def)
      have c: "coming k (h\<lparr>calls := calls h @ [(f, e)], goroutine := Some Inner\<rparr>) = coming k h" for k
        using g Calling by (simp add: coming_def told_def)
      show ?thesis using i(1,2,4) i(5,6) g Calling unfolding h' holds_inv_def c by simp
    qed
  qed
qed

lemma holds_step_inv: "holds_step h h' \<Longrightarrow> holds_inv h \<Longrightarrow> holds_inv h'"
  by (induction rule: holds_step.induct) (auto intro: Acquire_inv release_inv Subscribe_inv deliver_inv(1))

interpretation holds_runs: transition_invariant new_Holds holds_step holds_inv
  by unfold_locales (rule holds_inv_new, rule holds_step_inv)

subsection \<open>The goroutine reaches a rest\<close>

primrec deliver_run :: "nat \<Rightarrow> Holds \<Rightarrow> Holds" where
  "deliver_run 0 h = h"
| "deliver_run (Suc n) h = (case deliver h of None \<Rightarrow> h | Some h' \<Rightarrow> deliver_run n h')"

definition work :: "Holds \<Rightarrow> nat" where
  "work h = 2 * length (queue h) + (if wake h = Some True then 2 else 0)
     + (case goroutine h of None \<Rightarrow> 0 | Some Waiting \<Rightarrow> 0 | Some Inner \<Rightarrow> 1 | Some (Calling _ _) \<Rightarrow> 2)"

lemma deliver_work: "deliver h = Some h' \<Longrightarrow> work h' < work h"
  by (auto simp: deliver_def work_def split: option.splits deliverer.splits list.splits if_splits)

lemma deliver_run_rests:
  assumes "holds_inv h" "work h \<le> n"
  shows "deliver (deliver_run n h) = None \<and> holds_inv (deliver_run n h) \<and> subscriber (deliver_run n h) = subscriber h
     \<and> active (deliver_run n h) = active h"
  using assms
proof (induction n arbitrary: h)
  case 0
  then show ?case using deliver_work [of h] by (cases "deliver h") auto
next
  case (Suc n)
  show ?case
  proof (cases "deliver h")
    case (Some h')
    then show ?thesis using Suc.IH [of h'] Suc.prems deliver_inv [OF Suc.prems(1) Some] deliver_work [OF Some] by simp
  qed (use Suc.prems in simp)
qed

lemma rest_told:
  assumes "holds_inv h" "deliver h = None" "subscriber h = Some f"
  shows "told f h \<noteq> [] \<and> needed (last (told f h)) = (dom (active h) \<noteq> {})"
proof -
  have "goroutine h = Some Waiting \<and> wake h \<noteq> Some True"
    using assms by (auto simp: deliver_def holds_inv_def split: option.splits deliverer.splits if_splits)
  then have "coming f h = told f h" using assms(1) by (auto simp: holds_inv_def coming_def)
  then show ?thesis using assms(1,3) by (auto simp: holds_inv_def)
qed

subsection \<open>Properties\<close>

text \<open>
  C26. The subscriber learns the truth. However acquiring, releasing and subscribing interleave with the
  goroutine that delivers the news, no wake-up is lost: left alone, the goroutine comes to rest within a
  number of steps that depends on its queue only, and the last thing the present subscriber has then been
  told is whether any hold is active.
\<close>

theorem subscriber_learns_truth:
  assumes "holds_step\<^sup>*\<^sup>* new_Holds h" "subscriber h = Some f" "2 * length (queue h) + 4 \<le> n"
  shows "deliver (deliver_run n h) = None \<and> told f (deliver_run n h) \<noteq> []
     \<and> needed (last (told f (deliver_run n h))) = (dom (active h) \<noteq> {})"
proof -
  have i: "holds_inv h" by (rule holds_runs.reachable [OF assms(1)])
  have "work h \<le> n" using assms(3) by (auto simp: work_def split: option.splits deliverer.splits)
  note r = deliver_run_rests [OF i this]
  then show ?thesis using rest_told [of "deliver_run n h" f] assms(2) by simp
qed

subsection \<open>Examples\<close>

definition held :: Holds where
  "held = snd (Acquire ''voice'' (Subscribe (Some 3) [] new_Holds))"

theorem subscriber_learns_truth_witness:
  "subscriber held = Some 3 \<and> needed (last (told 3 (deliver_run 8 held)))"
proof -
  have s: "holds_step new_Holds (Subscribe (Some 3) [] new_Holds)" by (rule subscribe) (simp add: new_Holds_def)
  have "holds_step (Subscribe (Some 3) [] new_Holds) held" unfolding held_def by (rule acquire) (rule prod.collapse [symmetric])
  with s have r: "holds_step\<^sup>*\<^sup>* new_Holds held" by (meson converse_rtranclp_into_rtranclp r_into_rtranclp)
  have h: "subscriber held = Some 3" "length (queue held) = 2" "dom (active held) \<noteq> {}"
    by (simp_all add: held_def Acquire_def Subscribe_def enqueueEdgeLocked_def wake_up_def new_Holds_def Let_def)
  then show ?thesis using subscriber_learns_truth [OF r h(1), of 8] by simp
qed

end
