(* ===== verification/Quiesce.thy ===== *)
theory Quiesce
  imports Transitions
begin

text \<open>
  \<open>internal/quiesce\<close>: a gate that pauses and resumes the tickers made under it. The steps are the critical
  sections of the two mutexes: \<open>Pause\<close> and \<open>Resume\<close> hold the mutex of the gate and take that of one ticker
  after the other, while timers expire, their functions fire and receivers take ticks in between. Tickers
  are known by numbers; the channel of a ticker holds at most one tick.
\<close>

subsection \<open>Tickers\<close>

datatype timer = NoTimer | Idle | Armed

text \<open>\<open>expired\<close> counts the calls of \<open>fire\<close> that the timer has started and that have not got the mutex yet.\<close>

record Ticker =
  t_d :: int
  t_gated :: bool
  t_timer :: timer
  t_expired :: nat
  t_paused :: bool
  t_stopped :: bool
  t_tick :: bool

definition timer_Stop :: "Ticker \<Rightarrow> Ticker" where
  "timer_Stop t = t\<lparr>t_timer := (if t_timer t = Armed then Idle else t_timer t)\<rparr>"

definition arm :: "Ticker \<Rightarrow> Ticker" where
  "arm t = t\<lparr>t_timer := Armed\<rparr>"

definition expire :: "Ticker \<Rightarrow> Ticker" where
  "expire t = (if t_timer t = Armed then t\<lparr>t_timer := Idle, t_expired := Suc (t_expired t)\<rparr> else t)"

definition fire :: "Ticker \<Rightarrow> Ticker" where
  "fire t = (let t = t\<lparr>t_expired := t_expired t - 1\<rparr> in
     if t_stopped t \<or> t_paused t then t else arm (t\<lparr>t_tick := True\<rparr>))"

definition pause :: "Ticker \<Rightarrow> Ticker" where
  "pause t = (if t_stopped t \<or> t_paused t then t else (timer_Stop (t\<lparr>t_paused := True\<rparr>))\<lparr>t_tick := False\<rparr>)"

definition resume :: "Ticker \<Rightarrow> Ticker" where
  "resume t = (if t_stopped t \<or> \<not> t_paused t then t else arm (t\<lparr>t_paused := False, t_tick := True\<rparr>))"

definition stop_ticker :: "Ticker \<Rightarrow> Ticker" where
  "stop_ticker t = timer_Stop (t\<lparr>t_stopped := True\<rparr>)"

text \<open>\<open>NewTicker\<close> panics for an interval that is not positive.\<close>

definition new_ticker :: "bool \<Rightarrow> bool \<Rightarrow> int \<Rightarrow> Ticker option" where
  "new_ticker under_gate gate_paused d = (if d \<le> 0 then None
     else let t = \<lparr>t_d = d, t_gated = under_gate, t_timer = NoTimer, t_expired = 0, t_paused = under_gate \<and> gate_paused,
                   t_stopped = False, t_tick = False\<rparr>
          in Some (if t_paused t then t else arm t))"

subsection \<open>The gate\<close>

text \<open>What the holder of the gate's mutex is doing, with the tickers it has not reached yet.\<close>

datatype gate_op = Pausing "nat set" | Resuming "nat set"

record Gate =
  paused :: bool
  tickers :: "nat set"
  hooks :: "nat list"
  hook_calls :: "nat list"
  holder :: "gate_op option"
  ticker :: "nat \<Rightarrow> Ticker option"

definition NewGate :: Gate where
  "NewGate = \<lparr>paused = False, tickers = {}, hooks = [], hook_calls = [], holder = None, ticker = (\<lambda>_. None)\<rparr>"

definition begin_Pause :: "Gate \<Rightarrow> Gate" where
  "begin_Pause g = (if paused g then g else g\<lparr>paused := True, holder := Some (Pausing (tickers g))\<rparr>)"

definition begin_Resume :: "Gate \<Rightarrow> Gate" where
  "begin_Resume g = (if \<not> paused g then g else g\<lparr>paused := False, holder := Some (Resuming (tickers g))\<rparr>)"

definition at_ticker :: "nat \<Rightarrow> (Ticker \<Rightarrow> Ticker) \<Rightarrow> Gate \<Rightarrow> Gate" where
  "at_ticker i f g = g\<lparr>ticker := (ticker g)(i := map_option f (ticker g i))\<rparr>"

definition run_hooks :: "Gate \<Rightarrow> Gate" where
  "run_hooks g = g\<lparr>hook_calls := hook_calls g @ hooks g, holder := None\<rparr>"

definition OnTransition :: "nat \<Rightarrow> Gate \<Rightarrow> Gate" where
  "OnTransition fn g = g\<lparr>hooks := hooks g @ [fn]\<rparr>"

definition Paused :: "Gate \<Rightarrow> bool" where
  "Paused g = paused g"

subsection \<open>Steps\<close>

inductive gate_step :: "Gate \<Rightarrow> Gate \<Rightarrow> bool" where
  pause_begins: "holder g = None \<Longrightarrow> gate_step g (begin_Pause g)"
| pause_ticker: "holder g = Some (Pausing S) \<Longrightarrow> i \<in> S \<Longrightarrow> gate_step g (at_ticker i pause (g\<lparr>holder := Some (Pausing (S - {i}))\<rparr>))"
| pause_ends: "holder g = Some (Pausing {}) \<Longrightarrow> gate_step g (run_hooks g)"
| resume_begins: "holder g = None \<Longrightarrow> gate_step g (begin_Resume g)"
| resume_ticker: "holder g = Some (Resuming S) \<Longrightarrow> i \<in> S \<Longrightarrow> gate_step g (at_ticker i resume (g\<lparr>holder := Some (Resuming (S - {i}))\<rparr>))"
| resume_ends: "holder g = Some (Resuming {}) \<Longrightarrow> gate_step g (run_hooks g)"
| on_transition: "holder g = None \<Longrightarrow> gate_step g (OnTransition fn g)"
| new_gated: "holder g = None \<Longrightarrow> ticker g i = None \<Longrightarrow> new_ticker True (paused g) d = Some t
     \<Longrightarrow> gate_step g (g\<lparr>tickers := insert i (tickers g), ticker := (ticker g)(i \<mapsto> t)\<rparr>)"
| new_free: "ticker g i = None \<Longrightarrow> new_ticker False False d = Some t \<Longrightarrow> gate_step g (g\<lparr>ticker := (ticker g)(i \<mapsto> t)\<rparr>)"
| stop_gate: "holder g = None \<Longrightarrow> gate_step g (g\<lparr>tickers := tickers g - {i}\<rparr>)"
| stop_mark: "i \<notin> tickers g \<Longrightarrow> gate_step g (at_ticker i stop_ticker g)"
| timer_expires: "gate_step g (at_ticker i expire g)"
| timer_fires: "ticker g i = Some t \<Longrightarrow> 0 < t_expired t \<Longrightarrow> gate_step g (at_ticker i fire g)"
| receive: "gate_step g (at_ticker i (\<lambda>t. t\<lparr>t_tick := False\<rparr>) g)"

subsection \<open>The gate governs its tickers\<close>

text \<open>What holds of a ticker whenever its mutex is free.\<close>

definition ticker_ok :: "Ticker \<Rightarrow> bool" where
  "ticker_ok t \<longleftrightarrow> t_stopped t \<or> (if t_paused t then \<not> t_tick t \<and> t_timer t \<noteq> Armed else t_timer t = Armed \<or> 0 < t_expired t)"

text \<open>Whether the ticker should be paused, seen from the gate.\<close>

definition should_pause :: "Gate \<Rightarrow> nat \<Rightarrow> bool" where
  "should_pause g i = (case holder g of None \<Rightarrow> paused g | Some (Pausing S) \<Rightarrow> i \<notin> S | Some (Resuming S) \<Rightarrow> i \<in> S)"

definition gate_inv :: "Gate \<Rightarrow> bool" where
  "gate_inv g \<longleftrightarrow> (\<forall>i t. ticker g i = Some t \<longrightarrow> ticker_ok t)
     \<and> (\<forall>i \<in> tickers g. \<exists>t. ticker g i = Some t \<and> \<not> t_stopped t \<and> t_paused t = should_pause g i)
     \<and> (case holder g of None \<Rightarrow> True | Some (Pausing S) \<Rightarrow> paused g \<and> S \<subseteq> tickers g | Some (Resuming S) \<Rightarrow> \<not> paused g \<and> S \<subseteq> tickers g)"

lemma ticker_ok_steps:
  assumes "ticker_ok t"
  shows "ticker_ok (pause t)" "ticker_ok (resume t)" "ticker_ok (stop_ticker t)" "ticker_ok (expire t)"
    "0 < t_expired t \<Longrightarrow> ticker_ok (fire t)" "ticker_ok (t\<lparr>t_tick := False\<rparr>)"
  using assms by (auto simp: ticker_ok_def pause_def resume_def stop_ticker_def expire_def fire_def timer_Stop_def arm_def Let_def)

lemma ticker_flags:
  "t_stopped (pause t) = t_stopped t" "\<not> t_stopped t \<Longrightarrow> t_paused (pause t)"
  "t_stopped (resume t) = t_stopped t" "\<not> t_stopped t \<Longrightarrow> \<not> t_paused (resume t)"
  "t_stopped (expire t) = t_stopped t" "t_paused (expire t) = t_paused t"
  "t_stopped (fire t) = t_stopped t" "t_paused (fire t) = t_paused t"
  by (auto simp: pause_def resume_def expire_def fire_def timer_Stop_def arm_def Let_def)

text \<open>A step on one ticker, with what the gate then expects of it.\<close>

lemma gate_inv_at:
  assumes "gate_inv g" "\<And>t. ticker g i = Some t \<Longrightarrow> ticker_ok (f t)"
    "\<And>t. i \<in> tickers g \<Longrightarrow> ticker g i = Some t \<Longrightarrow> \<not> t_stopped t \<Longrightarrow> t_paused t = should_pause g i \<Longrightarrow> \<not> t_stopped (f t) \<and> t_paused (f t) = should_pause (g\<lparr>holder := h\<rparr>) i"
    "\<And>j. j \<in> tickers g \<Longrightarrow> j \<noteq> i \<Longrightarrow> should_pause (g\<lparr>holder := h\<rparr>) j = should_pause g j"
    "case h of None \<Rightarrow> True | Some (Pausing S) \<Rightarrow> paused g \<and> S \<subseteq> tickers g | Some (Resuming S) \<Rightarrow> \<not> paused g \<and> S \<subseteq> tickers g"
  shows "gate_inv (at_ticker i f (g\<lparr>holder := h\<rparr>))"
proof -
  have s: "should_pause (at_ticker i f (g\<lparr>holder := h\<rparr>)) j = should_pause (g\<lparr>holder := h\<rparr>) j" for j
    by (simp add: should_pause_def at_ticker_def split: option.split gate_op.split)
  have "\<exists>t. ticker (at_ticker i f (g\<lparr>holder := h\<rparr>)) j = Some t \<and> \<not> t_stopped t \<and> t_paused t = should_pause (g\<lparr>holder := h\<rparr>) j"
    if j: "j \<in> tickers g" for j
  proof -
    obtain t where t: "ticker g j = Some t" "\<not> t_stopped t" "t_paused t = should_pause g j" using assms(1) j by (auto simp: gate_inv_def)
    show ?thesis
    proof (cases "j = i")
      case True
      then show ?thesis using t j assms(3) by (simp add: at_ticker_def)
    next
      case False
      then show ?thesis using t j assms(4) by (simp add: at_ticker_def)
    qed
  qed
  moreover have "ticker_ok t" if "ticker (at_ticker i f (g\<lparr>holder := h\<rparr>)) j = Some t" for j t
    using that assms(1,2) by (auto simp: at_ticker_def gate_inv_def split: if_splits)
  ultimately show ?thesis using assms(5) unfolding gate_inv_def s
    by (simp add: at_ticker_def split: option.splits gate_op.splits)
qed

lemma gate_inv_same:
  assumes "gate_inv g" "\<And>t. ticker g i = Some t \<Longrightarrow> ticker_ok t \<Longrightarrow> ticker_ok (f t)"
    "\<And>t. i \<in> tickers g \<Longrightarrow> t_stopped (f t) = t_stopped t \<and> t_paused (f t) = t_paused t"
  shows "gate_inv (at_ticker i f g)"
proof -
  have "gate_inv (at_ticker i f (g\<lparr>holder := holder g\<rparr>))"
    by (rule gate_inv_at [OF assms(1)]) (use assms in \<open>auto simp: gate_inv_def split: option.splits\<close>)
  then show ?thesis by simp
qed

lemma gate_inv_tickers:
  assumes "gate_inv g"
  shows "ticker g i = Some t \<Longrightarrow> ticker_ok t"
    "i \<in> tickers g \<Longrightarrow> \<exists>t. ticker g i = Some t \<and> \<not> t_stopped t \<and> t_paused t = should_pause g i"
    "holder g = Some (Pausing S) \<Longrightarrow> paused g \<and> S \<subseteq> tickers g" "holder g = Some (Resuming S) \<Longrightarrow> \<not> paused g \<and> S \<subseteq> tickers g"
  using assms by (auto simp: gate_inv_def)

lemma new_ticker_ok: "new_ticker u p d = Some t \<Longrightarrow> ticker_ok t \<and> \<not> t_stopped t \<and> t_paused t = (u \<and> p)"
  by (auto simp: new_ticker_def ticker_ok_def arm_def Let_def split: if_splits)

lemma gate_step_inv:
  assumes "gate_step g g'" "gate_inv g"
  shows "gate_inv g'"
  using assms
proof (induction rule: gate_step.induct)
  case (pause_ticker g S i)
  note t = gate_inv_tickers [OF pause_ticker.prems]
  show ?case
    by (rule gate_inv_at [OF pause_ticker.prems])
      (use t pause_ticker.hyps in \<open>auto simp: ticker_ok_steps(1) ticker_flags should_pause_def\<close>)
next
  case (resume_ticker g S i)
  note t = gate_inv_tickers [OF resume_ticker.prems]
  show ?case
    by (rule gate_inv_at [OF resume_ticker.prems])
      (use t resume_ticker.hyps in \<open>auto simp: ticker_ok_steps(2) ticker_flags should_pause_def\<close>)
next
  case (pause_begins g)
  then show ?case by (auto simp: begin_Pause_def gate_inv_def should_pause_def)
next
  case (pause_ends g)
  then show ?case by (auto simp: run_hooks_def gate_inv_def should_pause_def)
next
  case (resume_begins g)
  then show ?case by (auto simp: begin_Resume_def gate_inv_def should_pause_def)
next
  case (resume_ends g)
  then show ?case by (auto simp: run_hooks_def gate_inv_def should_pause_def)
next
  case (on_transition g fn)
  then show ?case by (auto simp: OnTransition_def gate_inv_def should_pause_def)
next
  case (new_gated g i d t)
  then show ?case using new_ticker_ok [OF new_gated.hyps(3)] by (auto simp: gate_inv_def should_pause_def)
next
  case (new_free g i d t)
  have "i \<notin> tickers g" using new_free by (auto simp: gate_inv_def)
  then show ?case using new_free new_ticker_ok [OF new_free.hyps(2)]
    by (auto simp: gate_inv_def should_pause_def split: option.splits gate_op.splits)
next
  case (stop_gate g i)
  then show ?case by (auto simp: gate_inv_def should_pause_def)
next
  case (stop_mark i g)
  then show ?case by (intro gate_inv_same) (auto simp: ticker_ok_steps)
next
  case (timer_expires g i)
  then show ?case by (intro gate_inv_same) (auto simp: ticker_ok_steps ticker_flags)
next
  case (timer_fires g i t)
  then show ?case by (intro gate_inv_same) (auto simp: ticker_ok_steps ticker_flags)
next
  case (receive g i)
  then show ?case by (intro gate_inv_same) (auto simp: ticker_ok_steps)
qed

interpretation gate_runs: transition_invariant NewGate gate_step gate_inv
  by unfold_locales (simp add: gate_inv_def NewGate_def, rule gate_step_inv)

subsection \<open>Properties\<close>

text \<open>
  C25. A paused gate is silent and a running gate ticks. However pausing, resuming, making and stopping
  tickers, expiring timers and receivers interleave: whenever no \<open>Pause\<close> or \<open>Resume\<close> is under way, every
  ticker registered with a paused gate is paused, has no tick to deliver and no timer running, so none
  can appear before the gate is resumed; and every ticker registered with a running gate has its timer
  running or a call of \<open>fire\<close> on its way, so its ticks go on.
\<close>

theorem gate_governs_tickers:
  assumes "gate_step\<^sup>*\<^sup>* NewGate g" "holder g = None" "i \<in> tickers g"
  shows "\<exists>t. ticker g i = Some t \<and> \<not> t_stopped t \<and> (if Paused g then t_paused t \<and> \<not> t_tick t \<and> t_timer t \<noteq> Armed
     else \<not> t_paused t \<and> (t_timer t = Armed \<or> 0 < t_expired t))"
proof -
  note v = gate_inv_tickers [OF gate_runs.reachable [OF assms(1)]]
  obtain t where t: "ticker g i = Some t" "\<not> t_stopped t" "t_paused t = paused g" using v(2) [OF assms(3)] assms(2) by (auto simp: should_pause_def)
  then show ?thesis using v(1) [OF t(1)] by (auto simp: ticker_ok_def Paused_def)
qed

subsection \<open>Examples\<close>

text \<open>A ticker is made and its timer expires; the gate is paused before the function of the timer runs.\<close>

definition demo_gate :: Gate where
  "demo_gate = run_hooks (at_ticker 0 pause ((begin_Pause (at_ticker 0 expire (NewGate\<lparr>tickers := {0},
     ticker := (\<lambda>_. None)(0 := new_ticker True False 5)\<rparr>)))\<lparr>holder := Some (Pausing {})\<rparr>))"

theorem gate_governs_tickers_witness:
  "Paused demo_gate \<and> (\<exists>t. ticker demo_gate 0 = Some t \<and> t_expired t = 1 \<and> t_paused t \<and> \<not> t_tick t)"
proof -
  obtain t where t: "new_ticker True False 5 = Some t" by (simp add: new_ticker_def Let_def)
  let ?g1 = "NewGate\<lparr>tickers := {0}, ticker := (\<lambda>_. None)(0 := new_ticker True False 5)\<rparr>"
  let ?g2 = "at_ticker 0 expire ?g1"
  let ?g3 = "begin_Pause ?g2"
  let ?g4 = "at_ticker 0 pause (?g3\<lparr>holder := Some (Pausing ({0} - {0}))\<rparr>)"
  have "gate_step NewGate ?g1" using new_gated [of NewGate 0 5 t] t by (simp add: NewGate_def)
  moreover have "gate_step ?g1 ?g2" by (rule timer_expires)
  moreover have "gate_step ?g2 ?g3" by (rule pause_begins) (simp add: NewGate_def at_ticker_def)
  moreover have "gate_step ?g3 ?g4" by (rule pause_ticker [of ?g3 "{0}"]) (simp_all add: NewGate_def at_ticker_def begin_Pause_def)
  moreover have "gate_step ?g4 demo_gate" unfolding demo_gate_def using pause_ends [of ?g4] by (simp add: at_ticker_def)
  ultimately have r: "gate_step\<^sup>*\<^sup>* NewGate demo_gate" by (meson rtranclp.rtrancl_into_rtrancl rtranclp.rtrancl_refl)
  have d: "holder demo_gate = None" "0 \<in> tickers demo_gate" "paused demo_gate"
    by (simp_all add: demo_gate_def run_hooks_def at_ticker_def begin_Pause_def NewGate_def)
  have "\<exists>t. ticker demo_gate 0 = Some t \<and> t_expired t = 1"
    by (simp add: demo_gate_def run_hooks_def at_ticker_def begin_Pause_def NewGate_def new_ticker_def arm_def expire_def pause_def timer_Stop_def Let_def)
  then show ?thesis using gate_governs_tickers [OF r d(1,2)] d(3) by (auto simp: Paused_def)
qed

end
