(* ===== verification/Spec2Isabelle.thy ===== *)
theory Spec2Isabelle
  imports Witness_Head Ledger_Durable Untrusted Ring_Manager Bbb_Frame Foreground Quiesce
begin

text \<open>
  AII OS: a verification development.
\<close>

end
